(* ===== verification/Prelude.thy ===== *)
theory Prelude
  imports Main "HOL-Library.Word" "HOL-Library.Multiset"
begin

text \<open>
  Shared ground of the development: the fact collections, the result type of the
  fallible operations with the \<^verbatim>\<open>?\<close> operator, the machine integers of the program
  and generic lemmas on lists and words that several components use.
\<close>

named_theorems eval_defs \<open>definitions unfolded when a concrete run is evaluated\<close>
named_theorems step_simps \<open>facts that rewrite one step of a component\<close>
named_theorems inv_intros \<open>preservation facts of the invariants\<close>

section \<open>Machine integers\<close>

text \<open>The target has 64-bit pointers, so \<^verbatim>\<open>usize\<close> is a 64-bit word.\<close>

type_synonym usize = "64 word"
type_synonym u8 = "8 word"
type_synonym byte = "8 word"

lemma unat_of_nat_less: "n < 2 ^ LENGTH('a) \<Longrightarrow> unat (of_nat n :: 'a::len word) = n"
  by (simp add: unat_of_nat take_bit_nat_eq_self)

lemma unat_byte_less [simp]: "unat (b :: byte) < 256"
  using unsigned_less [of b] by simp

lemma unat_byte_of_nat: "n < 256 \<Longrightarrow> unat (of_nat n :: byte) = n"
  by (rule unat_of_nat_less) simp

section \<open>Results and the question mark operator\<close>

text \<open>
  A Rust \<^verbatim>\<open>Result<T, E>\<close> is the sum \<open>'e + 'a\<close>: \<open>Inl\<close> is \<^verbatim>\<open>Err\<close> and \<open>Inr\<close> is
  \<^verbatim>\<open>Ok\<close>. \<open>and_then r f\<close> is \<^verbatim>\<open>let x = r?; f(x)\<close>. A computation that may panic has an
  \<open>option\<close> around its value, with \<open>None\<close> for the panic.
\<close>

fun and_then :: "'e + 'a \<Rightarrow> ('a \<Rightarrow> 'e + 'b) \<Rightarrow> 'e + 'b" where
  "and_then (Inl e) f = Inl e"
| "and_then (Inr x) f = f x"

fun map_err :: "('e \<Rightarrow> 'f) \<Rightarrow> 'e + 'a \<Rightarrow> 'f + 'a" where
  "map_err g (Inl e) = Inl (g e)"
| "map_err g (Inr x) = Inr x"

definition ok_or :: "'e \<Rightarrow> 'a option \<Rightarrow> 'e + 'a" where
  "ok_or e m = (case m of None \<Rightarrow> Inl e | Some x \<Rightarrow> Inr x)"

lemma and_then_Inr [simp]: "and_then r f = Inr y \<longleftrightarrow> (\<exists>x. r = Inr x \<and> f x = Inr y)"
  by (cases r) auto

lemma and_then_Inl: "and_then r f = Inl e \<longleftrightarrow> r = Inl e \<or> (\<exists>x. r = Inr x \<and> f x = Inl e)"
  by (cases r) auto

lemma ok_or_simps [simp]: "ok_or e None = Inl e" "ok_or e (Some x) = Inr x"
  by (simp_all add: ok_or_def)

lemma ok_or_Inr [simp]: "ok_or e m = Inr x \<longleftrightarrow> m = Some x"
  by (cases m) auto

text \<open>\<open>try_then r f\<close> is the same where what follows may panic.\<close>

fun try_then :: "'e + 'a \<Rightarrow> ('a \<Rightarrow> ('e + 'b) option) \<Rightarrow> ('e + 'b) option" where
  "try_then (Inl e) f = Some (Inl e)"
| "try_then (Inr x) f = f x"

lemma try_then_Some: "try_then r f = Some (Inr y) \<longleftrightarrow> (\<exists>x. r = Inr x \<and> f x = Some (Inr y))"
  by (cases r) auto

lemma try_then_None: "try_then r f = None \<longleftrightarrow> (\<exists>x. r = Inr x \<and> f x = None)"
  by (cases r) auto

section \<open>Indices\<close>

text \<open>
  What panics on a slice and on an index: \<open>array_to xs n\<close> is \<^verbatim>\<open>&xs[..n]\<close>, \<open>array_from xs n\<close> is
  \<^verbatim>\<open>&xs[n..]\<close>, \<open>checked_sub m n\<close> the subtraction of two \<^verbatim>\<open>usize\<close> with overflow checks.
\<close>

definition array_to :: "'a list \<Rightarrow> nat \<Rightarrow> 'a list option" where [eval_defs]:
  "array_to xs n = (if n \<le> length xs then Some (take n xs) else None)"

definition array_from :: "'a list \<Rightarrow> nat \<Rightarrow> 'a list option" where [eval_defs]:
  "array_from xs n = (if n \<le> length xs then Some (drop n xs) else None)"

definition checked_sub :: "nat \<Rightarrow> nat \<Rightarrow> nat option" where [eval_defs]:
  "checked_sub m n = (if n \<le> m then Some (m - n) else None)"

lemma array_slices:
  "n \<le> length xs \<Longrightarrow> array_to xs n = Some (take n xs)"
  "n \<le> length xs \<Longrightarrow> array_from xs n = Some (drop n xs)"
  by (simp_all add: array_to_def array_from_def)

section \<open>Lists\<close>

text \<open>\<open>position P xs\<close> is \<^verbatim>\<open>xs.iter().position(P)\<close>: the index of the first hit.\<close>

fun position :: "('a \<Rightarrow> bool) \<Rightarrow> 'a list \<Rightarrow> nat option" where
  "position P [] = None"
| "position P (x # xs) = (if P x then Some 0 else map_option Suc (position P xs))"

lemma position_None: "position P xs = None \<longleftrightarrow> (\<forall>x \<in> set xs. \<not> P x)"
  by (induction xs) auto

lemma position_append_hit:
  "\<forall>x \<in> set xs. \<not> P x \<Longrightarrow> P y \<Longrightarrow> position P (xs @ y # ys) = Some (length xs)"
  by (induction xs) auto

lemma position_first: "y \<notin> set xs \<Longrightarrow> position (\<lambda>b. b = y) (xs @ y # ys) = Some (length xs)"
  by (rule position_append_hit) auto

lemma position_eq_None: "position (\<lambda>b. b = y) xs = None \<longleftrightarrow> y \<notin> set xs"
  by (auto simp: position_None)

lemma position_SomeD:
  "position P xs = Some i \<Longrightarrow> i < length xs \<and> P (xs ! i) \<and> (\<forall>j < i. \<not> P (xs ! j))"
proof (induction xs arbitrary: i)
  case Nil
  then show ?case by simp
next
  case (Cons x xs)
  show ?case
  proof (cases "P x")
    case True
    with Cons.prems show ?thesis by simp
  next
    case False
    with Cons.prems obtain k where k: "position P xs = Some k" "i = Suc k" by auto
    with Cons.IH [of k] False show ?thesis by (auto simp: nth_Cons split: nat.splits)
  qed
qed

lemma position_append_Some:
  "position P xs = Some i \<Longrightarrow> position P (xs @ ys) = Some i"
  by (induction xs arbitrary: i) (auto split: if_splits)

text \<open>A list with a hit splits at the first one.\<close>

lemma position_split:
  assumes "position P xs = Some i"
  shows "xs = take i xs @ xs ! i # drop (Suc i) xs" and "\<forall>x \<in> set (take i xs). \<not> P x"
proof -
  from assms have "i < length xs" and low: "\<forall>j < i. \<not> P (xs ! j)"
    by (auto dest: position_SomeD)
  then show "xs = take i xs @ xs ! i # drop (Suc i) xs"
    by (simp add: id_take_nth_drop [symmetric])
  from low \<open>i < length xs\<close> show "\<forall>x \<in> set (take i xs). \<not> P x"
    by (auto simp: in_set_conv_nth)
qed

lemma position_slices:
  assumes "position P xs = Some i"
  shows "array_to xs i = Some (take i xs)" "array_from xs (Suc i) = Some (drop (Suc i) xs)"
  using position_SomeD [OF assms] by (simp_all add: array_slices)

text \<open>The first element of a list with a property, one element at a time.\<close>

lemma ex_split_Cons:
  "(\<exists>pre x post. y # ys = pre @ x # post \<and> P x \<and> list_all Q pre)
     \<longleftrightarrow> P y \<or> (Q y \<and> (\<exists>pre x post. ys = pre @ x # post \<and> P x \<and> list_all Q pre))"
proof
  assume "\<exists>pre x post. y # ys = pre @ x # post \<and> P x \<and> list_all Q pre"
  then obtain pre x post where "y # ys = pre @ x # post" "P x" "list_all Q pre" by blast
  then show "P y \<or> (Q y \<and> (\<exists>pre x post. ys = pre @ x # post \<and> P x \<and> list_all Q pre))"
    by (cases pre) auto
next
  assume "P y \<or> (Q y \<and> (\<exists>pre x post. ys = pre @ x # post \<and> P x \<and> list_all Q pre))"
  then show "\<exists>pre x post. y # ys = pre @ x # post \<and> P x \<and> list_all Q pre"
  proof
    assume "P y"
    then show ?thesis by (intro exI [of _ "[]"] exI [of _ y] exI [of _ ys]) simp
  next
    assume "Q y \<and> (\<exists>pre x post. ys = pre @ x # post \<and> P x \<and> list_all Q pre)"
    then obtain pre x post where "Q y" "ys = pre @ x # post" "P x" "list_all Q pre" by blast
    then show ?thesis by (intro exI [of _ "y # pre"] exI [of _ x] exI [of _ post]) simp
  qed
qed

section \<open>Maps\<close>

lemma ex_map_upd: "(\<exists>x. (h(c := v)) x = Some w) \<longleftrightarrow> v = Some w \<or> (\<exists>x. x \<noteq> c \<and> h x = Some w)"
  by auto

lemma ex_map_other: "h c \<noteq> Some w \<Longrightarrow> (\<exists>x. x \<noteq> c \<and> h x = Some w) \<longleftrightarrow> (\<exists>x. h x = Some w)"
  by auto

section \<open>Runs\<close>

text \<open>
  A run of a step relation whose steps may show something: the list of what they show, in
  order. \<open>None\<close> is a step that shows nothing.
\<close>

inductive trace_run ::
  "('x \<Rightarrow> 'l option \<Rightarrow> 'x \<Rightarrow> bool) \<Rightarrow> 'x \<Rightarrow> 'l list \<Rightarrow> 'x \<Rightarrow> bool" for step where
  trace_stay: "trace_run step x [] x"
| trace_move: "trace_run step x os y \<Longrightarrow> step y l z \<Longrightarrow>
    trace_run step x (os @ (case l of None \<Rightarrow> [] | Some out \<Rightarrow> [out])) z"

lemma trace_append: "trace_run step y os2 z \<Longrightarrow> trace_run step x os1 y \<Longrightarrow> trace_run step x (os1 @ os2) z"
proof (induction rule: trace_run.induct)
  case (trace_move y os z l w)
  then have "trace_run step x (os1 @ os) z" by simp
  from trace_run.trace_move [OF this trace_move(2)] show ?case by simp
qed simp

lemma trace_one: "step x l y \<Longrightarrow> trace_run step x (case l of None \<Rightarrow> [] | Some out \<Rightarrow> [out]) y"
  using trace_run.trace_move [OF trace_run.trace_stay] by fastforce

lemma trace_quiet: "step x None y \<Longrightarrow> trace_run step y os z \<Longrightarrow> trace_run step x os z"
  using trace_append [of step y os z x "[]"] trace_one [of step x None y] by simp

lemma trace_quiet_runs: "trace_run step x [] y \<Longrightarrow> trace_run step y os z \<Longrightarrow> trace_run step x os z"
  using trace_append [of step y os z x "[]"] by simp

text \<open>A run of one relation is a run of another that has its steps, on a view of the states.\<close>

lemma trace_lift:
  assumes "trace_run step x os y" "\<And>x l y. step x l y \<Longrightarrow> step' (f x) l (f y)"
  shows "trace_run step' (f x) os (f y)"
  using assms(1)
proof (induction rule: trace_run.induct)
  case (trace_move x os y l z)
  from trace_run.trace_move [OF trace_move(3) assms(2) [OF trace_move(2)]] show ?case .
qed (rule trace_run.trace_stay)

lemma trace_star: "(\<lambda>x y. step x None y)\<^sup>*\<^sup>* x y \<Longrightarrow> trace_run step x [] y"
proof (induction rule: rtranclp_induct)
  case (step y z)
  from trace_run.trace_move [OF step(3,2)] show ?case by simp
qed (rule trace_run.trace_stay)

text \<open>Each shown item has its step in the run.\<close>

lemma trace_split:
  assumes "trace_run step x os y" "k < length os"
  shows "\<exists>u v. trace_run step x (take k os) u \<and> step u (Some (os ! k)) v \<and> trace_run step v (drop (Suc k) os) y"
  using assms
proof (induction rule: trace_run.induct)
  case (trace_move x os y l z)
  show ?case
  proof (cases "k < length os")
    case True
    with trace_move(3) obtain u v where s: "trace_run step x (take k os) u" "step u (Some (os ! k)) v"
      "trace_run step v (drop (Suc k) os) y" by blast
    from trace_run.trace_move [OF s(3) trace_move(2)] s(1,2) True show ?thesis
      by (intro exI [of _ u] exI [of _ v]) (simp add: nth_append)
  next
    case False
    with trace_move(4) obtain out where l: "l = Some out" "k = length os" by (cases l) auto
    with trace_move(1,2) show ?thesis
      by (intro exI [of _ y] exI [of _ z]) (simp add: trace_run.trace_stay)
  qed
qed simp

text \<open>An invariant that knows what has been shown.\<close>

lemma trace_invariant:
  assumes "trace_run step x os' y" "P os x"
    and "\<And>os x l y. step x l y \<Longrightarrow> P os x \<Longrightarrow> P (os @ (case l of None \<Rightarrow> [] | Some out \<Rightarrow> [out])) y"
  shows "P (os @ os') y"
  using assms(1,2)
proof (induction rule: trace_run.induct)
  case (trace_move x os1 y l z)
  from assms(3) [OF trace_move(2) trace_move(3) [OF trace_move(4)]] show ?case by simp
qed simp

end
