(* ===== verification/Rust_Std.thy ===== *)
theory Rust_Std
  imports Prelude
begin

text \<open>
  The part of Rust's standard library that the program relies on, written out: \<^verbatim>\<open>char\<close>
  as a code point, \<^verbatim>\<open>str\<close> as the list of its characters with byte offsets computed
  from their UTF-8 widths (so that slicing at a byte offset can hit a character boundary
  or panic, as it does in Rust), the UTF-8 coding between \<^verbatim>\<open>str\<close> and \<^verbatim>\<open>[u8]\<close>,
  \<^verbatim>\<open>to_string\<close> and \<^verbatim>\<open>parse\<close> of the unsigned integers, and the I/O error type.
\<close>

section \<open>Errors\<close>

text \<open>
  \<open>Other m\<close> is \<^verbatim>\<open>io::Error::new(ErrorKind::Other, m)\<close>; \<open>Os n\<close> an error of the
  operating system with code \<open>n\<close>; \<open>InvalidData\<close> the error of the standard library's
  readers for bytes that are not UTF-8.
\<close>

datatype io_error = Other string | Os nat | InvalidData

type_synonym 'a io_result = "io_error + 'a"

section \<open>Characters and strings\<close>

type_synonym rchar = nat
type_synonym rstr = "rchar list"

definition lit :: "string \<Rightarrow> rstr" where [eval_defs]:
  "lit s = map of_char s"

abbreviation c_nl :: rchar where "c_nl \<equiv> 10"
abbreviation c_cr :: rchar where "c_cr \<equiv> 13"
abbreviation c_space :: rchar where "c_space \<equiv> 32"
abbreviation c_hash :: rchar where "c_hash \<equiv> 35"
abbreviation c_percent :: rchar where "c_percent \<equiv> 37"
abbreviation c_backslash :: rchar where "c_backslash \<equiv> 92"
abbreviation c_n :: rchar where "c_n \<equiv> 110"
abbreviation c_open :: rchar where "c_open \<equiv> 123"
abbreviation c_close :: rchar where "c_close \<equiv> 125"

text \<open>A \<^verbatim>\<open>char\<close> is a Unicode scalar value: no surrogate, at most 0x10FFFF.\<close>

definition scalar :: "rchar \<Rightarrow> bool" where
  "scalar c \<longleftrightarrow> c < 0xD800 \<or> (0xE000 \<le> c \<and> c < 0x110000)"

definition valid_str :: "rstr \<Rightarrow> bool" where
  "valid_str s \<longleftrightarrow> list_all scalar s"

lemma valid_str_simps [simp]:
  "valid_str []"
  "valid_str (c # s) \<longleftrightarrow> scalar c \<and> valid_str s"
  "valid_str (s @ t) \<longleftrightarrow> valid_str s \<and> valid_str t"
  by (simp_all add: valid_str_def)

lemma valid_lit [simp]: "valid_str (lit s)"
proof -
  have "scalar (of_char c)" for c :: char
    unfolding scalar_def by (rule disjI1, rule less_trans [OF nat_of_char_less_256]) simp
  then show ?thesis by (simp add: valid_str_def lit_def list_all_iff)
qed

section \<open>Byte offsets\<close>

definition len_utf8 :: "rchar \<Rightarrow> nat" where
  "len_utf8 c = (if c < 0x80 then 1 else if c < 0x800 then 2 else if c < 0x10000 then 3 else 4)"

definition str_len :: "rstr \<Rightarrow> nat" where
  "str_len s = sum_list (map len_utf8 s)"

lemma len_utf8_pos [simp]: "0 < len_utf8 c" "len_utf8 c \<noteq> 0"
  by (simp_all add: len_utf8_def)

lemma len_utf8_ascii: "c < 128 \<Longrightarrow> len_utf8 c = 1"
  by (simp add: len_utf8_def)

lemma str_len_simps [simp]:
  "str_len [] = 0"
  "str_len (c # s) = len_utf8 c + str_len s"
  "str_len (s @ t) = str_len s + str_len t"
  by (simp_all add: str_len_def)

lemma str_len_0_iff [simp]: "str_len s = 0 \<longleftrightarrow> s = []" "0 = str_len s \<longleftrightarrow> s = []"
  by (cases s; simp)+

text \<open>\<open>char_indices_from n s\<close>: the characters of \<open>s\<close> with their byte offsets from \<open>n\<close>.\<close>

fun char_indices_from :: "nat \<Rightarrow> rstr \<Rightarrow> (nat \<times> rchar) list" where
  "char_indices_from n [] = []"
| "char_indices_from n (c # s) = (n, c) # char_indices_from (n + len_utf8 c) s"

definition char_indices :: "rstr \<Rightarrow> (nat \<times> rchar) list" where
  "char_indices s = char_indices_from 0 s"

text \<open>
  Splitting at a byte offset: \<open>None\<close> when the offset is past the end or inside a
  character, where the slice of Rust panics.
\<close>

fun split_at :: "rstr \<Rightarrow> nat \<Rightarrow> (rstr \<times> rstr) option" where
  "split_at [] n = (if n = 0 then Some ([], []) else None)"
| "split_at (c # s) n =
     (if n = 0 then Some ([], c # s)
      else if n < len_utf8 c then None
      else map_option (\<lambda>(p, q). (c # p, q)) (split_at s (n - len_utf8 c)))"

definition slice_to :: "rstr \<Rightarrow> nat \<Rightarrow> rstr option" where
  "slice_to s b = map_option fst (split_at s b)"

definition slice_from :: "rstr \<Rightarrow> nat \<Rightarrow> rstr option" where
  "slice_from s a = map_option snd (split_at s a)"

definition str_slice :: "rstr \<Rightarrow> nat \<Rightarrow> nat \<Rightarrow> rstr option" where
  "str_slice s a b =
     (if a \<le> b then Option.bind (slice_from s a) (\<lambda>t. slice_to t (b - a)) else None)"

lemma split_at_append [simp]: "split_at (p @ q) (str_len p) = Some (p, q)"
proof (induction p)
  case Nil
  then show ?case by (cases q) auto
next
  case (Cons c p)
  then show ?case by auto
qed

lemma split_at_0 [simp]: "split_at s 0 = Some ([], s)"
  by (cases s) auto

lemma split_at_SomeD: "split_at s n = Some (p, q) \<Longrightarrow> s = p @ q \<and> str_len p = n"
  by (induction s arbitrary: n p q) (auto split: if_splits)

lemma slice_from_append [simp]: "slice_from (p @ q) (str_len p) = Some q"
  by (simp add: slice_from_def)

lemma slice_to_append [simp]: "slice_to (p @ q) (str_len p) = Some p"
  by (simp add: slice_to_def)

lemma str_slice_append [simp]:
  "str_slice (p @ m @ q) (str_len p) (str_len p + str_len m) = Some m"
  by (simp add: str_slice_def)

text \<open>The forms in which the loops of the program meet slices.\<close>

lemma str_slice_mid:
  "a = str_len p \<Longrightarrow> b = str_len p + str_len m \<Longrightarrow> str_slice (p @ m @ q) a b = Some m"
  by simp

lemma slice_from_mid: "a = str_len p \<Longrightarrow> slice_from (p @ q) a = Some q"
  by simp

lemma char_indices_from_append:
  "char_indices_from n (s @ t) = char_indices_from n s @ char_indices_from (n + str_len s) t"
  by (induction s arbitrary: n) (auto simp: add.assoc)

lemma map_snd_char_indices_from [simp]: "map snd (char_indices_from n s) = s"
  by (induction s arbitrary: n) auto

section \<open>UTF-8\<close>

text \<open>\<open>as_bytes\<close> writes a string as its UTF-8 bytes.\<close>

definition byte_of :: "nat \<Rightarrow> byte" where [eval_defs]:
  "byte_of n = of_nat n"

lemma unat_byte_of [simp]: "n < 256 \<Longrightarrow> unat (byte_of n) = n"
  by (simp add: byte_of_def unat_byte_of_nat)

lemma byte_of_eq_iff: "m < 256 \<Longrightarrow> n < 256 \<Longrightarrow> byte_of m = byte_of n \<longleftrightarrow> m = n"
  by (metis unat_byte_of)

definition encode_char :: "rchar \<Rightarrow> byte list" where
  "encode_char c =
     (if c < 0x80 then [byte_of c]
      else if c < 0x800 then [byte_of (0xC0 + c div 64), byte_of (0x80 + c mod 64)]
      else if c < 0x10000 then
        [byte_of (0xE0 + c div 4096), byte_of (0x80 + c div 64 mod 64), byte_of (0x80 + c mod 64)]
      else
        [byte_of (0xF0 + c div 262144), byte_of (0x80 + c div 4096 mod 64),
         byte_of (0x80 + c div 64 mod 64), byte_of (0x80 + c mod 64)])"

definition as_bytes :: "rstr \<Rightarrow> byte list" where
  "as_bytes s = concat (map encode_char s)"

lemma as_bytes_simps [simp]:
  "as_bytes [] = []"
  "as_bytes (c # s) = encode_char c @ as_bytes s"
  "as_bytes (s @ t) = as_bytes s @ as_bytes t"
  by (simp_all add: as_bytes_def)

lemma length_encode_char [simp]: "length (encode_char c) = len_utf8 c"
  by (simp add: encode_char_def len_utf8_def)

lemma length_as_bytes [simp]: "length (as_bytes s) = str_len s"
  by (induction s) auto

text \<open>
  \<open>next_char\<close> decodes the first character of a byte list: \<open>None\<close> where the bytes are
  not UTF-8 (a stray continuation byte, a truncated or overlong sequence, a surrogate or
  a value above 0x10FFFF).
\<close>

definition cont :: "byte \<Rightarrow> bool" where
  "cont b \<longleftrightarrow> 0x80 \<le> unat b \<and> unat b < 0xC0"

definition next_char :: "byte list \<Rightarrow> (rchar \<times> byte list) option" where
  "next_char bs = (case bs of
     [] \<Rightarrow> None
   | b0 # r0 \<Rightarrow>
       if unat b0 < 0x80 then Some (unat b0, r0)
       else if unat b0 < 0xC2 then None
       else if unat b0 < 0xE0 then
         (case r0 of b1 # r1 \<Rightarrow>
            if cont b1 then Some ((unat b0 - 0xC0) * 64 + (unat b1 - 0x80), r1) else None
          | _ \<Rightarrow> None)
       else if unat b0 < 0xF0 then
         (case r0 of b1 # b2 # r2 \<Rightarrow>
            let c = (unat b0 - 0xE0) * 4096 + (unat b1 - 0x80) * 64 + (unat b2 - 0x80)
            in if cont b1 \<and> cont b2 \<and> 0x800 \<le> c \<and> scalar c then Some (c, r2) else None
          | _ \<Rightarrow> None)
       else if unat b0 < 0xF5 then
         (case r0 of b1 # b2 # b3 # r3 \<Rightarrow>
            let c = (unat b0 - 0xF0) * 262144 + (unat b1 - 0x80) * 4096
                  + (unat b2 - 0x80) * 64 + (unat b3 - 0x80)
            in if cont b1 \<and> cont b2 \<and> cont b3 \<and> 0x10000 \<le> c \<and> scalar c
               then Some (c, r3) else None
          | _ \<Rightarrow> None)
       else None)"

lemma next_char_shorter: "next_char bs = Some (c, r) \<Longrightarrow> length r < length bs"
  by (auto simp: next_char_def Let_def split: list.splits if_splits)

text \<open>\<^verbatim>\<open>str::from_utf8\<close>; \<open>None\<close> is its error.\<close>

function from_utf8 :: "byte list \<Rightarrow> rstr option" where
  "from_utf8 bs =
     (if bs = [] then Some []
      else case next_char bs of
             None \<Rightarrow> None
           | Some (c, r) \<Rightarrow> map_option (Cons c) (from_utf8 r))"
  by pat_completeness auto
termination
  by (relation "measure length") (auto dest: next_char_shorter)

declare from_utf8.simps [simp del]

lemma from_utf8_Nil [simp]: "from_utf8 [] = Some []"
  by (simp add: from_utf8.simps)

lemma unat_lead2: "c < 0x800 \<Longrightarrow> unat (byte_of (0xC0 + c div 64)) = 0xC0 + c div 64"
  by simp

lemma unat_lead3: "c < 0x10000 \<Longrightarrow> unat (byte_of (0xE0 + c div 4096)) = 0xE0 + c div 4096"
  by simp

lemma unat_lead4: "c < 0x110000 \<Longrightarrow> unat (byte_of (0xF0 + c div 262144)) = 0xF0 + c div 262144"
  by simp

lemma unat_cont: "unat (byte_of (0x80 + m mod 64)) = 0x80 + m mod 64"
  by simp

lemma cont_of_nat: "cont (byte_of (0x80 + m mod 64))"
  by (simp add: cont_def unat_cont)

lemmas unat_utf8 = unat_lead2 unat_lead3 unat_lead4 unat_cont

lemma split3: "c div 4096 * 4096 + c div 64 mod 64 * 64 + c mod 64 = (c :: nat)"
proof -
  have "c div 64 div 64 = c div 4096" by (simp add: div_mult2_eq [symmetric])
  then have "c div 4096 * 64 + c div 64 mod 64 = c div 64"
    using div_mult_mod_eq [of "c div 64" 64] by simp
  then have "(c div 4096 * 64 + c div 64 mod 64) * 64 + c mod 64 = c" by simp
  then show ?thesis by (simp add: algebra_simps)
qed

lemma split4:
  "c div 262144 * 262144 + c div 4096 mod 64 * 4096 + c div 64 mod 64 * 64 + c mod 64 = (c :: nat)"
proof -
  have "c div 4096 div 64 = c div 262144" by (simp add: div_mult2_eq [symmetric])
  then have "c div 262144 * 64 + c div 4096 mod 64 = c div 4096"
    using div_mult_mod_eq [of "c div 4096" 64] by simp
  then have "c div 262144 * 262144 + c div 4096 mod 64 * 4096 = c div 4096 * 4096" by simp
  with split3 [of c] show ?thesis by simp
qed

lemma next_char_encode: "scalar c \<Longrightarrow> next_char (encode_char c @ bs) = Some (c, bs)"
proof -
  assume sc: "scalar c"
  consider "c < 0x80" | "0x80 \<le> c" "c < 0x800" | "0x800 \<le> c" "c < 0x10000" | "0x10000 \<le> c"
    by linarith
  then show ?thesis
  proof cases
    case 1
    then have "unat (byte_of c) = c" by simp
    with 1 show ?thesis by (simp add: next_char_def encode_char_def)
  next
    case 2
    then have "2 \<le> c div 64" "c div 64 < 32" by auto
    with 2 show ?thesis by (simp add: next_char_def encode_char_def unat_utf8 cont_of_nat)
  next
    case 3
    then have "c div 4096 < 16" by auto
    with 3 sc show ?thesis
      by (simp add: next_char_def encode_char_def unat_utf8 cont_of_nat split3)
  next
    case 4
    with sc have "c < 0x110000" by (simp add: scalar_def)
    then have "c div 262144 < 5" by auto
    with 4 sc \<open>c < 0x110000\<close> show ?thesis
      by (simp add: next_char_def encode_char_def unat_utf8 cont_of_nat split4)
  qed
qed

lemma encode_char_nonempty [simp]: "encode_char c \<noteq> []"
  by (simp add: encode_char_def)

text \<open>Every string survives the way through its bytes.\<close>

lemma from_utf8_as_bytes [simp]: "valid_str s \<Longrightarrow> from_utf8 (as_bytes s) = Some s"
proof (induction s)
  case Nil
  then show ?case by simp
next
  case (Cons c s)
  then show ?case
    by (simp add: from_utf8.simps [of "encode_char c @ as_bytes s"] next_char_encode)
qed

text \<open>What \<^verbatim>\<open>from_utf8\<close> accepts is a string of Rust: its characters are scalar values.\<close>

lemma next_char_scalar:
  assumes "next_char bs = Some (c, r)"
  shows "scalar c"
proof -
  obtain b0 r0 where bs: "bs = b0 # r0" using assms by (cases bs) (simp_all add: next_char_def)
  consider "unat b0 < 0x80" | "0x80 \<le> unat b0" "unat b0 < 0xE0" | "0xE0 \<le> unat b0" by linarith
  then show ?thesis
  proof cases
    case 1
    with assms bs show ?thesis by (auto simp: next_char_def scalar_def)
  next
    case 2
    with assms bs obtain b1 where "c = (unat b0 - 0xC0) * 64 + (unat b1 - 0x80)" "cont b1"
      by (auto simp: next_char_def split: list.splits if_splits)
    with 2 show ?thesis by (auto simp: scalar_def cont_def)
  next
    case 3
    with assms bs show ?thesis
      by (auto simp: next_char_def Let_def split: list.splits if_splits)
  qed
qed

lemma from_utf8_valid: "from_utf8 bs = Some s \<Longrightarrow> valid_str s"
proof (induction bs arbitrary: s rule: from_utf8.induct)
  case (1 bs)
  then show ?case
    by (auto simp: from_utf8.simps [of bs] next_char_scalar split: if_splits option.splits prod.splits)
qed

text \<open>
  The bytes of a character outside ASCII are all above 0x7F, so an ASCII byte of the
  encoding is an ASCII character of the string.
\<close>

lemma encode_char_ascii: "c < 0x80 \<Longrightarrow> encode_char c = [byte_of c]"
  by (simp add: encode_char_def)

lemma encode_char_high:
  assumes "scalar c" "0x80 \<le> c" "b \<in> set (encode_char c)"
  shows "0x80 \<le> unat b"
proof -
  have "c < 0x110000" using assms(1) by (auto simp: scalar_def)
  then show ?thesis using assms(2,3)
    by (auto simp: encode_char_def unat_utf8 split: if_splits)
qed

lemma ascii_in_as_bytes:
  assumes "valid_str s" "a < 0x80"
  shows "byte_of a \<in> set (as_bytes s) \<longleftrightarrow> a \<in> set s"
  using assms(1)
proof (induction s)
  case Nil
  then show ?case by simp
next
  case (Cons c s)
  have a: "unat (byte_of a) = a" using assms(2) by simp
  have "byte_of a \<in> set (encode_char c) \<longleftrightarrow> a = c"
  proof (cases "c < 0x80")
    case True
    then have "unat (byte_of c) = c" by simp
    with a True show ?thesis by (auto simp: encode_char_ascii)
  next
    case False
    with Cons.prems a assms(2) show ?thesis
      by (auto simp: encode_char_ascii dest!: encode_char_high [of c])
  qed
  with Cons show ?case by auto
qed

section \<open>Unsigned integers as text\<close>

text \<open>\<^verbatim>\<open>to_string\<close> of an unsigned integer: its decimal digits.\<close>

fun digits :: "nat \<Rightarrow> rstr" where
  "digits n = (if n < 10 then [48 + n] else digits (n div 10) @ [48 + n mod 10])"

declare digits.simps [simp del]

definition to_string :: "'a::len word \<Rightarrow> rstr" where
  "to_string w = digits (unat w)"

text \<open>
  \<^verbatim>\<open>parse::<uN>\<close>: an optional plus sign, at least one digit, and every step checked
  against overflow of the width; \<open>None\<close> is the \<^verbatim>\<open>ParseIntError\<close>.
\<close>

definition push_digit :: "'a::len word \<Rightarrow> rchar \<Rightarrow> 'a word option" where
  "push_digit r c =
     (if 48 \<le> c \<and> c \<le> 57 \<and> unat r * 10 + (c - 48) < 2 ^ LENGTH('a)
      then Some (r * 10 + of_nat (c - 48)) else None)"

fun parse_digits :: "'a::len word \<Rightarrow> rstr \<Rightarrow> 'a word option" where
  "parse_digits r [] = Some r"
| "parse_digits r (c # s) = Option.bind (push_digit r c) (\<lambda>r'. parse_digits r' s)"

definition parse_uint :: "rstr \<Rightarrow> 'a::len word option" where
  "parse_uint s =
     (let ds = (case s of [] \<Rightarrow> [] | c # t \<Rightarrow> if c = 43 then t else s)
      in if ds = [] then None else parse_digits 0 ds)"

lemma digits_nonempty [simp]: "digits n \<noteq> []"
  by (subst digits.simps) simp

lemma digits_range: "c \<in> set (digits n) \<Longrightarrow> 48 \<le> c \<and> c \<le> 57"
proof (induction n rule: digits.induct)
  case (1 n)
  show ?case
  proof (cases "n < 10")
    case True
    with "1.prems" show ?thesis by (simp add: digits.simps [of n])
  next
    case False
    with "1.prems" have "c \<in> set (digits (n div 10)) \<or> c = 48 + n mod 10"
      by (auto simp: digits.simps [of n])
    with "1.IH" [OF False] show ?thesis by auto
  qed
qed

lemma parse_digits_append:
  "parse_digits r (s @ t) = Option.bind (parse_digits r s) (\<lambda>r'. parse_digits r' t)"
  by (induction s arbitrary: r) (auto simp: bind_assoc split: Option.bind_split)

lemma push_digit_exact:
  assumes "n < 2 ^ LENGTH('a)" "d < 10" "n = 10 * m + d"
  shows "push_digit (of_nat m :: 'a::len word) (48 + d) = Some (of_nat n)"
proof -
  have "m < 2 ^ LENGTH('a)" using assms by linarith
  then have "unat (of_nat m :: 'a word) = m" by (rule unat_of_nat_less)
  with assms show ?thesis by (simp add: push_digit_def mult.commute)
qed

lemma parse_digits_digits:
  "n < 2 ^ LENGTH('a) \<Longrightarrow> parse_digits 0 (digits n) = Some (of_nat n :: 'a::len word)"
proof (induction n rule: digits.induct)
  case (1 n)
  show ?case
  proof (cases "n < 10")
    case True
    with "1.prems" push_digit_exact [of n n 0, where 'a='a] show ?thesis
      by (simp add: digits.simps [of n])
  next
    case False
    have "n div 10 < 2 ^ LENGTH('a)" using "1.prems" by linarith
    with False "1.IH" have "parse_digits 0 (digits (n div 10)) = Some (of_nat (n div 10) :: 'a word)"
      by simp
    moreover have "push_digit (of_nat (n div 10) :: 'a word) (48 + n mod 10) = Some (of_nat n)"
      using "1.prems" by (intro push_digit_exact) auto
    ultimately show ?thesis using False
      by (simp add: digits.simps [of n] parse_digits_append)
  qed
qed

lemma digits_no_plus: "digits n = c # s \<Longrightarrow> c \<noteq> 43"
  using digits_range [of c n] by auto

lemma parse_to_string [simp]: "parse_uint (to_string w) = Some (w :: 'a::len word)"
proof -
  have "parse_digits 0 (digits (unat w)) = Some w"
    by (simp add: parse_digits_digits)
  then show ?thesis
    by (auto simp: parse_uint_def to_string_def Let_def digits_no_plus split: list.split)
qed

lemma to_string_inj [simp]: "to_string v = to_string w \<longleftrightarrow> v = (w :: 'a::len word)"
  by (metis parse_to_string option.inject)

lemma to_string_nonempty [simp]: "to_string w \<noteq> []"
  by (simp add: to_string_def)

lemma to_string_digit: "c \<in> set (to_string w) \<Longrightarrow> 48 \<le> c \<and> c \<le> 57"
  by (simp add: to_string_def digits_range)

lemma to_string_scalar [simp]: "valid_str (to_string w)"
  by (auto simp: valid_str_def list_all_iff scalar_def dest!: to_string_digit)

lemma to_string_ascii: "c < 48 \<or> 57 < c \<Longrightarrow> c \<notin> set (to_string w)"
  by (auto dest: to_string_digit)

end
