(* ===== verification/Args.thy ===== *)
theory Args
  imports Rust_Std
begin

text \<open>
  The command line of the client, \<^verbatim>\<open>src/client/args.rs\<close>, and the test for a redirected
  standard input, \<^verbatim>\<open>src/client/redirection.rs\<close>. The process's arguments and the link
  behind \<^verbatim>\<open>/proc/self/fd/0\<close> are inputs of the model.
\<close>

section \<open>Redirection\<close>

datatype 'p RedirectionSource = Pipe | File 'p

definition starts_with :: "rstr \<Rightarrow> rstr \<Rightarrow> bool" where [eval_defs]:
  "starts_with s p \<longleftrightarrow> take (length p) s = p"

text \<open>
  \<^verbatim>\<open>source\<close> on UNIX: \<open>link\<close> is the result of \<^verbatim>\<open>read_link\<close>, \<open>None\<close> for its error;
  \<open>lossy\<close> is \<^verbatim>\<open>Path::to_string_lossy\<close>.
\<close>

definition redirection_source ::
  "('p \<Rightarrow> rstr) \<Rightarrow> 'p option \<Rightarrow> 'p RedirectionSource option" where [eval_defs]:
  "redirection_source lossy link = (case link of
     Some link \<Rightarrow>
       (let slink = lossy link
        in if starts_with slink (lit ''/dev/pts'') then None
           else if starts_with slink (lit ''pipe:'') then Some Pipe
           else Some (File link))
   | None \<Rightarrow> None)"

section \<open>Arguments\<close>

datatype arg_unit = Strings "rstr list" | Files "rstr list"

datatype 'p args_source = Cli "arg_unit list" | RedirFile 'p | RedirPipe

datatype argument_error = NoCommand | NoInputs | Invalid rstr

datatype arg_action = ParseStrings | ParseFiles | Stop

record 'p arguments =
  arg_command :: rstr
  arg_source :: "'p args_source"

definition fmt_argument_error :: "argument_error \<Rightarrow> rstr" where [eval_defs]:
  "fmt_argument_error e = (case e of
     NoCommand \<Rightarrow> lit ''no command was given''
   | NoInputs \<Rightarrow> lit ''no inputs were supplied''
   | Invalid op \<Rightarrow> lit ''invalid argument operator: '' @ [39] @ op @ [39])"

definition make_unit :: "bool \<Rightarrow> rstr list \<Rightarrow> arg_unit" where [eval_defs]:
  "make_unit is_string args = (if is_string then Strings args else Files args)"

text \<open>
  \<^verbatim>\<open>parse\<close>: it moves arguments from the iterator into \<open>args\<close> up to the next operator,
  pushes the unit and tells what comes next.
\<close>

fun parse_args ::
  "bool \<Rightarrow> rstr list \<Rightarrow> arg_unit list \<Rightarrow> rstr list \<Rightarrow> arg_unit list \<times> rstr list \<times> arg_action" where
  "parse_args is_string args vec [] = (vec @ [make_unit is_string args], [], Stop)"
| "parse_args is_string args vec (arg # iter) =
     (if arg = lit '':'' then (vec @ [make_unit is_string args], iter, ParseStrings)
      else if arg = lit ''::'' then (vec @ [make_unit is_string args], iter, ParseFiles)
      else parse_args is_string (args @ [arg]) vec iter)"

lemma parse_args_shorter:
  "parse_args b args vec iter = (vec', iter', act) \<Longrightarrow> act \<noteq> Stop \<Longrightarrow> length iter' < length iter"
  by (induction b args vec iter rule: parse_args.induct) (auto split: if_splits)

text \<open>The \<^verbatim>\<open>loop\<close> over the actions.\<close>

function parse_loop :: "arg_action \<Rightarrow> arg_unit list \<Rightarrow> rstr list \<Rightarrow> arg_unit list" where
  "parse_loop action store iter =
     (if action = Stop then store
      else let (store, iter, action) = parse_args (action = ParseStrings) [] store iter
           in parse_loop action store iter)"
  by pat_completeness auto
termination
proof (relation "measure (\<lambda>(action, store, iter). if action = Stop then 0 else Suc (length iter))")
  fix action :: arg_action and store :: "arg_unit list" and iter :: "rstr list" and x y z a b
  assume "action \<noteq> Stop" "x = parse_args (action = ParseStrings) [] store iter"
    "(y, z) = x" "(a, b) = z"
  then have "parse_args (action = ParseStrings) [] store iter = (y, a, b)" by simp
  from parse_args_shorter [OF this] \<open>action \<noteq> Stop\<close>
  show "((b, y, a), action, store, iter) \<in>
      measure (\<lambda>(action, store, iter). if action = Stop then 0 else Suc (length iter))" by auto
qed simp

declare parse_loop.simps [simp del]

text \<open>\<^verbatim>\<open>Arguments::new\<close> on the arguments behind the program's name.\<close>

definition Arguments_new ::
  "'p RedirectionSource option \<Rightarrow> rstr list \<Rightarrow> argument_error + 'p arguments" where [eval_defs]:
  "Arguments_new redir args = (case args of
     [] \<Rightarrow> Inl NoCommand
   | cmd # args \<Rightarrow>
       (case redir of
          Some Pipe \<Rightarrow> Inr \<lparr>arg_command = cmd, arg_source = RedirPipe\<rparr>
        | Some (File path) \<Rightarrow> Inr \<lparr>arg_command = cmd, arg_source = RedirFile path\<rparr>
        | None \<Rightarrow>
            (case args of
               [] \<Rightarrow> Inl NoInputs
             | arg # args \<Rightarrow>
                 map_sum id (\<lambda>(store, args, action).
                     \<lparr>arg_command = cmd, arg_source = Cli (parse_loop action store args)\<rparr>)
                   (if arg = lit '':'' then Inr (parse_args True [] [] args)
                    else if arg = lit ''::'' then Inr (parse_args False [] [] args)
                    else Inl (Invalid arg)))))"

section \<open>What the parser accepts\<close>

text \<open>The words that a unit stands for on the command line.\<close>

fun unit_words :: "arg_unit \<Rightarrow> rstr list" where
  "unit_words (Strings xs) = lit '':'' # xs"
| "unit_words (Files xs) = lit ''::'' # xs"

fun unit_args :: "arg_unit \<Rightarrow> rstr list" where
  "unit_args (Strings xs) = xs"
| "unit_args (Files xs) = xs"

definition no_operator :: "rstr list \<Rightarrow> bool" where
  "no_operator xs \<longleftrightarrow> lit '':'' \<notin> set xs \<and> lit ''::'' \<notin> set xs"

definition operator_of :: "arg_action \<Rightarrow> rstr list" where
  "operator_of a = (case a of ParseStrings \<Rightarrow> [lit '':''] | ParseFiles \<Rightarrow> [lit ''::''] | Stop \<Rightarrow> [])"

lemma lit_colons [simp]: "lit '':'' \<noteq> lit ''::''" "lit ''::'' \<noteq> lit '':''"
  by (simp_all add: lit_def)

lemma unit_make [simp]:
  "unit_words (make_unit b args) = (if b then lit '':'' else lit ''::'') # args"
  "unit_args (make_unit b args) = args"
  by (simp_all add: make_unit_def)

lemma parse_args_words:
  assumes "parse_args b args vec iter = (vec', iter', act)" "no_operator args"
  shows "\<exists>u. vec' = vec @ [u] \<and> no_operator (unit_args u)
    \<and> unit_words u @ operator_of act @ iter' = (if b then lit '':'' else lit ''::'') # args @ iter
    \<and> (act = Stop \<longrightarrow> iter' = [])"
  using assms
  by (induction b args vec iter rule: parse_args.induct)
    (auto simp: operator_of_def no_operator_def split: if_splits)

lemma parse_loop_words:
  "(action = Stop \<longrightarrow> iter = []) \<Longrightarrow> \<exists>us. parse_loop action store iter = store @ us
     \<and> concat (map unit_words us) = operator_of action @ iter \<and> (\<forall>u \<in> set us. no_operator (unit_args u))"
proof (induction action store iter rule: parse_loop.induct)
  case (1 action store iter)
  show ?case
  proof (cases "action = Stop")
    case True
    with 1 show ?thesis by (simp add: parse_loop.simps operator_of_def)
  next
    case False
    obtain store' iter' act where p: "parse_args (action = ParseStrings) [] store iter = (store', iter', act)"
      by (metis prod_cases3)
    from parse_args_words [OF p] obtain u where u: "store' = store @ [u]" "no_operator (unit_args u)"
      "unit_words u @ operator_of act @ iter' = operator_of action @ iter" "act = Stop \<longrightarrow> iter' = []"
      using False by (cases action) (auto simp: no_operator_def operator_of_def)
    from "1.IH" [OF False p [symmetric] refl refl u(4)] obtain us where
      "parse_loop act store' iter' = store' @ us" "concat (map unit_words us) = operator_of act @ iter'"
      "\<forall>u \<in> set us. no_operator (unit_args u)" by blast
    with p u False show ?thesis
      by (intro exI [of _ "u # us"]) (simp add: parse_loop.simps [of action])
  qed
qed

text \<open>
  C30. With no redirection, a command and an operator, parsing succeeds and loses nothing:
  the units, each written as its operator followed by its arguments, are the command line
  behind the command, and no argument of a unit is an operator.
\<close>

theorem arguments_roundtrip:
  assumes "op = lit '':'' \<or> op = lit ''::''"
  shows "\<exists>us. Arguments_new None (cmd # op # args)
      = Inr \<lparr>arg_command = cmd, arg_source = Cli us\<rparr>
    \<and> concat (map unit_words us) = op # args
    \<and> (\<forall>u \<in> set us. lit '':'' \<notin> set (unit_args u) \<and> lit ''::'' \<notin> set (unit_args u))"
proof -
  define b where "b = (op = lit '':'')"
  have op: "op = (if b then lit '':'' else lit ''::'')" using assms by (cases "op = lit '':''") (simp_all add: b_def)
  obtain vec iter act where p: "parse_args b [] [] args = (vec, iter, act)"
    by (metis prod_cases3)
  from parse_args_words [OF p] obtain u where u: "vec = [u]" "no_operator (unit_args u)"
    "unit_words u @ operator_of act @ iter = op # args"
    "act = Stop \<longrightarrow> iter = []" unfolding op by (force simp: no_operator_def)
  from parse_loop_words [OF u(4), of vec] obtain us where us:
    "parse_loop act vec iter = vec @ us" "concat (map unit_words us) = operator_of act @ iter"
    "\<forall>u \<in> set us. no_operator (unit_args u)" by blast
  have "Arguments_new None (cmd # op # args) = Inr \<lparr>arg_command = cmd, arg_source = Cli (u # us)\<rparr>"
    using p us(1) u(1) unfolding op by (cases b) (simp_all add: Arguments_new_def)
  moreover have "concat (map unit_words (u # us)) = op # args" using u(3) us(2) by simp
  moreover have "\<forall>u \<in> set (u # us). lit '':'' \<notin> set (unit_args u) \<and> lit ''::'' \<notin> set (unit_args u)"
    using u(2) us(3) by (simp add: no_operator_def)
  ultimately show ?thesis by blast
qed

theorem arguments_roundtrip_witness:
  "\<exists>us. Arguments_new (None :: rstr RedirectionSource option) [lit ''echo'', lit '':'', lit ''a'', lit ''::'', lit ''b'']
      = Inr \<lparr>arg_command = lit ''echo'', arg_source = Cli us\<rparr>
    \<and> concat (map unit_words us) = [lit '':'', lit ''a'', lit ''::'', lit ''b'']"
  using arguments_roundtrip [of "lit '':''" "lit ''echo''" "[lit ''a'', lit ''::'', lit ''b'']"] by auto

text \<open>
  The other command lines: without a command there is no result, a redirected standard
  input is used whatever the arguments say, and otherwise inputs must be given and must
  begin with an operator.
\<close>

lemma arguments_errors:
  "Arguments_new redir [] = Inl NoCommand
   \<and> Arguments_new (Some Pipe) (cmd # args) = Inr \<lparr>arg_command = cmd, arg_source = RedirPipe\<rparr>
   \<and> Arguments_new (Some (File path)) (cmd # args) = Inr \<lparr>arg_command = cmd, arg_source = RedirFile path\<rparr>
   \<and> Arguments_new None [cmd] = Inl NoInputs
   \<and> (op \<noteq> lit '':'' \<and> op \<noteq> lit ''::'' \<longrightarrow> Arguments_new None (cmd # op # args) = Inl (Invalid op))"
  by (simp add: Arguments_new_def)

lemma arguments_errors_witness:
  "Arguments_new (None :: rstr RedirectionSource option) [lit ''echo'', lit ''x''] = Inl (Invalid (lit ''x''))"
proof -
  have "lit ''x'' \<noteq> lit '':'' \<and> lit ''x'' \<noteq> lit ''::''" by (simp add: lit_def)
  with arguments_errors [where op = "lit ''x''" and cmd = "lit ''echo''" and args = "[]"
      and redir = None and path = "[] :: rstr"]
  show ?thesis by blast
qed

end
