(* ===== verification/Configure.thy ===== *)
theory Configure
  imports Rust_Std
begin

unbundle bit_operations_syntax

text \<open>
  The client's configuration, \<^verbatim>\<open>src/client/configure.rs\<close>: from the TOML text to the list
  of nodes and the flag bits, and the file that holds the text. The crates \<^verbatim>\<open>toml\<close> and
  \<^verbatim>\<open>app_dirs\<close> are arguments, as is \<^verbatim>\<open>SocketAddr::from_str\<close>, whose addresses the client
  only passes on.
\<close>

section \<open>The decoded configuration\<close>

record node =
  node_address :: rstr
  node_domain :: rstr

record RawConfig =
  raw_nodes :: "node list"
  localhost :: "bool option"
  raw_outputs :: "bool option"
  verbose :: "bool option"

record 'a Config =
  config_nodes :: "('a \<times> rstr) list"
  config_flags :: u8

definition OUTPUTS :: u8 where [eval_defs]: "OUTPUTS = 1"
definition VERBOSE :: u8 where [eval_defs]: "VERBOSE = 2"
definition LOCHOST :: u8 where [eval_defs]: "LOCHOST = 4"

definition unwrap_or :: "'a option \<Rightarrow> 'a \<Rightarrow> 'a" where [eval_defs]:
  "unwrap_or m d = (case m of Some x \<Rightarrow> x | None \<Rightarrow> d)"

text \<open>The loop over the nodes of \<^verbatim>\<open>get_config\<close>, with its \<^verbatim>\<open>?\<close>.\<close>

fun parse_nodes :: "(rstr \<Rightarrow> 'e + 'a) \<Rightarrow> node list \<Rightarrow> ('a \<times> rstr) list \<Rightarrow> 'e + ('a \<times> rstr) list" where
  "parse_nodes from_str [] nodes = Inr nodes"
| "parse_nodes from_str (nd # nds) nodes =
     and_then (from_str (node_address nd))
       (\<lambda>addr. parse_nodes from_str nds (nodes @ [(addr, node_domain nd)]))"

definition get_config :: "(rstr \<Rightarrow> 'e + 'a) \<Rightarrow> RawConfig \<Rightarrow> 'e + 'a Config" where [eval_defs]:
  "get_config from_str self =
     and_then (parse_nodes from_str (raw_nodes self) [])
       (\<lambda>nodes.
          let flags = (if unwrap_or (raw_outputs self) False then OUTPUTS else 0);
              flags = flags OR (if unwrap_or (verbose self) False then VERBOSE else 0);
              flags = flags OR (if unwrap_or (localhost self) True then LOCHOST else 0)
          in Inr \<lparr>config_nodes = nodes, config_flags = flags\<rparr>)"

section \<open>The file\<close>

text \<open>
  The configuration file: \<open>None\<close> when it does not exist, its bytes otherwise. The record
  says how the operating system answers the calls of \<^verbatim>\<open>read_file\<close>: opening and reading the
  file, creating it, and writing it, where a failing \<^verbatim>\<open>write_all\<close> leaves the first \<open>n\<close>
  bytes behind.
\<close>

record file_answers =
  fa_open :: "unit io_result"
  fa_read :: "unit io_result"
  fa_create :: "unit io_result"
  fa_write :: "(io_error \<times> nat) + unit"

definition DEFAULT_CONFIG :: rstr where [eval_defs]:
  "DEFAULT_CONFIG = concat (map (\<lambda>line. lit line @ [c_nl])
     ['''',
      ''# A list of nodes that the client will connect to.'',
      ''#'',
      ''# Each element is anonymous structure that contains two fields: address, and'',
      ''# domain. The address defines the location of the node from your client's'',
      ''# point of view, whereas the domain defines the name written in the server's'',
      ''# SSL certificate -- for security purposes.'',
      ''nodes = ['',
      ''    # { address = '' @ [CHR 0x22] @ ''192.168.1.2:31514'' @ [CHR 0x22] @ '', domain = ''
        @ [CHR 0x22] @ ''node1'' @ [CHR 0x22] @ '' },'',
      ''    # { address = '' @ [CHR 0x22] @ ''192.168.1.3:31514'' @ [CHR 0x22] @ '', domain = ''
        @ [CHR 0x22] @ ''node2'' @ [CHR 0x22] @ '' },'',
      '']'',
      '''',
      ''# Wher the client should be used as a node in itself'',
      ''localhost = true'',
      ''# Whether the client should request the standard out / error of tasks.'',
      ''outputs = true'',
      ''# Whether additional information about jobs should be printed.'',
      ''verbose = false''])"

text \<open>\<^verbatim>\<open>read_file\<close>: the result, the buffer and the file afterwards.\<close>

definition read_file ::
  "file_answers \<Rightarrow> byte list option \<Rightarrow> rstr \<Rightarrow> unit io_result \<times> rstr \<times> byte list option" where
  [eval_defs]: "read_file os file buffer = (case file of
     Some content \<Rightarrow>
       (case and_then (fa_open os) (\<lambda>_. and_then (fa_read os)
               (\<lambda>_. ok_or InvalidData (from_utf8 content))) of
          Inl e \<Rightarrow> (Inl e, buffer, file)
        | Inr s \<Rightarrow> (Inr (), buffer @ s, file))
   | None \<Rightarrow>
       (let buffer = buffer @ DEFAULT_CONFIG
        in case fa_create os of
             Inl e \<Rightarrow> (Inl e, buffer, None)
           | Inr _ \<Rightarrow>
               (case fa_write os of
                  Inl (e, n) \<Rightarrow> (Inl e, buffer, Some (take n (as_bytes DEFAULT_CONFIG)))
                | Inr _ \<Rightarrow> (Inr (), buffer, Some (as_bytes DEFAULT_CONFIG)))))"

datatype ('d, 'c, 'e) ConfigError = AppDir 'd | Decode 'c | Address 'e | FileError io_error

text \<open>\<^verbatim>\<open>Display for ConfigError\<close>, on the texts of the errors that it wraps.\<close>

definition fmt_config_error ::
  "('d \<Rightarrow> rstr) \<Rightarrow> ('c \<Rightarrow> rstr) \<Rightarrow> ('e \<Rightarrow> rstr) \<Rightarrow> (io_error \<Rightarrow> rstr) \<Rightarrow> ('d, 'c, 'e) ConfigError \<Rightarrow> rstr"
where [eval_defs]: "fmt_config_error show_dir show_toml show_addr show_io self = (case self of
     AppDir err \<Rightarrow> lit ''XDG app dirs error: '' @ show_dir err
   | Decode err \<Rightarrow> lit ''TOML config decoding error: '' @ show_toml err
   | Address err \<Rightarrow> lit ''invalid address in config: '' @ show_addr err
   | FileError err \<Rightarrow> lit ''config I/O error: '' @ show_io err)"

text \<open>The conversions of the question mark operator, \<^verbatim>\<open>From\<close> for each of the four errors.\<close>

definition config_from_decode :: "'c \<Rightarrow> ('d, 'c, 'e) ConfigError" where [eval_defs]:
  "config_from_decode err = Decode err"

definition config_from_io :: "io_error \<Rightarrow> ('d, 'c, 'e) ConfigError" where [eval_defs]:
  "config_from_io err = FileError err"

definition config_from_address :: "'e \<Rightarrow> ('d, 'c, 'e) ConfigError" where [eval_defs]:
  "config_from_address err = Address err"

definition config_from_app_dir :: "'d \<Rightarrow> ('d, 'c, 'e) ConfigError" where [eval_defs]:
  "config_from_app_dir err = AppDir err"

lemmas config_from [simp] = config_from_decode_def config_from_io_def config_from_address_def
  config_from_app_dir_def

text \<open>
  \<^verbatim>\<open>Config::get\<close>: \<open>dir\<close> is the result of \<^verbatim>\<open>get_app_dir\<close>, \<open>toml\<close> is \<^verbatim>\<open>toml::from_str\<close>.
\<close>

definition Config_get ::
  "'d + 'p \<Rightarrow> file_answers \<Rightarrow> (rstr \<Rightarrow> 'c + RawConfig) \<Rightarrow> (rstr \<Rightarrow> 'e + 'a)
   \<Rightarrow> byte list option \<Rightarrow> (('d, 'c, 'e) ConfigError + 'a Config) \<times> byte list option" where
  [eval_defs]: "Config_get dir os toml from_str file = (case dir of
     Inl e \<Rightarrow> (Inl (config_from_app_dir e), file)
   | Inr path \<Rightarrow>
       (let (result, raw, file) = read_file os file []
        in (and_then (map_err config_from_io result)
              (\<lambda>_. and_then (map_err config_from_decode (toml raw))
                 (\<lambda>c. map_err config_from_address (get_config from_str c))), file)))"

section \<open>What it computes\<close>

lemma Inr_Cons_map:
  "(\<exists>as. Inr a # xs = map Inr as \<and> P as) \<longleftrightarrow> (\<exists>as. xs = map Inr as \<and> P (a # as))"
  by (auto simp: Cons_eq_map_conv)

lemma parse_nodes_Inr:
  "parse_nodes from_str nds nodes = Inr r \<longleftrightarrow>
     (\<exists>addrs. map (\<lambda>nd. from_str (node_address nd)) nds = map Inr addrs
        \<and> r = nodes @ zip addrs (map node_domain nds))"
proof (induction nds arbitrary: nodes)
  case Nil
  then show ?case by auto
next
  case (Cons nd nds)
  show ?case
  proof (cases "from_str (node_address nd)")
    case (Inl e)
    then show ?thesis by (simp add: Cons_eq_map_conv)
  next
    case (Inr a)
    with Cons [of "nodes @ [(a, node_domain nd)]"] show ?thesis
      by (simp add: Inr_Cons_map)
  qed
qed

lemma parse_nodes_Inl:
  "parse_nodes from_str nds nodes = Inl e \<longleftrightarrow>
     (\<exists>pre nd post. nds = pre @ nd # post \<and> from_str (node_address nd) = Inl e
        \<and> list_all (\<lambda>nd. \<exists>a. from_str (node_address nd) = Inr a) pre)"
proof (induction nds arbitrary: nodes)
  case Nil
  then show ?case by simp
next
  case (Cons nd nds)
  then show ?case
    unfolding ex_split_Cons by (cases "from_str (node_address nd)") simp_all
qed

lemma word8_cases: "w < 8 \<Longrightarrow> w \<in> {0, 1, 2, 3, 4, 5, 6, 7}" for w :: u8
proof -
  assume "w < 8"
  then have "unat w < 8" by (simp add: word_less_nat_alt)
  then have "unat w \<in> {0, 1, 2, 3, 4, 5, 6, 7}" by auto
  then have "of_nat (unat w) \<in> (of_nat ` {0, 1, 2, 3, 4, 5, 6, 7} :: u8 set)" by blast
  then show ?thesis by simp
qed

text \<open>A flag byte is determined by its three bits, and every choice of them occurs.\<close>

lemma flags_iff:
  "f = (if a then OUTPUTS else 0) OR (if b then VERBOSE else 0) OR (if c then LOCHOST else 0)
   \<longleftrightarrow> (f AND OUTPUTS \<noteq> 0 \<longleftrightarrow> a) \<and> (f AND VERBOSE \<noteq> 0 \<longleftrightarrow> b) \<and> (f AND LOCHOST \<noteq> 0 \<longleftrightarrow> c) \<and> f < 8"
    (is "?l \<longleftrightarrow> ?r")
proof
  assume ?l
  then show ?r
    by (cases a; cases b; cases c) (simp_all add: OUTPUTS_def VERBOSE_def LOCHOST_def)
next
  assume r: ?r
  then have "f \<in> {0, 1, 2, 3, 4, 5, 6, 7}" by (intro word8_cases) simp
  with r show ?l
    by (cases a; cases b; cases c) (auto simp: OUTPUTS_def VERBOSE_def LOCHOST_def)
qed

text \<open>
  C31. The flag bits are independent: each of the three options sets its own bit and no
  other, with the defaults off, off and on, and the nodes are the configured ones, in
  order, each with its parsed address; the configuration is refused exactly when some
  address does not parse, with the error of the first such address.
\<close>

theorem get_config_spec:
  "(get_config from_str raw = Inr c \<longleftrightarrow>
      (\<exists>addrs. map (\<lambda>nd. from_str (node_address nd)) (raw_nodes raw) = map Inr addrs
         \<and> config_nodes c = zip addrs (map node_domain (raw_nodes raw)))
      \<and> (config_flags c AND OUTPUTS \<noteq> 0 \<longleftrightarrow> raw_outputs raw = Some True)
      \<and> (config_flags c AND VERBOSE \<noteq> 0 \<longleftrightarrow> verbose raw = Some True)
      \<and> (config_flags c AND LOCHOST \<noteq> 0 \<longleftrightarrow> localhost raw \<noteq> Some False)
      \<and> config_flags c < 8)
   \<and> (get_config from_str raw = Inl e \<longleftrightarrow>
      (\<exists>pre nd post. raw_nodes raw = pre @ nd # post \<and> from_str (node_address nd) = Inl e
         \<and> list_all (\<lambda>nd. \<exists>a. from_str (node_address nd) = Inr a) pre))"
proof
  have def: "unwrap_or m False \<longleftrightarrow> m = Some True" "unwrap_or m True \<longleftrightarrow> m \<noteq> Some False" for m
    by (auto simp: unwrap_or_def split: option.splits)
  let ?f = "(if raw_outputs raw = Some True then OUTPUTS else 0)
    OR (if verbose raw = Some True then VERBOSE else 0)
    OR (if localhost raw \<noteq> Some False then LOCHOST else 0)"
  have "get_config from_str raw = Inr c \<longleftrightarrow>
      (\<exists>nodes. parse_nodes from_str (raw_nodes raw) [] = Inr nodes \<and> config_nodes c = nodes
        \<and> config_flags c = ?f)"
    by (cases c) (auto simp: get_config_def def Let_def or.assoc)
  then show "get_config from_str raw = Inr c \<longleftrightarrow>
      (\<exists>addrs. map (\<lambda>nd. from_str (node_address nd)) (raw_nodes raw) = map Inr addrs
         \<and> config_nodes c = zip addrs (map node_domain (raw_nodes raw)))
      \<and> (config_flags c AND OUTPUTS \<noteq> 0 \<longleftrightarrow> raw_outputs raw = Some True)
      \<and> (config_flags c AND VERBOSE \<noteq> 0 \<longleftrightarrow> verbose raw = Some True)
      \<and> (config_flags c AND LOCHOST \<noteq> 0 \<longleftrightarrow> localhost raw \<noteq> Some False)
      \<and> config_flags c < 8"
    unfolding flags_iff parse_nodes_Inr by auto
  show "get_config from_str raw = Inl e \<longleftrightarrow>
      (\<exists>pre nd post. raw_nodes raw = pre @ nd # post \<and> from_str (node_address nd) = Inl e
         \<and> list_all (\<lambda>nd. \<exists>a. from_str (node_address nd) = Inr a) pre)"
    by (simp add: get_config_def and_then_Inl parse_nodes_Inl Let_def)
qed

text \<open>
  The first start agrees with the second: when there is no file and the default one can
  be created and written, the configuration that the client uses is the one it reads back
  from that file at its next start, which leaves the file as it is.
\<close>

theorem first_start_as_second:
  assumes "fa_create os = Inr ()" "fa_write os = Inr ()" "fa_open os = Inr ()" "fa_read os = Inr ()"
    and "Config_get (Inr path) os toml from_str None = (cfg, file)"
  shows "file = Some (as_bytes DEFAULT_CONFIG)
    \<and> Config_get (Inr path) os toml from_str file = (cfg, file)"
proof -
  have "valid_str DEFAULT_CONFIG"
    by (simp add: DEFAULT_CONFIG_def scalar_def)
  with assms show ?thesis by (auto simp: Config_get_def read_file_def Let_def)
qed

definition demo_answers :: file_answers where
  "demo_answers = \<lparr>fa_open = Inr (), fa_read = Inr (), fa_create = Inr (), fa_write = Inr ()\<rparr>"

theorem first_start_as_second_witness:
  "Config_get (Inr () :: nat + unit) demo_answers
     (\<lambda>text. if text = [] then Inl () else
        Inr \<lparr>raw_nodes = [], localhost = Some True, raw_outputs = Some True, verbose = Some False\<rparr>)
     (\<lambda>_. Inl () :: unit + nat) (Some (as_bytes DEFAULT_CONFIG))
   = (Inr \<lparr>config_nodes = [], config_flags = 5\<rparr>, Some (as_bytes DEFAULT_CONFIG))"
proof -
  have "DEFAULT_CONFIG \<noteq> []" by (simp add: DEFAULT_CONFIG_def)
  then have "Config_get (Inr () :: nat + unit) demo_answers
     (\<lambda>text. if text = [] then Inl () else
        Inr \<lparr>raw_nodes = [], localhost = Some True, raw_outputs = Some True, verbose = Some False\<rparr>)
     (\<lambda>_. Inl () :: unit + nat) None
   = (Inr \<lparr>config_nodes = [], config_flags = 5\<rparr>, Some (as_bytes DEFAULT_CONFIG))"
    by (simp add: Config_get_def read_file_def demo_answers_def Let_def get_config_def
        unwrap_or_def OUTPUTS_def VERBOSE_def LOCHOST_def)
  from first_start_as_second [OF _ _ _ _ this] show ?thesis
    by (simp add: demo_answers_def)
qed

end
