(* ===== verification/Streams.thy ===== *)
theory Streams
  imports Rust_Std
begin

text \<open>
  Byte streams as the client uses them: \<^verbatim>\<open>Write::write_all\<close>, \<^verbatim>\<open>BufReader\<close> and
  \<^verbatim>\<open>BufRead::read_line\<close> of the standard library over a connection. The peer and the
  network are the answers that a stream holds: what each coming \<^verbatim>\<open>read\<close> returns and how
  each coming \<^verbatim>\<open>write_all\<close> ends.
\<close>

section \<open>Streams\<close>

text \<open>
  \<open>incoming\<close>: one entry per \<^verbatim>\<open>read\<close>, an error or a chunk of bytes; an empty chunk, and
  the end of the list, is the end of the stream. \<open>write_answers\<close>: \<open>Inl (e, n)\<close> is a
  \<^verbatim>\<open>write_all\<close> that fails with \<open>e\<close> after \<open>n\<close> bytes; when the list is used up, writing
  succeeds. \<open>sent\<close> is everything written so far.
\<close>

type_synonym read_answers = "(io_error + byte list) list"

record stream =
  incoming :: read_answers
  write_answers :: "((io_error \<times> nat) + unit) list"
  sent :: "byte list"

definition write_all :: "stream \<Rightarrow> byte list \<Rightarrow> unit io_result \<times> stream" where [eval_defs]:
  "write_all s bs = (case write_answers s of
     Inl (e, n) # ans \<Rightarrow> (Inl e, s\<lparr>write_answers := ans, sent := sent s @ take n bs\<rparr>)
   | _ \<Rightarrow> (Inr (), s\<lparr>write_answers := tl (write_answers s), sent := sent s @ bs\<rparr>))"

section \<open>Buffered reading\<close>

text \<open>
  A \<^verbatim>\<open>BufReader\<close> is the bytes it has read ahead. \<open>read_until_nl\<close> is \<^verbatim>\<open>read_until(b'\n')\<close>:
  the result, the bytes appended, the bytes still buffered and the answers left.
\<close>

function read_until_nl ::
  "byte list \<Rightarrow> read_answers \<Rightarrow> unit io_result \<times> byte list \<times> byte list \<times> read_answers" where
  "read_until_nl buf ans =
     (case position (\<lambda>b. b = byte_of c_nl) buf of
        Some i \<Rightarrow> (Inr (), take (i + 1) buf, drop (i + 1) buf, ans)
      | None \<Rightarrow>
          (case ans of
             [] \<Rightarrow> (Inr (), buf, [], [])
           | Inl e # ans \<Rightarrow> (Inl e, buf, [], ans)
           | Inr chunk # ans \<Rightarrow>
               if chunk = [] then (Inr (), buf, [], ans)
               else let (r, line, rest, ans) = read_until_nl chunk ans
                    in (r, buf @ line, rest, ans)))"
  by pat_completeness auto
termination
  by (relation "measure (\<lambda>(buf, ans). length ans)") auto

declare read_until_nl.simps [simp del]

text \<open>
  \<^verbatim>\<open>read_line\<close> appends a line to a \<^verbatim>\<open>String\<close>: bytes that are not UTF-8 are an error and
  leave the string as it was.
\<close>

definition read_line ::
  "rstr \<Rightarrow> byte list \<times> read_answers \<Rightarrow> unit io_result \<times> rstr \<times> byte list \<times> read_answers" where
  [eval_defs]: "read_line string reader =
     (let (r, line, rest, ans) = read_until_nl (fst reader) (snd reader)
      in case from_utf8 line of
           Some t \<Rightarrow> (r, string @ t, rest, ans)
         | None \<Rightarrow> (and_then r (\<lambda>_. Inl InvalidData), string, rest, ans))"

text \<open>\<open>arrives bs cs\<close>: the bytes \<open>bs\<close> come in the chunks \<open>cs\<close>, however they are cut.\<close>

definition arrives :: "byte list \<Rightarrow> byte list list \<Rightarrow> bool" where
  "arrives bs cs \<longleftrightarrow> concat cs = bs \<and> [] \<notin> set cs"

lemma arrives_Nil [simp]: "arrives [] cs \<longleftrightarrow> cs = []"
  by (cases cs) (auto simp: arrives_def)

lemma arrives_one: "bs \<noteq> [] \<Longrightarrow> arrives bs [bs]"
  by (simp add: arrives_def)

lemma read_until_nl_hit:
  "byte_of c_nl \<notin> set line \<Longrightarrow> read_until_nl (line @ byte_of c_nl # rest) ans
     = (Inr (), line @ [byte_of c_nl], rest, ans)"
  by (simp add: read_until_nl.simps [of "line @ byte_of c_nl # rest"] position_first)

text \<open>Whatever the chunks, a reader delivers the bytes up to and with the first newline.\<close>

lemma read_until_nl_line:
  assumes "buf @ concat cs = line @ byte_of c_nl # rest" "byte_of c_nl \<notin> set line" "[] \<notin> set cs"
  shows "\<exists>rest' cs'. read_until_nl buf (map Inr cs @ later)
      = (Inr (), line @ [byte_of c_nl], rest', map Inr cs' @ later)
    \<and> rest' @ concat cs' = rest \<and> [] \<notin> set cs'"
  using assms
proof (induction cs arbitrary: buf line)
  case Nil
  then have "buf = line @ byte_of c_nl # rest" by simp
  with Nil show ?case
    by (intro exI [of _ rest] exI [of _ "[]"])
      (simp add: read_until_nl_hit)
next
  case (Cons c cs)
  show ?case
  proof (cases "byte_of c_nl \<in> set buf")
    case True
    then obtain l r where b: "buf = l @ byte_of c_nl # r" "byte_of c_nl \<notin> set l"
      by (meson split_list_first)
    with Cons.prems(1) have "l @ byte_of c_nl # (r @ concat (c # cs)) = line @ byte_of c_nl # rest"
      by simp
    with b(2) Cons.prems(2) have "l = line \<and> r @ concat (c # cs) = rest"
      by (auto simp: append_eq_append_conv2 append_eq_Cons_conv Cons_eq_append_conv)
    with b Cons.prems(3) show ?thesis
      by (intro exI [of _ r] exI [of _ "c # cs"])
        (auto simp: read_until_nl_hit)
  next
    case False
    then have pos: "position (\<lambda>b. b = byte_of c_nl) buf = None" by (simp add: position_eq_None)
    from Cons.prems(1) have "\<exists>us. line = buf @ us \<and> concat (c # cs) = us @ byte_of c_nl # rest"
      unfolding append_eq_append_conv2 using False
      by (elim exE disjE conjE) (auto simp: append_eq_Cons_conv Cons_eq_append_conv)
    then obtain line' where l: "line = buf @ line'"
      "concat (c # cs) = line' @ byte_of c_nl # rest" by blast
    with Cons.prems(2,3) Cons.IH [of c line'] obtain rest' cs' where
      "read_until_nl c (map Inr cs @ later) = (Inr (), line' @ [byte_of c_nl], rest', map Inr cs' @ later)"
      "rest' @ concat cs' = rest" "[] \<notin> set cs'" by auto
    with pos l Cons.prems(3) show ?thesis
      by (intro exI [of _ rest'] exI [of _ cs']) (auto simp: read_until_nl.simps [of buf])
  qed
qed

lemma nl_as_byte [simp]: "as_bytes [c_nl] = [byte_of c_nl]"
  by (simp add: encode_char_ascii)

text \<open>The same for \<open>read_line\<close>, on the bytes of a line of text.\<close>

lemma read_line_text:
  assumes "buf @ concat cs = as_bytes line @ byte_of c_nl # rest" "[] \<notin> set cs"
    and "valid_str line" "c_nl \<notin> set line"
  shows "\<exists>rest' cs'. read_line string (buf, map Inr cs @ later)
      = (Inr (), string @ line @ [c_nl], rest', map Inr cs' @ later)
    \<and> rest' @ concat cs' = rest \<and> [] \<notin> set cs'"
proof -
  from assms(3,4) have "byte_of c_nl \<notin> set (as_bytes line)" by (simp add: ascii_in_as_bytes)
  from read_until_nl_line [OF assms(1) this assms(2), of later] obtain rest' cs' where
    r: "read_until_nl buf (map Inr cs @ later)
      = (Inr (), as_bytes line @ [byte_of c_nl], rest', map Inr cs' @ later)"
    "rest' @ concat cs' = rest" "[] \<notin> set cs'" by blast
  have "from_utf8 (as_bytes (line @ [c_nl])) = Some (line @ [c_nl])"
    using assms(3) by (intro from_utf8_as_bytes) (simp add: scalar_def)
  then have "from_utf8 (as_bytes line @ [byte_of c_nl]) = Some (line @ [c_nl])"
    by (simp add: encode_char_ascii)
  with r show ?thesis by (auto simp: read_line_def)
qed

end
