(* ===== verification/Connection.thy ===== *)
theory Connection
  imports Streams
begin

text \<open>
  The client's side of a connection, \<^verbatim>\<open>src/client/connection.rs\<close>, the list of the
  connected nodes, \<^verbatim>\<open>src/client/nodes.rs\<close>, and the certificate of a node,
  \<^verbatim>\<open>src/client/certificate.rs\<close>. Sockets, TLS and the certificate parser are not part of
  the repository: their answers are inputs of the model. The waiting between two attempts
  has no effect on the state and is left out.
\<close>

section \<open>How a function of the client can end\<close>

text \<open>
  \<open>Exit n message\<close> is \<^verbatim>\<open>process::exit(n)\<close> after the message was written to standard error:
  no destructor runs. A panic unwinds and runs them.
\<close>

datatype 'a run = Done 'a | Panic | Exit nat rstr

lemma run_sum_cases [case_names Left Right Panic Exit]:
  obtains e where "r = Done (Inl e)" | x where "r = Done (Inr x)" | "r = Panic"
    | n why where "r = Exit n why"
  by (cases r) (metis sum.exhaust)

definition critical :: "rstr \<Rightarrow> rstr" where [eval_defs]:
  "critical why = lit ''concurr [CRITICAL]: '' @ why @ [c_nl]"

section \<open>Connecting\<close>

text \<open>
  The loops of \<^verbatim>\<open>attempt_connection\<close>: \<open>tcp i\<close> is what the \<open>i\<close>-th \<^verbatim>\<open>TcpStream::connect\<close>
  of the call returns, \<open>tls j\<close> what the \<open>j\<close>-th handshake returns. The result holds the
  numbers of connects and handshakes made. An endless loop is \<open>None\<close>.
\<close>

partial_function (option) attempt_connection_loop ::
  "(nat \<Rightarrow> io_error + unit) \<Rightarrow> (nat \<Rightarrow> 'h + 's) \<Rightarrow> nat \<Rightarrow> nat \<Rightarrow> nat \<Rightarrow> nat
   \<Rightarrow> ((io_error + 's) \<times> nat \<times> nat) option" where
  "attempt_connection_loop tcp tls ctries etries i j = (case tcp i of
     Inl why \<Rightarrow>
       if ctries = 3 then Some (Inl (Other ''unable to connect''), i + 1, j)
       else attempt_connection_loop tcp tls (ctries + 1) etries (i + 1) j
   | Inr conn \<Rightarrow>
       (case tls j of
          Inr conn \<Rightarrow> Some (Inr conn, i + 1, j + 1)
        | Inl why \<Rightarrow>
            if etries = 3 then Some (Inl (Other ''TLS connection failed''), i + 1, j + 1)
            else attempt_connection_loop tcp tls ctries (etries + 1) (i + 1) (j + 1)))"

text \<open>
  What \<^verbatim>\<open>attempt_connection\<close> uses of the crate \<^verbatim>\<open>native_tls\<close>: a builder, its root
  certificates and the connector built from it. Each call can fail, and the function
  unwraps all three: it panics before it connects.
\<close>

record ('c, 'b, 'k) tls_api =
  tls_builder :: "string + 'b"
  add_root_certificate :: "'b \<Rightarrow> 'c \<Rightarrow> string + 'b"
  tls_build :: "'b \<Rightarrow> string + 'k"

definition attempt_connection ::
  "('c, 'b, 'k) tls_api \<Rightarrow> (nat \<Rightarrow> io_error + unit) \<Rightarrow> ('k \<Rightarrow> nat \<Rightarrow> 'h + 's) \<Rightarrow> 'c
   \<Rightarrow> ((io_error + 's) \<times> nat \<times> nat) run option" where
  "attempt_connection api tcp tls certificate = (case tls_builder api of
     Inl why \<Rightarrow> Some Panic
   | Inr builder \<Rightarrow>
       (case add_root_certificate api builder certificate of
          Inl why \<Rightarrow> Some Panic
        | Inr builder \<Rightarrow>
            (case tls_build api builder of
               Inl why \<Rightarrow> Some Panic
             | Inr connector \<Rightarrow>
                 map_option Done (attempt_connection_loop tcp (tls connector) 0 0 0 0))))"

text \<open>How many of the first \<open>n\<close> calls fail.\<close>

definition failures :: "(nat \<Rightarrow> 'e + 'a) \<Rightarrow> nat \<Rightarrow> nat" where
  "failures f n = length (filter (\<lambda>k. isl (f k)) [0..<n])"

lemma failures_simps [simp]:
  "failures f 0 = 0"
  "failures f (Suc n) = failures f n + (if isl (f n) then 1 else 0)"
  by (simp_all add: failures_def)

lemma attempt_connection_loop_returns:
  assumes "ctries \<le> 3" "etries \<le> 3" "failures tcp i = ctries" "failures tls j = etries"
    "i = ctries + etries" "j = etries"
  shows "\<exists>r i' j'. attempt_connection_loop tcp tls ctries etries i j = Some (r, i', j')
    \<and> i' \<le> 7 \<and> j' \<le> 4 \<and> failures tcp i' \<le> 4 \<and> i' = failures tcp i' + j'
    \<and> (case r of
         Inr s \<Rightarrow> 0 < j' \<and> tls (j' - 1) = Inr s \<and> failures tcp i' < 4 \<and> failures tls j' = j' - 1
       | Inl e \<Rightarrow> failures tls j' = j'
           \<and> (e = Other ''unable to connect'' \<and> failures tcp i' = 4 \<and> j' < 4
              \<or> e = Other ''TLS connection failed'' \<and> j' = 4 \<and> failures tcp i' < 4))"
  using assms
proof (induction "(3 - ctries) + (3 - etries)" arbitrary: ctries etries i j rule: less_induct)
  case less
  note unfold = attempt_connection_loop.simps [of tcp tls ctries etries i j]
  show ?case
  proof (cases "tcp i")
    case (Inl why)
    show ?thesis
    proof (cases "ctries = 3")
      case True
      have "failures tcp (i + 1) = 4" using less.prems(3) True Inl by simp
      moreover have "attempt_connection_loop tcp tls ctries etries i j
          = Some (Inl (Other ''unable to connect''), i + 1, j)" using True Inl unfold by simp
      ultimately show ?thesis using less.prems True
        by (intro exI [of _ "Inl (Other ''unable to connect'')"] exI [of _ "i + 1"] exI [of _ j]) simp
    next
      case False
      have "attempt_connection_loop tcp tls ctries etries i j
          = attempt_connection_loop tcp tls (ctries + 1) etries (i + 1) j"
        using False Inl unfold by simp
      with less.hyps [of "ctries + 1" etries "i + 1" j] less.prems False Inl show ?thesis by simp
    qed
  next
    case (Inr u)
    show ?thesis
    proof (cases "tls j")
      case (Inr s)
      with less.prems \<open>tcp i = Inr u\<close> unfold show ?thesis by auto
    next
      case (Inl why)
      show ?thesis
      proof (cases "etries = 3")
        case True
        have "failures tcp (i + 1) = ctries" "failures tls (j + 1) = 4"
          using less.prems(3,4) True Inl \<open>tcp i = Inr u\<close> by simp_all
        moreover have "attempt_connection_loop tcp tls ctries etries i j
            = Some (Inl (Other ''TLS connection failed''), i + 1, j + 1)"
          using True Inl \<open>tcp i = Inr u\<close> unfold by simp
        ultimately show ?thesis using less.prems True
          by (intro exI [of _ "Inl (Other ''TLS connection failed'')"] exI [of _ "i + 1"]
              exI [of _ "j + 1"]) simp
      next
        case False
        have "attempt_connection_loop tcp tls ctries etries i j
            = attempt_connection_loop tcp tls ctries (etries + 1) (i + 1) (j + 1)"
          using False \<open>tcp i = Inr u\<close> Inl unfold by simp
        with less.hyps [of ctries "etries + 1" "i + 1" "j + 1"] less.prems False
          \<open>tcp i = Inr u\<close> Inl show ?thesis by simp
      qed
    qed
  qed
qed

text \<open>The connector that the three calls give, when none of them fails.\<close>

definition tls_connector :: "('c, 'b, 'k) tls_api \<Rightarrow> 'c \<Rightarrow> string + 'k" where
  "tls_connector api certificate = and_then (tls_builder api)
     (\<lambda>b. and_then (add_root_certificate api b certificate) (tls_build api))"

lemma attempt_connection_form:
  "attempt_connection api tcp tls certificate = (case tls_connector api certificate of
     Inl why \<Rightarrow> Some Panic
   | Inr connector \<Rightarrow> map_option Done (attempt_connection_loop tcp (tls connector) 0 0 0 0))"
  by (simp add: attempt_connection_def tls_connector_def split: sum.split)

text \<open>
  C24. Connecting always ends: with a panic exactly if the builder, the certificate or the
  connector fails, and otherwise with a result, after at most seven connects and four
  handshakes. It gives up exactly when four connects have failed or four handshakes have,
  with the error that says which, and otherwise returns the stream of the first handshake
  that succeeds.
\<close>

theorem attempt_connection_returns:
  "case attempt_connection api tcp tls certificate of
     None \<Rightarrow> False
   | Some (Exit n why) \<Rightarrow> False
   | Some Panic \<Rightarrow> (\<nexists>b b' k. tls_builder api = Inr b
        \<and> add_root_certificate api b certificate = Inr b' \<and> tls_build api b' = Inr k)
   | Some (Done (r, i, j)) \<Rightarrow> (\<exists>b b' k. tls_builder api = Inr b
        \<and> add_root_certificate api b certificate = Inr b' \<and> tls_build api b' = Inr k
        \<and> i \<le> 7 \<and> j \<le> 4 \<and> i = failures tcp i + j
        \<and> (case r of
             Inr s \<Rightarrow> 0 < j \<and> tls k (j - 1) = Inr s \<and> failures (tls k) j = j - 1 \<and> failures tcp i < 4
           | Inl e \<Rightarrow> failures (tls k) j = j
               \<and> (e = Other ''unable to connect'' \<and> failures tcp i = 4 \<and> j < 4
                  \<or> e = Other ''TLS connection failed'' \<and> j = 4 \<and> failures tcp i < 4)))"
proof (cases "tls_connector api certificate")
  case (Inl why)
  then show ?thesis by (auto simp: attempt_connection_form tls_connector_def)
next
  case (Inr k)
  then obtain b b' where k: "tls_builder api = Inr b" "add_root_certificate api b certificate = Inr b'"
    "tls_build api b' = Inr k" by (auto simp: tls_connector_def)
  from attempt_connection_loop_returns [of 0 0 tcp 0 "tls k" 0] obtain r i j where
    l: "attempt_connection_loop tcp (tls k) 0 0 0 0 = Some (r, i, j)" "i \<le> 7" "j \<le> 4" "i = failures tcp i + j"
    "case r of
       Inr s \<Rightarrow> 0 < j \<and> tls k (j - 1) = Inr s \<and> failures tcp i < 4 \<and> failures (tls k) j = j - 1
     | Inl e \<Rightarrow> failures (tls k) j = j
         \<and> (e = Other ''unable to connect'' \<and> failures tcp i = 4 \<and> j < 4
            \<or> e = Other ''TLS connection failed'' \<and> j = 4 \<and> failures tcp i < 4)"
    by auto
  from Inr l(1) have "attempt_connection api tcp tls certificate = Some (Done (r, i, j))"
    by (simp add: attempt_connection_form)
  with k l(2-5) show ?thesis by (simp split: sum.splits)
qed

section \<open>Writing\<close>

text \<open>
  \<^verbatim>\<open>attempt_write\<close>: it writes the whole instruction anew after each failure. A failed
  attempt uses up an answer of the stream, so the loop ends.
\<close>

function attempt_write_loop :: "nat \<Rightarrow> stream \<Rightarrow> byte list \<Rightarrow> unit io_result \<times> stream" where
  "attempt_write_loop tries s instruction =
     (case write_all s instruction of
        (Inl why, s) \<Rightarrow>
          if tries = 3 then (Inl why, s) else attempt_write_loop (tries + 1) s instruction
      | (Inr _, s) \<Rightarrow> (Inr (), s))"
  by pat_completeness auto
termination
proof (relation "measure (\<lambda>(tries, s, instruction). length (write_answers s))")
  fix tries s instruction x1 s' why
  assume "(x1, s') = write_all s instruction" "x1 = Inl why"
  then have "write_all s instruction = (Inl why, s')" by simp
  then show "((tries + 1, s', instruction), tries, s, instruction)
      \<in> measure (\<lambda>(tries, s, instruction). length (write_answers s))"
    by (auto simp: write_all_def split: list.splits sum.splits)
qed simp

declare attempt_write_loop.simps [simp del]

definition attempt_write :: "stream \<Rightarrow> byte list \<Rightarrow> unit io_result \<times> stream" where
  "attempt_write s instruction = attempt_write_loop 0 s instruction"

text \<open>The failed attempts at the head of the answers, and what they leave on the wire.\<close>

definition write_failures :: "stream \<Rightarrow> (io_error \<times> nat) list" where
  "write_failures s = map projl (takeWhile isl (write_answers s))"

definition written_parts :: "(io_error \<times> nat) list \<Rightarrow> byte list \<Rightarrow> byte list" where
  "written_parts fs bs = concat (map (\<lambda>(e, n). take n bs) fs)"

lemma written_parts_simps [simp]:
  "written_parts [] bs = []"
  "written_parts (f # fs) bs = take (snd f) bs @ written_parts fs bs"
  by (auto simp: written_parts_def split: prod.split)

lemma attempt_write_loop_form:
  assumes "tries \<le> 3"
  shows "attempt_write_loop tries s bs =
    (let fs = write_failures s; k = 4 - tries
     in if length fs < k
        then (Inr (), s\<lparr>write_answers := drop (length fs + 1) (write_answers s),
                        sent := sent s @ written_parts fs bs @ bs\<rparr>)
        else (Inl (fst (fs ! (k - 1))), s\<lparr>write_answers := drop k (write_answers s),
                        sent := sent s @ written_parts (take k fs) bs\<rparr>))"
  using assms
proof (induction "write_answers s" arbitrary: s tries)
  case Nil
  then show ?case
    by (simp add: attempt_write_loop.simps [of tries] write_all_def write_failures_def
        Nil.hyps [symmetric])
next
  case (Cons a ans)
  note ans = Cons.hyps(2) [symmetric]
  show ?case
  proof (cases a)
    case (Inr u)
    with ans Cons.prems show ?thesis
      by (simp add: attempt_write_loop.simps [of tries] write_all_def write_failures_def)
  next
    case (Inl en)
    let ?s = "s\<lparr>write_answers := ans, sent := sent s @ take (snd en) bs\<rparr>"
    have w: "write_all s bs = (Inl (fst en), ?s)"
      using ans Inl by (cases en) (simp add: write_all_def)
    have fs: "write_failures s = en # write_failures ?s"
      using ans Inl by (simp add: write_failures_def)
    show ?thesis
    proof (cases "tries = 3")
      case True
      with w fs ans show ?thesis
        by (simp add: attempt_write_loop.simps [of _ s] Let_def)
    next
      case False
      with Cons.prems obtain m where "3 - tries = Suc m" by (cases "3 - tries") auto
      then have m: "4 - tries = Suc (Suc m)" "4 - (tries + 1) = Suc m" by simp_all
      from False w have "attempt_write_loop tries s bs = attempt_write_loop (tries + 1) ?s bs"
        by (simp add: attempt_write_loop.simps [of tries])
      also have "\<dots> = (let fs = write_failures ?s
         in if length fs < Suc m
            then (Inr (), ?s\<lparr>write_answers := drop (length fs + 1) ans,
                        sent := sent ?s @ written_parts fs bs @ bs\<rparr>)
            else (Inl (fst (fs ! m)), ?s\<lparr>write_answers := drop (Suc m) ans,
                        sent := sent ?s @ written_parts (take (Suc m) fs) bs\<rparr>))"
        using Cons.hyps(1) [of ?s "tries + 1"] False Cons.prems unfolding m(2) by (simp add: Let_def)
      finally show ?thesis by (simp add: m Let_def fs ans)
    qed
  qed
qed

lemma attempt_write_form:
  "attempt_write s bs =
    (let fs = map projl (takeWhile isl (write_answers s))
     in if length fs < 4
        then (Inr (), s\<lparr>write_answers := drop (length fs + 1) (write_answers s),
                sent := sent s @ concat (map (\<lambda>(e, n). take n bs) fs) @ bs\<rparr>)
        else (Inl (fst (fs ! 3)), s\<lparr>write_answers := drop 4 (write_answers s),
                sent := sent s @ concat (map (\<lambda>(e, n). take n bs) (take 4 fs))\<rparr>))"
  using attempt_write_loop_form [of 0 s bs]
  by (simp add: attempt_write_def write_failures_def written_parts_def Let_def)

text \<open>
  C25. Sending an instruction makes at most four attempts, each of which starts anew: with
  \<open>fs\<close> the failures that lie ahead of the first success, the wire carries what each failed
  attempt had written and then, if there were fewer than four, the whole instruction;
  otherwise the error of the fourth attempt is returned.
\<close>

theorem attempt_write_attempts:
  "attempt_write s bs =
    (let fs = map projl (takeWhile isl (write_answers s))
     in if length fs < 4
        then (Inr (), s\<lparr>write_answers := drop (length fs + 1) (write_answers s),
                sent := sent s @ concat (map (\<lambda>(e, n). take n bs) fs) @ bs\<rparr>)
        else (Inl (fst (fs ! 3)), s\<lparr>write_answers := drop 4 (write_answers s),
                sent := sent s @ concat (map (\<lambda>(e, n). take n bs) (take 4 fs))\<rparr>))"
  by (rule attempt_write_form)

lemma attempt_write_ok:
  "write_answers s = [] \<Longrightarrow> attempt_write s bs = (Inr (), s\<lparr>sent := sent s @ bs\<rparr>)"
  by (simp add: attempt_write_form)

section \<open>Connections\<close>

text \<open>
  \<^verbatim>\<open>certificate::get\<close>: \<open>result cert\<close> is what the lookup of the path of the file \<open>cert\<close>, the
  file and the certificate parser give, with each error as the text it is printed with;
  every error ends the process with its message.
\<close>

definition certificate_get :: "(rstr \<Rightarrow> rstr + (rstr + (rstr + 'c))) \<Rightarrow> rstr \<Rightarrow> 'c run" where
  [eval_defs]: "certificate_get result domain = (let cert = domain @ lit ''.der'' in case result cert of
     Inr (Inr (Inr cert)) \<Rightarrow> Done cert
   | Inr (Inr (Inl why)) \<Rightarrow>
       Exit 1 (critical (lit ''error parsing '' @ [39] @ cert @ [39] @ lit '' in cert path: '' @ why))
   | Inr (Inl why) \<Rightarrow>
       Exit 1 (critical (lit ''error reading '' @ [39] @ cert @ [39] @ lit '' in cert path: '' @ why))
   | Inl why \<Rightarrow> Exit 1 (critical (lit ''invalid app dir path: '' @ why)))"

datatype connection_error = IO io_error

text \<open>\<^verbatim>\<open>From\<close> and \<^verbatim>\<open>Display\<close> for it, with the text of the I/O error.\<close>

definition connection_error_from :: "io_error \<Rightarrow> connection_error" where [eval_defs, simp]:
  "connection_error_from err = IO err"

definition fmt_connection_error :: "(io_error \<Rightarrow> rstr) \<Rightarrow> connection_error \<Rightarrow> rstr" where [eval_defs]:
  "fmt_connection_error show_io self = (case self of IO err \<Rightarrow> lit ''I/O error: '' @ show_io err)"

record 'a connection =
  conn_stream :: stream
  conn_domain :: rstr
  conn_address :: 'a
  conn_command :: usize
  conn_cores :: usize

text \<open>
  How the world answers one node: its certificate, the TLS crate, the connects and the
  handshakes of a connector.
\<close>

record ('c, 'b, 'k) node_net =
  net_certificate :: "rstr \<Rightarrow> rstr + (rstr + (rstr + 'c))"
  net_api :: "('c, 'b, 'k) tls_api"
  net_tcp :: "nat \<Rightarrow> io_error + unit"
  net_tls :: "'k \<Rightarrow> nat \<Rightarrow> string + stream"

text \<open>
  \<^verbatim>\<open>string[..string.len() - 1].parse::<usize>()\<close> on a line: \<open>None\<close> is the panic of the
  slice, for an empty line and for a last character of several bytes.
\<close>

definition parse_answer :: "string \<Rightarrow> rstr \<Rightarrow> usize io_result option" where [eval_defs]:
  "parse_answer message string =
     (if str_len string = 0 then None
      else map_option (\<lambda>t. ok_or (Other message) (parse_uint t)) (slice_to string (str_len string - 1)))"

text \<open>
  A request and its one line of answer: \<^verbatim>\<open>attempt_write\<close>, a new \<^verbatim>\<open>BufReader\<close>, one
  \<^verbatim>\<open>read_line\<close> and the number in it. What the reader has buffered beyond the line is
  dropped with the reader.
\<close>

definition ask_number :: "string \<Rightarrow> stream \<Rightarrow> byte list \<Rightarrow> usize io_result option \<times> stream" where
  [eval_defs]: "ask_number message s instruction = (case attempt_write s instruction of
     (Inl e, s) \<Rightarrow> (Some (Inl e), s)
   | (Inr _, s) \<Rightarrow>
       (let (r, string, _, ans) = read_line [] ([], incoming s); s = s\<lparr>incoming := ans\<rparr>
        in (case r of
              Inl e \<Rightarrow> (Some (Inl e), s)
            | Inr _ \<Rightarrow> (parse_answer message string, s))))"

definition get_cores :: "stream \<Rightarrow> usize io_result option \<times> stream" where [eval_defs]:
  "get_cores s = ask_number ''cores value is NaN'' s (as_bytes (lit ''get cores'' @ [c_cr, c_nl]))"

definition send_command :: "'a connection \<Rightarrow> rstr \<Rightarrow> usize io_result option \<times> 'a connection" where
  [eval_defs]: "send_command self command =
     (let (r, s) = ask_number ''ID is NaN'' (conn_stream self)
                     (as_bytes (lit ''com '' @ command @ [c_cr, c_nl]));
          self = self\<lparr>conn_stream := s\<rparr>
      in case r of
           Some (Inr i) \<Rightarrow> (Some (Inr i), self\<lparr>conn_command := i\<rparr>)
         | _ \<Rightarrow> (r, self))"

text \<open>\<^verbatim>\<open>drop\<close>: one attempt to delete the command; its error is only reported.\<close>

definition drop_connection :: "'a connection \<Rightarrow> 'a connection" where [eval_defs]:
  "drop_connection self = self\<lparr>conn_stream :=
     snd (write_all (conn_stream self)
       (as_bytes (lit ''del '' @ to_string (conn_command self) @ [c_cr, c_nl])))\<rparr>"

text \<open>
  \<^verbatim>\<open>Connection::new\<close>. That connecting returns is the property above; an endless loop
  would be counted as a panic here.
\<close>

definition Connection_new ::
  "('c, 'b, 'k) node_net \<Rightarrow> 'a \<Rightarrow> rstr \<Rightarrow> (connection_error + 'a connection) run" where [eval_defs]:
  "Connection_new net address domain = (case certificate_get (net_certificate net) domain of
     Exit n why \<Rightarrow> Exit n why
   | Panic \<Rightarrow> Panic
   | Done cert \<Rightarrow>
       (case attempt_connection (net_api net) (net_tcp net) (net_tls net) cert of
          None \<Rightarrow> Panic
        | Some Panic \<Rightarrow> Panic
        | Some (Exit n why) \<Rightarrow> Exit n why
        | Some (Done (Inl e, _)) \<Rightarrow> Done (Inl (connection_error_from e))
        | Some (Done (Inr connection, _)) \<Rightarrow>
            (case get_cores connection of
               (None, _) \<Rightarrow> Panic
             | (Some (Inl e), _) \<Rightarrow> Done (Inl (connection_error_from e))
             | (Some (Inr cores), connection) \<Rightarrow>
                 Done (Inr \<lparr>conn_stream = connection, conn_domain = domain,
                   conn_address = address, conn_command = 0, conn_cores = cores\<rparr>))))"

text \<open>
  \<^verbatim>\<open>nodes::get\<close>: the result and the connections that were dropped on the way, in the
  order of their destructors. A connection whose \<^verbatim>\<open>send_command\<close> fails or panics is
  dropped before the ones collected so far.
\<close>

fun nodes_get ::
  "('a \<times> rstr \<Rightarrow> ('c, 'b, 'k) node_net) \<Rightarrow> ('a \<times> rstr) list \<Rightarrow> rstr \<Rightarrow> 'a connection list
   \<Rightarrow> (connection_error + 'a connection list) run \<times> 'a connection list" where
  "nodes_get net [] command output = (Done (Inr output), [])"
| "nodes_get net ((addr, domain) # nodes) command output =
     (case Connection_new (net (addr, domain)) addr domain of
        Exit n why \<Rightarrow> (Exit n why, [])
      | Panic \<Rightarrow> (Panic, map drop_connection output)
      | Done (Inl e) \<Rightarrow> (Done (Inl e), map drop_connection output)
      | Done (Inr conn) \<Rightarrow>
          (case send_command conn command of
             (None, conn) \<Rightarrow> (Panic, drop_connection conn # map drop_connection output)
           | (Some (Inl e), conn) \<Rightarrow>
               (Done (Inl (connection_error_from e)), drop_connection conn # map drop_connection output)
           | (Some (Inr i), conn) \<Rightarrow> nodes_get net nodes command (output @ [conn])))"

section \<open>What a node is told\<close>

abbreviation node_of :: "'a connection \<Rightarrow> 'a \<times> rstr" where
  "node_of c \<equiv> (conn_address c, conn_domain c)"

lemma node_of_drop [simp]: "node_of (drop_connection c) = node_of c"
  by (simp add: drop_connection_def)

lemma Connection_new_node:
  "Connection_new net address domain = Done (Inr c) \<Longrightarrow> node_of c = (address, domain) \<and> conn_command c = 0"
  by (auto simp: Connection_new_def split: run.splits option.splits prod.splits sum.splits)

lemma send_command_node: "send_command c command = (r, c') \<Longrightarrow> node_of c' = node_of c"
  by (auto simp: send_command_def Let_def split: prod.splits option.splits sum.splits)

lemma send_command_failed:
  "send_command c command = (r, c') \<Longrightarrow> (\<nexists>i. r = Some (Inr i)) \<Longrightarrow> conn_command c' = conn_command c"
  by (auto simp: send_command_def Let_def split: prod.splits option.splits sum.splits)

text \<open>
  The connection that the attempt to join one node opens, if any, whether the node joins,
  and how it fails otherwise.
\<close>

definition opened_by ::
  "('a \<times> rstr \<Rightarrow> ('c, 'b, 'k) node_net) \<Rightarrow> rstr \<Rightarrow> 'a \<times> rstr \<Rightarrow> 'a connection list" where
  "opened_by net command n = (case Connection_new (net n) (fst n) (snd n) of
     Done (Inr conn) \<Rightarrow> [snd (send_command conn command)] | _ \<Rightarrow> [])"

definition joins :: "('a \<times> rstr \<Rightarrow> ('c, 'b, 'k) node_net) \<Rightarrow> rstr \<Rightarrow> 'a \<times> rstr \<Rightarrow> bool" where
  "joins net command n \<longleftrightarrow> (\<exists>conn i. Connection_new (net n) (fst n) (snd n) = Done (Inr conn)
     \<and> fst (send_command conn command) = Some (Inr i))"

fun fails_with ::
  "('a \<times> rstr \<Rightarrow> ('c, 'b, 'k) node_net) \<Rightarrow> rstr \<Rightarrow> 'a \<times> rstr \<Rightarrow> (connection_error + 'x) run \<Rightarrow> bool" where
  "fails_with net command n (Exit m why) \<longleftrightarrow> Connection_new (net n) (fst n) (snd n) = Exit m why"
| "fails_with net command n Panic \<longleftrightarrow> Connection_new (net n) (fst n) (snd n) = Panic
     \<or> (\<exists>conn. Connection_new (net n) (fst n) (snd n) = Done (Inr conn) \<and> fst (send_command conn command) = None)"
| "fails_with net command n (Done (Inl e)) \<longleftrightarrow> Connection_new (net n) (fst n) (snd n) = Done (Inl e)
     \<or> (\<exists>conn io. e = IO io \<and> Connection_new (net n) (fst n) (snd n) = Done (Inr conn)
          \<and> fst (send_command conn command) = Some (Inl io))"
| "fails_with net command n (Done (Inr conns)) \<longleftrightarrow> False"

lemma opened_by_node: "joins net command n \<Longrightarrow> map node_of (opened_by net command n) = [n]"
proof -
  assume "joins net command n"
  then obtain conn where c: "Connection_new (net n) (fst n) (snd n) = Done (Inr conn)"
    by (auto simp: joins_def)
  from Connection_new_node [OF c] send_command_node [OF prod.collapse [symmetric], of conn command]
  show ?thesis by (simp add: opened_by_def c)
qed

lemma opened_by_nodes:
  "list_all (joins net command) nodes \<Longrightarrow> map node_of (concat (map (opened_by net command) nodes)) = nodes"
  by (induction nodes) (simp_all add: opened_by_node)

lemma fails_not_joins: "fails_with net command n r \<Longrightarrow> \<not> joins net command n"
proof (cases r)
  case (Done x)
  then show "fails_with net command n r \<Longrightarrow> \<not> joins net command n"
    by (cases x) (auto simp: joins_def)
qed (auto simp: joins_def)

text \<open>One node at a time.\<close>

lemma nodes_get_Cons:
  "nodes_get net (n # nodes) command acc =
    (if joins net command n then nodes_get net nodes command (acc @ opened_by net command n)
     else let r = (case Connection_new (net n) (fst n) (snd n) of
             Exit m why \<Rightarrow> Exit m why
           | Panic \<Rightarrow> Panic
           | Done (Inl e) \<Rightarrow> Done (Inl e)
           | Done (Inr conn) \<Rightarrow> (case fst (send_command conn command) of
               Some (Inl e) \<Rightarrow> Done (Inl (IO e)) | _ \<Rightarrow> Panic))
       in (r, case r of Exit m why \<Rightarrow> [] | _ \<Rightarrow> map drop_connection (opened_by net command n @ acc)))"
  by (cases n) (auto simp: joins_def opened_by_def split: run.split sum.split prod.split option.split)

lemma nodes_get_outcome:
  "case nodes_get net nodes command acc of
      (Done (Inr conns), dropped) \<Rightarrow> list_all (joins net command) nodes \<and> dropped = []
        \<and> conns = acc @ concat (map (opened_by net command) nodes)
    | (r, dropped) \<Rightarrow> (\<exists>before n rest. nodes = before @ n # rest
        \<and> list_all (joins net command) before \<and> fails_with net command n r
        \<and> dropped = (case r of Exit m why \<Rightarrow> []
             | _ \<Rightarrow> map drop_connection (opened_by net command n @ acc
                 @ concat (map (opened_by net command) before))))"
proof (induction nodes arbitrary: acc)
  case Nil
  then show ?case by simp
next
  case (Cons n nodes)
  show ?case
  proof (cases "joins net command n")
    case True
    note IH = Cons [of "acc @ opened_by net command n"]
    show ?thesis
    proof (cases "nodes_get net nodes command (acc @ opened_by net command n)")
      case (Pair r dropped)
      show ?thesis
      proof (cases "\<exists>conns. r = Done (Inr conns)")
        case joined: True
        with Pair IH True show ?thesis by (auto simp: nodes_get_Cons simp del: nodes_get.simps)
      next
        case False
        from IH Pair False obtain before m rest where s: "nodes = before @ m # rest"
          "list_all (joins net command) before" "fails_with net command m r"
          "dropped = (case r of Exit m why \<Rightarrow> [] | _ \<Rightarrow> map drop_connection (opened_by net command m
             @ (acc @ opened_by net command n) @ concat (map (opened_by net command) before)))"
          by (cases r) (auto split: sum.splits)
        then have "\<exists>before n' rest. n # nodes = before @ n' # rest
          \<and> list_all (joins net command) before \<and> fails_with net command n' r
          \<and> dropped = (case r of Exit m why \<Rightarrow> [] | _ \<Rightarrow> map drop_connection (opened_by net command n'
               @ acc @ concat (map (opened_by net command) before)))"
          using True by (intro exI [of _ "n # before"] exI [of _ m] exI [of _ rest] conjI)
            (simp_all split: run.split)
        moreover have "nodes_get net (n # nodes) command acc = (r, dropped)"
          using True Pair by (simp only: nodes_get_Cons if_True)
        ultimately show ?thesis
          using False by (cases r rule: run_sum_cases) (simp_all only: prod.case run.case sum.case, blast)
      qed
    qed
  next
    case False
    then show ?thesis
      by (cases "Connection_new (net n) (fst n) (snd n)")
        (auto simp: nodes_get_Cons joins_def Let_def simp del: nodes_get.simps split_paired_Ex
          split: sum.split option.split intro!: exI [of _ "[]"])
  qed
qed

text \<open>
  C26. All nodes or none: the client either is connected to every configured node, in their
  order and with nothing dropped, each of which has accepted the command; or it ends at the
  first node that does not join, with that node's error or panic, after dropping, once each,
  the connection to that node, when it was opened, and then those to all the nodes before
  it; or it exits at the first node without a certificate, where nothing is dropped.
\<close>

theorem nodes_all_or_none:
  "case nodes_get net nodes command [] of
      (Done (Inr conns), dropped) \<Rightarrow> dropped = [] \<and> list_all (joins net command) nodes
        \<and> conns = concat (map (opened_by net command) nodes)
        \<and> map (\<lambda>c. (conn_address c, conn_domain c)) conns = nodes
    | (r, dropped) \<Rightarrow> (\<exists>before n rest. nodes = before @ n # rest
        \<and> list_all (joins net command) before \<and> \<not> joins net command n \<and> fails_with net command n r
        \<and> map (\<lambda>c. (conn_address c, conn_domain c)) (concat (map (opened_by net command) before)) = before
        \<and> dropped = (case r of Exit m why \<Rightarrow> []
             | _ \<Rightarrow> map drop_connection (opened_by net command n
                 @ concat (map (opened_by net command) before))))"
proof (cases "nodes_get net nodes command []")
  case (Pair r dropped)
  show ?thesis
  proof (cases "\<exists>conns. r = Done (Inr conns)")
    case True
    with Pair nodes_get_outcome [where acc = "[]" and net = net and nodes = nodes and command = command]
    show ?thesis by (auto dest: opened_by_nodes)
  next
    case False
    from False Pair nodes_get_outcome [where acc = "[]" and net = net and nodes = nodes and command = command]
    obtain before n rest where s: "nodes = before @ n # rest"
      "list_all (joins net command) before" "fails_with net command n r"
      "dropped = (case r of Exit m why \<Rightarrow> [] | _ \<Rightarrow> map drop_connection (opened_by net command n
         @ concat (map (opened_by net command) before)))"
      by (cases r) (auto split: sum.splits)
    then have "\<exists>before n rest. nodes = before @ n # rest
        \<and> list_all (joins net command) before \<and> \<not> joins net command n \<and> fails_with net command n r
        \<and> map node_of (concat (map (opened_by net command) before)) = before
        \<and> dropped = (case r of Exit m why \<Rightarrow> []
             | _ \<Rightarrow> map drop_connection (opened_by net command n
                 @ concat (map (opened_by net command) before)))"
      using fails_not_joins [OF s(3)] opened_by_nodes [OF s(2)] by blast
    with Pair False show ?thesis
      by (cases r rule: run_sum_cases) (simp_all only: prod.case run.case sum.case, blast)
  qed
qed

text \<open>
  C36. A node that refuses the command is told to delete another one: when the command of a
  new connection is not answered by an ID, the connection is dropped with its initial
  command number, and what the node receives last is the instruction to delete command 0.
\<close>

theorem refused_command_deletes_first:
  assumes "Connection_new (net (addr, domain)) addr domain = Done (Inr conn)"
    and "send_command conn command = (Some (Inl e), conn')"
    and "write_answers (conn_stream conn') = []"
  shows "\<exists>c dropped. nodes_get net ((addr, domain) # nodes) command output
      = (Done (Inl (IO e)), c # dropped)
    \<and> sent (conn_stream c) = sent (conn_stream conn') @ as_bytes (lit ''del 0'' @ [c_cr, c_nl])"
proof -
  have "conn_command conn' = 0"
    using Connection_new_node [OF assms(1)] send_command_failed [OF assms(2)] by simp
  then have "sent (conn_stream (drop_connection conn'))
      = sent (conn_stream conn') @ as_bytes (lit ''del 0'' @ [c_cr, c_nl])"
    using assms(3) by (simp add: drop_connection_def write_all_def to_string_def digits.simps lit_def)
  with assms(1,2) show ?thesis by simp
qed

definition demo_stream :: stream where
  "demo_stream = \<lparr>incoming = [Inr (as_bytes [52, c_nl]), Inr (as_bytes (lit ''ERR'' @ [c_nl]))],
     write_answers = [], sent = []\<rparr>"

definition demo_api :: "(unit, unit, unit) tls_api" where
  "demo_api = \<lparr>tls_builder = Inr (), add_root_certificate = (\<lambda>_ _. Inr ()), tls_build = (\<lambda>_. Inr ())\<rparr>"

definition demo_net :: "(unit, unit, unit) node_net" where
  "demo_net = \<lparr>net_certificate = (\<lambda>_. Inr (Inr (Inr ()))), net_api = demo_api, net_tcp = (\<lambda>_. Inr ()),
     net_tls = (\<lambda>_ _. Inr demo_stream)\<rparr>"

lemma demo_connects:
  "attempt_connection demo_api (\<lambda>_. Inr ()) (\<lambda>_ _. Inr s) () = Some (Done (Inr s, 1, 1))"
  by (simp add: attempt_connection_def demo_api_def attempt_connection_loop.simps)

lemma utf8_ascii_Cons: "c < 128 \<Longrightarrow> from_utf8 (byte_of c # bs) = map_option (Cons c) (from_utf8 bs)"
  by (simp add: from_utf8.simps [of "byte_of c # bs"] next_char_def)

theorem refused_command_deletes_first_witness:
  "\<exists>c e dropped. nodes_get (\<lambda>_. demo_net) [((), lit ''n'')] (lit ''ls'') [] = (Done (Inl (IO e)), c # dropped)
    \<and> sent (conn_stream c) = as_bytes (lit ''get cores'' @ [c_cr, c_nl])
        @ as_bytes (lit ''com '' @ lit ''ls'' @ [c_cr, c_nl]) @ as_bytes (lit ''del 0'' @ [c_cr, c_nl])"
proof -
  let ?s = "\<lparr>incoming = [Inr (as_bytes (lit ''ERR'' @ [c_nl]))], write_answers = [],
    sent = as_bytes (lit ''get cores'' @ [c_cr, c_nl])\<rparr>"
  let ?c = "\<lparr>conn_stream = ?s, conn_domain = lit ''n'', conn_address = (), conn_command = 0, conn_cores = 4\<rparr>"
  let ?c' = "?c\<lparr>conn_stream := ?s\<lparr>incoming := [], sent := as_bytes (lit ''get cores'' @ [c_cr, c_nl])
     @ as_bytes (lit ''com '' @ lit ''ls'' @ [c_cr, c_nl])\<rparr>\<rparr>"
  have "read_line [] ([], incoming demo_stream)
      = (Inr (), [52, c_nl], [], [Inr (as_bytes (lit ''ERR'' @ [c_nl]))])"
    by (simp add: demo_stream_def read_line_def read_until_nl.simps encode_char_ascii
        byte_of_eq_iff utf8_ascii_Cons)
  moreover have "parse_answer ''cores value is NaN'' [52, c_nl] = Some (Inr 4)"
    by (simp add: parse_answer_def slice_to_def len_utf8_def parse_uint_def push_digit_def)
  ultimately have "get_cores demo_stream = (Some (Inr 4), ?s)"
    by (simp add: get_cores_def ask_number_def attempt_write_ok demo_stream_def)
  then have 1: "Connection_new demo_net () (lit ''n'') = Done (Inr ?c)"
    by (simp add: Connection_new_def demo_net_def certificate_get_def demo_connects)
  have "read_line [] ([], incoming ?s) = (Inr (), lit ''ERR'' @ [c_nl], [], [])"
    by (simp add: read_line_def read_until_nl.simps encode_char_ascii lit_def byte_of_eq_iff utf8_ascii_Cons)
  moreover have "parse_answer ''ID is NaN'' (lit ''ERR'' @ [c_nl]) = Some (Inl (Other ''ID is NaN''))"
    by (simp add: parse_answer_def slice_to_def len_utf8_def parse_uint_def push_digit_def lit_def)
  ultimately have 2: "send_command ?c (lit ''ls'') = (Some (Inl (Other ''ID is NaN'')), ?c')"
    by (simp add: send_command_def ask_number_def attempt_write_ok)
  have 3: "write_answers (conn_stream ?c') = []" by simp
  from refused_command_deletes_first [where net = "\<lambda>_. demo_net", OF 1 2 3, of "[]" "[]"] show ?thesis
    by auto
qed

end
