(* ===== verification/Client_Start.thy ===== *)
theory Client_Start
  imports Args Configure Connection
begin

unbundle bit_operations_syntax

text \<open>
  The start of the client, the first half of \<^verbatim>\<open>main\<close> in \<^verbatim>\<open>src/client/main.rs\<close>: the
  configuration, the arguments, the connections to the nodes and the slots that are started
  for them, with what \<^verbatim>\<open>main\<close> itself writes to standard error meanwhile.
\<close>

section \<open>The slots\<close>

text \<open>The number of local slots, and for each remote slot the address, domain and command ID.\<close>

definition local_slots_of :: "u8 \<Rightarrow> nat \<Rightarrow> nat" where [eval_defs]:
  "local_slots_of flags cores = (if flags AND LOCHOST \<noteq> 0 then cores else 0)"

definition remote_slots_of :: "'a connection list \<Rightarrow> ('a \<times> rstr \<times> usize) list" where [eval_defs]:
  "remote_slots_of nodes = concat (map (\<lambda>node.
     replicate (unat (conn_cores node)) (conn_address node, conn_domain node, conn_command node)) nodes)"

section \<open>Messages\<close>

text \<open>How the errors of the configuration and of the system and the addresses are printed.\<close>

record ('e, 'a) displays =
  show_config :: "'e \<Rightarrow> rstr"
  show_io :: "io_error \<Rightarrow> rstr"
  show_address :: "'a \<Rightarrow> rstr"

definition info :: "rstr \<Rightarrow> rstr" where [eval_defs]:
  "info what = lit ''concurr [INFO]: '' @ what @ [c_nl]"

text \<open>The two announcements of the slots, which are made in verbose mode only.\<close>

definition announce_local :: "u8 \<Rightarrow> nat \<Rightarrow> rstr" where [eval_defs]:
  "announce_local flags cores =
     (if flags AND LOCHOST \<noteq> 0 then
        (if flags AND VERBOSE \<noteq> 0
         then info (lit ''spawning '' @ digits cores @ lit '' slots in client'') else [])
      else [])"

fun announce_remote :: "('e, 'a) displays \<Rightarrow> u8 \<Rightarrow> 'a connection list \<Rightarrow> rstr" where
  "announce_remote disp flags [] = []"
| "announce_remote disp flags (node # nodes) =
     (if flags AND VERBOSE \<noteq> 0
      then info (lit ''spawning '' @ to_string (conn_cores node) @ lit '' slots on ''
             @ show_address disp (conn_address node))
      else []) @ announce_remote disp flags nodes"

text \<open>
  The message at the end, with the time as whole seconds and the nanoseconds of the last
  second; the milliseconds are printed without leading zeros.
\<close>

definition processed :: "usize \<Rightarrow> 64 word \<Rightarrow> 32 word \<Rightarrow> rstr" where [eval_defs]:
  "processed total_inputs secs nanos = info (lit ''processed '' @ to_string total_inputs @ lit '' inputs within ''
     @ to_string secs @ [46] @ to_string (nanos div 1000000) @ [115])"

section \<open>The start\<close>

text \<open>
  From the results of \<^verbatim>\<open>Config::get\<close> and \<^verbatim>\<open>Arguments::new\<close>: the first failure ends the
  process with code 1 and a message. Otherwise the result has the numbers of slots, the
  source of the inputs and what \<^verbatim>\<open>main\<close> has written to standard error. Beside it stand the
  connections that were dropped.
\<close>

definition start ::
  "('e, 'a) displays \<Rightarrow> ('e + 'a Config) \<Rightarrow> (argument_error + 'p arguments)
   \<Rightarrow> ('a \<times> rstr \<Rightarrow> ('c, 'b, 'k) node_net) \<Rightarrow> nat
   \<Rightarrow> (nat \<times> ('a \<times> rstr \<times> usize) list \<times> 'p args_source \<times> rstr) run \<times> 'a connection list" where
  [eval_defs]: "start disp config arguments net cores = (case config of
     Inl why \<Rightarrow> (Exit 1 (critical (show_config disp why)), [])
   | Inr config \<Rightarrow>
       (case arguments of
          Inl why \<Rightarrow> (Exit 1 (critical (fmt_argument_error why)), [])
        | Inr arguments \<Rightarrow>
            (case nodes_get net (config_nodes config) (arg_command arguments) [] of
               (Done (Inl why), dropped) \<Rightarrow>
                 (Exit 1 (critical (lit ''connection error: '' @ fmt_connection_error (show_io disp) why)),
                  dropped)
             | (Exit n why, dropped) \<Rightarrow> (Exit n why, dropped)
             | (Panic, dropped) \<Rightarrow> (Panic, dropped)
             | (Done (Inr nodes), dropped) \<Rightarrow>
                 (Done (local_slots_of (config_flags config) cores, remote_slots_of nodes,
                    arg_source arguments, announce_local (config_flags config) cores
                    @ announce_remote disp (config_flags config) nodes), dropped))))"

text \<open>
  The end of \<^verbatim>\<open>main\<close>, behind its last statement: the vector of the nodes is dropped, each
  connection in its order.
\<close>

definition main_return :: "'a connection list \<Rightarrow> 'a connection list" where [eval_defs]:
  "main_return nodes = map drop_connection nodes"

section \<open>What it does\<close>

lemma announce_quiet: "flags AND VERBOSE = 0 \<Longrightarrow> announce_local flags cores @ announce_remote disp flags nodes = []"
  by (induction nodes) (simp_all add: announce_local_def)

text \<open>What an exit during the connecting prints: one of the messages about a certificate.\<close>

definition certificate_message :: "rstr \<Rightarrow> (rstr \<Rightarrow> rstr + (rstr + (rstr + 'c))) \<Rightarrow> rstr \<Rightarrow> bool" where
  "certificate_message domain result message \<longleftrightarrow> (let cert = domain @ lit ''.der'' in
     (\<exists>why. result cert = Inl why \<and> message = lit ''concurr [CRITICAL]: invalid app dir path: '' @ why @ [c_nl])
   \<or> (\<exists>why. result cert = Inr (Inl why) \<and> message = lit ''concurr [CRITICAL]: error reading '' @ [39]
         @ cert @ [39] @ lit '' in cert path: '' @ why @ [c_nl])
   \<or> (\<exists>why. result cert = Inr (Inr (Inl why)) \<and> message = lit ''concurr [CRITICAL]: error parsing '' @ [39]
         @ cert @ [39] @ lit '' in cert path: '' @ why @ [c_nl]))"

lemma certificate_exit:
  "certificate_get result domain = Exit n why \<Longrightarrow> n = 1 \<and> certificate_message domain result why"
  by (auto simp: certificate_get_def certificate_message_def critical_def lit_def Let_def split: sum.splits)

lemma Connection_new_exit:
  assumes "Connection_new net address domain = Exit n why"
  shows "n = 1 \<and> certificate_message domain (net_certificate net) why"
proof -
  from assms have "certificate_get (net_certificate net) domain = Exit n why"
    unfolding Connection_new_def attempt_connection_form
    by (auto split: run.splits sum.splits option.splits prod.splits)
  then show ?thesis by (rule certificate_exit)
qed

lemma nodes_get_exit:
  assumes "nodes_get net nodes command acc = (Exit n why, dropped)"
  shows "n = 1 \<and> dropped = [] \<and> (\<exists>addr domain. (addr, domain) \<in> set nodes \<and>
    certificate_message domain (net_certificate (net (addr, domain))) why)"
proof -
  from nodes_get_outcome [where net = net and nodes = nodes and command = command and acc = acc] assms
  obtain before m rest where "nodes = before @ m # rest" "fails_with net command m (Exit n why)" "dropped = []"
    by auto
  with Connection_new_exit [of "net m" "fst m" "snd m" n why] show ?thesis by (cases m) auto
qed

text \<open>When the client returns from \<^verbatim>\<open>main\<close>, every node is told to delete its command.\<close>

lemma main_return_deletes:
  "\<forall>c \<in> set nodes. write_answers (conn_stream c) = [] \<Longrightarrow>
     map (\<lambda>c. sent (conn_stream c)) (main_return nodes)
     = map (\<lambda>c. sent (conn_stream c) @ as_bytes (lit ''del '' @ to_string (conn_command c) @ [c_cr, c_nl])) nodes"
  by (simp add: main_return_def drop_connection_def write_all_def)

text \<open>The client ends with the first thing that fails, and says so.\<close>

lemma start_fails:
  assumes "start disp config arguments net cores = (Exit n message, dropped)"
  shows "n = 1 \<and> ((\<exists>why. config = Inl why \<and> dropped = [] \<and> message = critical (show_config disp why))
    \<or> (\<exists>c why. config = Inr c \<and> arguments = Inl why \<and> dropped = [] \<and> message = critical (fmt_argument_error why))
    \<or> (\<exists>c a. config = Inr c \<and> arguments = Inr a \<and> dropped = []
        \<and> nodes_get net (config_nodes c) (arg_command a) [] = (Exit 1 message, [])
        \<and> (\<exists>addr domain. (addr, domain) \<in> set (config_nodes c) \<and>
             certificate_message domain (net_certificate (net (addr, domain))) message))
    \<or> (\<exists>c a why. config = Inr c \<and> arguments = Inr a
        \<and> nodes_get net (config_nodes c) (arg_command a) [] = (Done (Inl why), dropped)
        \<and> message = critical (lit ''connection error: '' @ fmt_connection_error (show_io disp) why)))"
  using assms unfolding start_def
  by (auto dest: nodes_get_exit split: sum.splits prod.splits run.splits)

text \<open>
  C27. The start of the client: when it goes on, every configured node is connected, in order
  and with nothing dropped, each has as many slots as the cores it told, with the ID that
  it gave to the command, and the client has its own slots exactly if the configuration
  says so; \<^verbatim>\<open>main\<close> prints nothing unless it is verbose. Otherwise it exits with code 1 after the
  message about what failed first: the configuration, the arguments, the certificate of a
  node (in these three cases nothing is dropped) or the connecting to the nodes, which has
  dropped what it had opened; and it panics only if the configuration and the arguments
  are right and the connecting panics.
\<close>

theorem start_outcome:
  "case start disp config arguments net cores of
     (Done (locals, slots, source, err), dropped) \<Rightarrow> (\<exists>c a conns. config = Inr c \<and> arguments = Inr a
       \<and> nodes_get net (config_nodes c) (arg_command a) [] = (Done (Inr conns), []) \<and> dropped = []
       \<and> map (\<lambda>conn. (conn_address conn, conn_domain conn)) conns = config_nodes c
       \<and> source = arg_source a \<and> locals = (if config_flags c AND LOCHOST = 0 then 0 else cores)
       \<and> slots = concat (map (\<lambda>conn. replicate (unat (conn_cores conn))
           (conn_address conn, conn_domain conn, conn_command conn)) conns)
       \<and> (config_flags c AND VERBOSE = 0 \<longrightarrow> err = []))
   | (Exit n message, dropped) \<Rightarrow> n = 1
       \<and> ((\<exists>why. config = Inl why \<and> dropped = [] \<and> message = critical (show_config disp why))
       \<or> (\<exists>c why. config = Inr c \<and> arguments = Inl why \<and> dropped = [] \<and> message = critical (fmt_argument_error why))
       \<or> (\<exists>c a. config = Inr c \<and> arguments = Inr a \<and> dropped = []
           \<and> nodes_get net (config_nodes c) (arg_command a) [] = (Exit 1 message, [])
           \<and> (\<exists>addr domain. (addr, domain) \<in> set (config_nodes c) \<and>
                certificate_message domain (net_certificate (net (addr, domain))) message))
       \<or> (\<exists>c a why. config = Inr c \<and> arguments = Inr a
           \<and> nodes_get net (config_nodes c) (arg_command a) [] = (Done (Inl why), dropped)
           \<and> message = critical (lit ''connection error: '' @ fmt_connection_error (show_io disp) why)))
   | (Panic, dropped) \<Rightarrow> (\<exists>c a. config = Inr c \<and> arguments = Inr a
       \<and> nodes_get net (config_nodes c) (arg_command a) [] = (Panic, dropped))"
proof (cases "start disp config arguments net cores")
  case (Pair r dropped)
  show ?thesis
  proof (cases r)
    case (Exit n message)
    with Pair start_fails show ?thesis by (simp only: prod.case run.case)
  next
    case Panic
    with Pair show ?thesis by (auto simp: start_def split: sum.splits prod.splits run.splits)
  next
    case (Done x)
    with Pair obtain c a conns where
      s: "config = Inr c" "arguments = Inr a" "nodes_get net (config_nodes c) (arg_command a) [] = (Done (Inr conns), dropped)"
      and x: "x = (local_slots_of (config_flags c) cores, remote_slots_of conns, arg_source a,
        announce_local (config_flags c) cores @ announce_remote disp (config_flags c) conns)"
      by (auto simp: start_def split: sum.splits prod.splits run.splits)
    have "list_all (joins net (arg_command a)) (config_nodes c) \<and> dropped = []
        \<and> conns = concat (map (opened_by net (arg_command a)) (config_nodes c))"
      using nodes_get_outcome [where acc = "[]" and net = net and nodes = "config_nodes c"
          and command = "arg_command a"] s(3) by simp
    then have "dropped = [] \<and> map (\<lambda>conn. (conn_address conn, conn_domain conn)) conns = config_nodes c"
      using opened_by_nodes by blast
    with s have "\<exists>c a conns. config = Inr c \<and> arguments = Inr a
       \<and> nodes_get net (config_nodes c) (arg_command a) [] = (Done (Inr conns), []) \<and> dropped = []
       \<and> map (\<lambda>conn. (conn_address conn, conn_domain conn)) conns = config_nodes c
       \<and> fst (snd (snd x)) = arg_source a \<and> fst x = (if config_flags c AND LOCHOST = 0 then 0 else cores)
       \<and> fst (snd x) = concat (map (\<lambda>conn. replicate (unat (conn_cores conn))
           (conn_address conn, conn_domain conn, conn_command conn)) conns)
       \<and> (config_flags c AND VERBOSE = 0 \<longrightarrow> snd (snd (snd x)) = [])"
      using x announce_quiet [of "config_flags c" cores disp conns] by (simp add: local_slots_of_def remote_slots_of_def)
    moreover obtain locals slots source err where "x = (locals, slots, source, err)" by (cases x)
    ultimately show ?thesis unfolding Pair Done by (simp only: prod.case run.case fst_conv snd_conv)
  qed
qed

theorem start_outcome_witness:
  "\<exists>disp net dropped err. start (disp :: (nat, nat) displays)
       (Inr \<lparr>config_nodes = [], config_flags = LOCHOST\<rparr>) (Inr \<lparr>arg_command = lit ''ls'', arg_source = RedirPipe\<rparr>)
       (net :: nat \<times> rstr \<Rightarrow> (unit, unit, unit) node_net) 4 = (Done (4, [], RedirPipe :: rstr args_source, err), dropped)
    \<and> dropped = [] \<and> err = []"
proof -
  let ?disp = "\<lparr>show_config = (\<lambda>_. []), show_io = (\<lambda>_. []), show_address = (\<lambda>_. [])\<rparr> :: (nat, nat) displays"
  let ?net = "(\<lambda>_. demo_net) :: nat \<times> rstr \<Rightarrow> (unit, unit, unit) node_net"
  let ?start = "start ?disp (Inr \<lparr>config_nodes = [], config_flags = LOCHOST\<rparr>)
    (Inr \<lparr>arg_command = lit ''ls'', arg_source = RedirPipe :: rstr args_source\<rparr>) ?net 4"
  obtain dropped err where s: "?start = (Done (4, [], RedirPipe, err), dropped)"
    by (simp add: start_def local_slots_of_def remote_slots_of_def LOCHOST_def)
  have "LOCHOST AND VERBOSE = 0" by (simp add: LOCHOST_def VERBOSE_def)
  with start_outcome [where disp = ?disp and config = "Inr \<lparr>config_nodes = [], config_flags = LOCHOST\<rparr>"
      and arguments = "Inr \<lparr>arg_command = lit ''ls'', arg_source = RedirPipe :: rstr args_source\<rparr>" and net = ?net
      and cores = 4] s
  have "dropped = [] \<and> err = []" by simp
  with s show ?thesis by blast
qed

text \<open>
  The time is printed wrongly: what the message gives for a twentieth of a second is more
  than what it gives for four tenths.
\<close>

lemma processed_time:
  "processed 1 0 50000000 = info (lit ''processed 1 inputs within 0.50s'')"
  "processed 1 0 400000000 = info (lit ''processed 1 inputs within 0.400s'')"
  by (simp_all add: processed_def to_string_def digits.simps lit_def)

end
