(* ===== verification/Tokenizer.thy ===== *)
theory Tokenizer
  imports Rust_Std
begin

unbundle bit_operations_syntax

text \<open>
  The command tokenizer, \<^verbatim>\<open>src/shared/tokenizer.rs\<close>. A command is text with the
  placeholders \<^verbatim>\<open>{}\<close>, \<^verbatim>\<open>{%}\<close> and \<^verbatim>\<open>{#}\<close>. The code scans the characters with
  their byte offsets, remembers where the pending text starts and cuts slices out of the
  input; the scan here does the same, and a slice that Rust would panic on is \<open>None\<close>. The
  second half gives an automaton over characters, without offsets, proves the scan equal
  to it, and derives the laws of parsing and printing from the automaton.
\<close>

section \<open>The code\<close>

datatype token = Placeholder | Slot | Job | Text rstr

record Tokens =
  tokens :: "token list"

definition PLACE :: u8 where [eval_defs]: "PLACE = 1"
definition OPEN :: u8 where [eval_defs]: "OPEN = 2"

text \<open>The local variables of \<^verbatim>\<open>Tokens::new\<close>: \<^verbatim>\<open>tokens\<close>, \<^verbatim>\<open>start\<close> and \<^verbatim>\<open>flags\<close>.\<close>

record scan =
  sc_toks :: "token list"
  sc_start :: nat
  sc_flags :: u8

text \<open>
  One turn of the loop for a character that is not a backslash; the arms of the
  \<^verbatim>\<open>match\<close> in their order.
\<close>

definition scan_step :: "rstr \<Rightarrow> nat \<Rightarrow> rchar \<Rightarrow> scan \<Rightarrow> scan option" where [eval_defs]:
  "scan_step input i c st =
     (if c = c_open \<and> sc_flags st AND OPEN = 0 then
        (let st = st\<lparr>sc_flags := sc_flags st OR OPEN\<rparr>
         in if sc_start st \<noteq> i
            then map_option (\<lambda>t. st\<lparr>sc_toks := sc_toks st @ [Text t], sc_start := i\<rparr>)
                   (str_slice input (sc_start st) i)
            else Some st)
      else if c = c_close \<and> sc_flags st AND OPEN \<noteq> 0 then
        (let st = st\<lparr>sc_flags := sc_flags st XOR OPEN\<rparr>
         in map_option
              (\<lambda>t. if t = lit ''{}'' then
                     st\<lparr>sc_toks := sc_toks st @ [Placeholder], sc_flags := sc_flags st OR PLACE, sc_start := i + 1\<rparr>
                   else if t = lit ''{%}'' then st\<lparr>sc_toks := sc_toks st @ [Slot], sc_start := i + 1\<rparr>
                   else if t = lit ''{#}'' then st\<lparr>sc_toks := sc_toks st @ [Job], sc_start := i + 1\<rparr>
                   else st)
              (str_slice input (sc_start st) (i + 1)))
      else Some st)"

text \<open>The loop over \<^verbatim>\<open>char_indices\<close>; a backslash also consumes the character behind it.\<close>

fun scan_chars :: "rstr \<Rightarrow> (nat \<times> rchar) list \<Rightarrow> scan \<Rightarrow> scan option" where
  "scan_chars input [] st = Some st"
| "scan_chars input ((i, c) # chars) st =
     (if c = c_backslash then scan_chars input (drop 1 chars) st
      else Option.bind (scan_step input i c st) (scan_chars input chars))"

text \<open>The block after the scan that appends a placeholder where none was given.\<close>

definition append_placeholder :: "token list \<Rightarrow> token list" where [eval_defs]:
  "append_placeholder ts =
     (if ts = [] then [Placeholder]
      else case last ts of
             Text s \<Rightarrow> butlast ts @ [Text (s @ lit '' ''), Placeholder]
           | _ \<Rightarrow> ts @ [Text (lit '' ''), Placeholder])"

definition finish_scan :: "rstr \<Rightarrow> scan \<Rightarrow> Tokens option" where [eval_defs]:
  "finish_scan input st =
     map_option
       (\<lambda>ts. \<lparr>tokens = (if sc_flags st AND PLACE = 0 then append_placeholder ts else ts)\<rparr>)
       (if sc_start st \<noteq> str_len input
        then map_option (\<lambda>t. sc_toks st @ [Text t]) (slice_from input (sc_start st))
        else Some (sc_toks st))"

text \<open>\<^verbatim>\<open>Tokens::new\<close>; \<open>None\<close> would be a panic in a slice.\<close>

definition Tokens_new :: "rstr \<Rightarrow> Tokens option" where [eval_defs]:
  "Tokens_new input =
     Option.bind (scan_chars input (char_indices input) \<lparr>sc_toks = [], sc_start = 0, sc_flags = 0\<rparr>)
       (finish_scan input)"

text \<open>\<^verbatim>\<open>Display for Tokens\<close>.\<close>

fun show_token :: "token \<Rightarrow> rstr" where
  "show_token Placeholder = lit ''{}''"
| "show_token Slot = lit ''{%}''"
| "show_token Job = lit ''{#}''"
| "show_token (Text s) = s"

fun show_tokens :: "rstr \<Rightarrow> token list \<Rightarrow> rstr" where
  "show_tokens out [] = out"
| "show_tokens out (t # ts) = show_tokens (out @ show_token t) ts"

definition Tokens_fmt :: "Tokens \<Rightarrow> rstr" where [eval_defs]:
  "Tokens_fmt t = show_tokens [] (tokens t)"

lemma show_tokens_concat: "show_tokens out ts = out @ concat (map show_token ts)"
  by (induction ts arbitrary: out) auto

section \<open>The automaton\<close>

text \<open>
  The reference: a state keeps the tokens found, the pending text, whether a brace is
  open and whether the next character is escaped.
\<close>

record auto =
  found :: "token list"
  pend :: rstr
  opened :: bool
  escaped :: bool

definition flush :: "rstr \<Rightarrow> token list" where [eval_defs]:
  "flush s = (if s = [] then [] else [Text s])"

definition token_of :: "rstr \<Rightarrow> token option" where [eval_defs]:
  "token_of s =
     (if s = lit ''{}'' then Some Placeholder
      else if s = lit ''{%}'' then Some Slot
      else if s = lit ''{#}'' then Some Job else None)"

definition auto_step :: "auto \<Rightarrow> rchar \<Rightarrow> auto" where
  "auto_step a c =
     (if escaped a then a\<lparr>pend := pend a @ [c], escaped := False\<rparr>
      else if c = c_backslash then a\<lparr>pend := pend a @ [c], escaped := True\<rparr>
      else if c = c_open \<and> \<not> opened a then
        a\<lparr>found := found a @ flush (pend a), pend := [c], opened := True\<rparr>
      else if c = c_close \<and> opened a then
        (case token_of (pend a @ [c]) of
           Some t \<Rightarrow> a\<lparr>found := found a @ [t], pend := [], opened := False\<rparr>
         | None \<Rightarrow> a\<lparr>pend := pend a @ [c], opened := False\<rparr>)
      else a\<lparr>pend := pend a @ [c]\<rparr>)"

definition auto_init :: auto where
  "auto_init = \<lparr>found = [], pend = [], opened = False, escaped = False\<rparr>"

definition auto_run :: "auto \<Rightarrow> rstr \<Rightarrow> auto" where
  "auto_run = foldl auto_step"

definition close_tokens :: "token list \<Rightarrow> token list" where
  "close_tokens ts = (if Placeholder \<in> set ts then ts else append_placeholder ts)"

definition auto_tokens :: "auto \<Rightarrow> token list" where
  "auto_tokens a = found a @ flush (pend a)"

lemma auto_run_simps [simp]:
  "auto_run a [] = a"
  "auto_run a (c # s) = auto_run (auto_step a c) s"
  "auto_run a (s @ t) = auto_run (auto_run a s) t"
  by (simp_all add: auto_run_def)

section \<open>The scan is the automaton\<close>

definition shown :: "token list \<Rightarrow> rstr" where
  "shown ts = concat (map show_token ts)"

lemma shown_simps [simp]:
  "shown [] = []" "shown (t # ts) = show_token t @ shown ts" "shown (ts @ us) = shown ts @ shown us"
  by (simp_all add: shown_def)

lemma shown_flush [simp]: "shown (flush s) = s"
  by (simp add: flush_def)

lemma show_token_of: "token_of s = Some t \<Longrightarrow> show_token t = s"
  by (auto simp: token_of_def split: if_splits)

text \<open>The flag byte that stands for the two booleans of the scan.\<close>

definition enc_flags :: "bool \<Rightarrow> bool \<Rightarrow> u8" where
  "enc_flags op pl = (if op then 2 else 0) OR (if pl then 1 else 0)"

lemma enc_flags_simps [simp]:
  "enc_flags op pl AND OPEN = 0 \<longleftrightarrow> \<not> op"
  "enc_flags op pl AND PLACE = 0 \<longleftrightarrow> \<not> pl"
  "enc_flags op pl OR OPEN = enc_flags True pl"
  "enc_flags op pl OR PLACE = enc_flags op True"
  "enc_flags True pl XOR OPEN = enc_flags False pl"
  by (cases op; cases pl; simp add: enc_flags_def OPEN_def PLACE_def)+

definition scan_of :: "auto \<Rightarrow> scan" where
  "scan_of a = \<lparr>sc_toks = found a, sc_start = str_len (shown (found a)),
                sc_flags = enc_flags (opened a) (Placeholder \<in> set (found a))\<rparr>"

text \<open>What the automaton has read is what its tokens and pending text show.\<close>

definition auto_read :: "auto \<Rightarrow> rstr" where
  "auto_read a = shown (found a) @ pend a"

lemma auto_read_step [simp]: "auto_read (auto_step a c) = auto_read a @ [c]"
  by (auto simp: auto_read_def auto_step_def dest: show_token_of split: option.splits)

lemma auto_read_run [simp]: "auto_read (auto_run a s) = auto_read a @ s"
  by (induction s arbitrary: a) auto

lemma auto_read_init [simp]: "auto_read auto_init = []"
  by (simp add: auto_read_def auto_init_def)

lemma shown_auto_tokens: "shown (auto_tokens a) = auto_read a"
  by (simp add: auto_tokens_def auto_read_def)

text \<open>One turn of the scan follows the automaton.\<close>

lemma scan_step_auto:
  assumes "\<not> escaped a" "c \<noteq> c_backslash" "input = auto_read a @ c # r"
  shows "scan_step input (str_len (auto_read a)) c (scan_of a) = Some (scan_of (auto_step a c))"
proof -
  have pend: "str_slice input (str_len (shown (found a))) (str_len (auto_read a)) = Some (pend a)"
    using str_slice_append [of "shown (found a)" "pend a" "c # r"] assms(3)
    by (simp add: auto_read_def)
  have close: "str_slice input (str_len (shown (found a))) (Suc (str_len (auto_read a)))
      = Some (pend a @ [c])" if "c = c_close"
  proof -
    have "input = shown (found a) @ (pend a @ [c]) @ r"
      using assms(3) by (simp add: auto_read_def)
    moreover have "Suc (str_len (auto_read a)) = str_len (shown (found a)) + str_len (pend a @ [c])"
      using that by (simp add: auto_read_def len_utf8_def)
    ultimately show ?thesis by (simp only: str_slice_append)
  qed
  have diff: "str_len (shown (found a)) \<noteq> str_len (auto_read a) \<longleftrightarrow> pend a \<noteq> []"
    by (simp add: auto_read_def)
  consider (op) "c = c_open" "\<not> opened a" | (cl) "c = c_close" "opened a"
    | (other) "\<not> (c = c_open \<and> \<not> opened a)" "\<not> (c = c_close \<and> opened a)" by blast
  then show ?thesis
  proof cases
    case op
    with assms pend diff show ?thesis
      by (auto simp: scan_step_def scan_of_def auto_step_def flush_def auto_read_def)
  next
    case cl
    have "len_utf8 c_close = 1" by (simp add: len_utf8_def)
    with cl assms close show ?thesis
      by (auto simp: scan_step_def scan_of_def auto_step_def token_of_def auto_read_def lit_def)
  next
    case other
    with assms show ?thesis
      by (auto simp: scan_step_def scan_of_def auto_step_def)
  qed
qed

text \<open>The loop follows it over any rest of the input; an escape takes two characters.\<close>

lemma auto_step_found_escape:
  "\<not> escaped a \<Longrightarrow> found (auto_step a c_backslash) = found a
     \<and> opened (auto_step a c_backslash) = opened a \<and> escaped (auto_step a c_backslash)"
  "escaped a \<Longrightarrow> found (auto_step a c) = found a
     \<and> opened (auto_step a c) = opened a \<and> \<not> escaped (auto_step a c)"
  by (simp_all add: auto_step_def)

lemma scan_of_cong:
  "found a = found b \<Longrightarrow> opened a = opened b \<Longrightarrow> scan_of a = scan_of b"
  by (simp add: scan_of_def)

lemma auto_step_not_escaped: "\<not> escaped a \<Longrightarrow> c \<noteq> c_backslash \<Longrightarrow> \<not> escaped (auto_step a c)"
  by (auto simp: auto_step_def split: option.splits)

lemma scan_chars_auto:
  assumes "\<not> escaped a" "input = auto_read a @ r"
  shows "scan_chars input (char_indices_from (str_len (auto_read a)) r) (scan_of a)
         = Some (scan_of (auto_run a r))"
  using assms
proof (induction "length r" arbitrary: a r rule: less_induct)
  case less
  show ?case
  proof (cases r)
    case Nil
    then show ?thesis by simp
  next
    case (Cons c s)
    show ?thesis
    proof (cases "c = c_backslash")
      case False
      with less.prems Cons have "scan_step input (str_len (auto_read a)) c (scan_of a)
          = Some (scan_of (auto_step a c))"
        by (intro scan_step_auto) auto
      moreover have "scan_chars input (char_indices_from (str_len (auto_read (auto_step a c))) s)
          (scan_of (auto_step a c)) = Some (scan_of (auto_run (auto_step a c) s))"
        using less Cons False by (intro less.hyps) (auto simp: auto_step_not_escaped)
      ultimately show ?thesis using Cons False by simp
    next
      case bs: True
      show ?thesis
      proof (cases s)
        case Nil
        have "scan_of (auto_step a c_backslash) = scan_of a"
          using less.prems(1) by (intro scan_of_cong) (auto simp: auto_step_found_escape)
        with Nil Cons bs show ?thesis by simp
      next
        case (Cons d u)
        let ?b = "auto_step (auto_step a c_backslash) d"
        have b: "scan_of ?b = scan_of a" "\<not> escaped ?b"
          using less.prems(1) by (auto intro!: scan_of_cong simp: auto_step_found_escape)
        have "scan_chars input (char_indices_from (str_len (auto_read ?b)) u) (scan_of ?b)
            = Some (scan_of (auto_run ?b u))"
          using less.prems b(2) Cons \<open>r = c # s\<close> bs by (intro less.hyps) auto
        with Cons \<open>r = c # s\<close> bs b(1) show ?thesis by (simp add: add.assoc)
      qed
    qed
  qed
qed

lemma placeholder_flush [simp]: "Placeholder \<notin> set (flush s)"
  by (simp add: flush_def)

lemma finish_scan_auto:
  assumes "auto_read a = input"
  shows "finish_scan input (scan_of a) = Some \<lparr>tokens = close_tokens (auto_tokens a)\<rparr>"
proof (cases "pend a = []")
  case True
  with assms show ?thesis
    by (auto simp: finish_scan_def scan_of_def auto_read_def auto_tokens_def flush_def
        close_tokens_def)
next
  case False
  moreover have "slice_from input (str_len (shown (found a))) = Some (pend a)"
    using assms by (auto simp: auto_read_def)
  moreover have "str_len (shown (found a)) \<noteq> str_len input"
    using assms False by (auto simp: auto_read_def)
  ultimately show ?thesis
    by (auto simp: finish_scan_def scan_of_def auto_tokens_def flush_def close_tokens_def)
qed

lemma Tokens_new_auto:
  "Tokens_new s = Some \<lparr>tokens = close_tokens (auto_tokens (auto_run auto_init s))\<rparr>"
proof -
  have "scan_of auto_init = \<lparr>sc_toks = [], sc_start = 0, sc_flags = 0\<rparr>"
    by (simp add: scan_of_def auto_init_def enc_flags_def)
  moreover have "scan_chars s (char_indices_from (str_len (auto_read auto_init)) s)
      (scan_of auto_init) = Some (scan_of (auto_run auto_init s))"
    by (rule scan_chars_auto) (auto simp: auto_init_def auto_read_def)
  ultimately show ?thesis
    by (simp add: Tokens_new_def char_indices_def finish_scan_auto)
qed

section \<open>Printing and parsing\<close>

lemma Tokens_fmt_shown [simp]: "Tokens_fmt t = shown (tokens t)"
  by (simp add: Tokens_fmt_def show_tokens_concat shown_def)

lemma shown_append_placeholder:
  "shown (append_placeholder ts) = (if ts = [] then lit ''{}'' else shown ts @ lit '' {}'')"
proof (cases ts rule: rev_cases)
  case Nil
  then show ?thesis by (simp add: append_placeholder_def)
next
  case (snoc us t)
  then show ?thesis by (cases t) (simp_all add: append_placeholder_def lit_def)
qed

lemma placeholder_append_placeholder [simp]: "Placeholder \<in> set (append_placeholder ts)"
  by (auto simp: append_placeholder_def split: token.split)

lemma placeholder_close_tokens [simp]: "Placeholder \<in> set (close_tokens ts)"
  by (simp add: close_tokens_def)

definition no_empty_text :: "token list \<Rightarrow> bool" where
  "no_empty_text ts \<longleftrightarrow> Text [] \<notin> set ts"

lemma no_empty_text_close: "no_empty_text ts \<Longrightarrow> no_empty_text (close_tokens ts)"
proof (cases ts rule: rev_cases)
  case Nil
  then show ?thesis by (simp add: close_tokens_def append_placeholder_def no_empty_text_def)
next
  case (snoc us t)
  then show "no_empty_text ts \<Longrightarrow> no_empty_text (close_tokens ts)"
    by (cases t) (auto simp: close_tokens_def append_placeholder_def no_empty_text_def lit_def)
qed

lemma no_empty_text_step: "no_empty_text (found a) \<Longrightarrow> no_empty_text (found (auto_step a c))"
  by (auto simp: auto_step_def no_empty_text_def flush_def token_of_def split: option.splits if_splits)

lemma no_empty_text_run: "no_empty_text (found a) \<Longrightarrow> no_empty_text (found (auto_run a s))"
  by (induction s arbitrary: a) (auto intro: no_empty_text_step)

lemma no_empty_text_tokens: "no_empty_text (auto_tokens (auto_run auto_init s))"
  using no_empty_text_run [of auto_init s]
  by (auto simp: auto_tokens_def no_empty_text_def flush_def auto_init_def)

lemma shown_nonempty: "no_empty_text ts \<Longrightarrow> shown ts = [] \<longleftrightarrow> ts = []"
proof (cases ts)
  case Nil
  then show ?thesis by simp
next
  case (Cons t us)
  then show "no_empty_text ts \<Longrightarrow> shown ts = [] \<longleftrightarrow> ts = []"
    by (cases t) (auto simp: no_empty_text_def lit_def)
qed

definition scan_init :: scan where [eval_defs]:
  "scan_init = \<lparr>sc_toks = [], sc_start = 0, sc_flags = 0\<rparr>"

lemma scan_chars_init:
  "scan_chars s (char_indices s) scan_init = Some (scan_of (auto_run auto_init s))"
proof -
  have "scan_of auto_init = scan_init"
    by (simp add: scan_of_def auto_init_def enc_flags_def scan_init_def)
  moreover have "scan_chars s (char_indices_from (str_len (auto_read auto_init)) s)
      (scan_of auto_init) = Some (scan_of (auto_run auto_init s))"
    by (rule scan_chars_auto) (auto simp: auto_init_def auto_read_def)
  ultimately show ?thesis by (simp add: char_indices_def)
qed

lemma flags_scan_of [simp]:
  "sc_flags (scan_of a) AND PLACE = 0 \<longleftrightarrow> Placeholder \<notin> set (auto_tokens a)"
  "sc_flags (scan_of a) AND OPEN = 0 \<longleftrightarrow> \<not> opened a"
  by (simp_all add: scan_of_def auto_tokens_def)

text \<open>
  C4. Tokenizing never panics, always yields a placeholder and never an empty text, and
  printing the tokens gives the command back: exactly the command where the scan met a
  placeholder, otherwise the command with \<^verbatim>\<open> {}\<close> appended (\<^verbatim>\<open>{}\<close> alone for the
  empty command).
\<close>

theorem tokens_print_parse:
  "\<exists>st t. scan_chars s (char_indices s) scan_init = Some st \<and> Tokens_new s = Some t
     \<and> Placeholder \<in> set (tokens t) \<and> Text [] \<notin> set (tokens t)
     \<and> Tokens_fmt t = (if sc_flags st AND PLACE \<noteq> 0 then s
                       else if s = [] then lit ''{}'' else s @ lit '' {}'')"
proof -
  let ?ts = "auto_tokens (auto_run auto_init s)"
  have ne: "no_empty_text ?ts" by (rule no_empty_text_tokens)
  moreover have "shown ?ts = s" by (simp add: shown_auto_tokens)
  ultimately have "?ts = [] \<longleftrightarrow> s = []"
    using shown_nonempty [OF ne] by simp
  with \<open>shown ?ts = s\<close> have "shown (close_tokens ?ts) = (if Placeholder \<in> set ?ts then s
      else if s = [] then lit ''{}'' else s @ lit '' {}'')"
    by (simp add: close_tokens_def shown_append_placeholder)
  with no_empty_text_close [OF ne] show ?thesis
    by (simp add: scan_chars_init Tokens_new_auto no_empty_text_def)
qed

text \<open>Plain text and whole tokens, as the automaton reads them.\<close>

definition plain :: "rstr \<Rightarrow> bool" where
  "plain s \<longleftrightarrow> c_backslash \<notin> set s \<and> c_open \<notin> set s"

lemma auto_run_plain:
  "plain s \<Longrightarrow> \<not> escaped a \<Longrightarrow> \<not> opened a \<Longrightarrow> auto_run a s = a\<lparr>pend := pend a @ s\<rparr>"
  by (induction s arbitrary: a) (auto simp: plain_def auto_step_def)

lemma auto_run_token:
  assumes "\<not> escaped a" "\<not> opened a" "\<forall>s. t \<noteq> Text s"
  shows "auto_run a (show_token t)
    = a\<lparr>found := found a @ flush (pend a) @ [t], pend := [], opened := False\<rparr>"
  using assms by (cases t) (auto simp: auto_step_def token_of_def lit_def)

text \<open>
  Canonical token lists: a placeholder, and texts that are plain, not empty and never
  two in a row (\<open>after_text\<close> tells whether a text comes right before).
\<close>

fun canonical :: "bool \<Rightarrow> token list \<Rightarrow> bool" where
  "canonical after_text [] = True"
| "canonical after_text (Text s # ts) = (\<not> after_text \<and> s \<noteq> [] \<and> plain s \<and> canonical True ts)"
| "canonical after_text (t # ts) = canonical False ts"

lemma canonical_token: "\<forall>s. t \<noteq> Text s \<Longrightarrow> canonical b (t # ts) = canonical False ts"
  by (cases t) auto

lemma auto_run_canonical:
  assumes "canonical (pend a \<noteq> []) ts" "\<not> escaped a" "\<not> opened a"
  shows "auto_tokens (auto_run a (shown ts)) = auto_tokens a @ ts
    \<and> \<not> escaped (auto_run a (shown ts)) \<and> \<not> opened (auto_run a (shown ts))"
  using assms
proof (induction ts arbitrary: a)
  case Nil
  then show ?case by simp
next
  case (Cons t ts)
  show ?case
  proof (cases "\<exists>s. t = Text s")
    case True
    then obtain s where t: "t = Text s" ..
    let ?a = "a\<lparr>pend := s\<rparr>"
    from Cons.prems t have s: "pend a = []" "s \<noteq> []" "plain s" "canonical True ts" by auto
    have "auto_tokens (auto_run ?a (shown ts)) = auto_tokens ?a @ ts
        \<and> \<not> escaped (auto_run ?a (shown ts)) \<and> \<not> opened (auto_run ?a (shown ts))"
      using Cons.prems s by (intro Cons.IH) auto
    with t s Cons.prems show ?thesis
      by (simp add: auto_run_plain auto_tokens_def flush_def)
  next
    case False
    let ?a = "a\<lparr>found := found a @ flush (pend a) @ [t], pend := [], opened := False\<rparr>"
    have "auto_tokens (auto_run ?a (shown ts)) = auto_tokens ?a @ ts
        \<and> \<not> escaped (auto_run ?a (shown ts)) \<and> \<not> opened (auto_run ?a (shown ts))"
      using Cons.prems False by (intro Cons.IH) (auto simp: canonical_token)
    with False Cons.prems show ?thesis
      by (simp add: auto_run_token auto_tokens_def flush_def)
  qed
qed

lemma auto_tokens_canonical:
  "canonical False ts \<Longrightarrow> auto_tokens (auto_run auto_init (shown ts)) = ts"
  using auto_run_canonical [of auto_init ts]
  by (simp add: auto_init_def auto_tokens_def flush_def)

text \<open>
  C20. Parsing a printed token list gives the token list back, for every canonical list with
  a placeholder: its texts have neither a backslash nor an open brace, none is empty and no
  two are adjacent.
\<close>

theorem tokens_parse_print:
  assumes "canonical False ts" "Placeholder \<in> set ts"
  shows "Tokens_new (Tokens_fmt \<lparr>tokens = ts\<rparr>) = Some \<lparr>tokens = ts\<rparr>"
  using assms by (simp add: Tokens_new_auto close_tokens_def auto_tokens_canonical)

theorem tokens_parse_print_witness:
  "Tokens_new (Tokens_fmt \<lparr>tokens = [Text (lit ''echo ''), Job, Text (lit '': ''), Placeholder]\<rparr>)
     = Some \<lparr>tokens = [Text (lit ''echo ''), Job, Text (lit '': ''), Placeholder]\<rparr>"
  by (rule tokens_parse_print) (simp_all add: lit_def plain_def)

text \<open>No text token is last while the pending text is empty.\<close>

definition text_pending :: "auto \<Rightarrow> bool" where
  "text_pending a \<longleftrightarrow> (pend a = [] \<longrightarrow> found a = [] \<or> (\<forall>s. last (found a) \<noteq> Text s))"

lemma text_pending_step: "text_pending a \<Longrightarrow> text_pending (auto_step a c)"
  by (auto simp: text_pending_def auto_step_def token_of_def split: option.splits if_splits)

lemma text_pending_run: "text_pending a \<Longrightarrow> text_pending (auto_run a s)"
  by (induction s arbitrary: a) (auto intro: text_pending_step)

lemma text_pending_init [simp]: "text_pending auto_init"
  by (simp add: text_pending_def auto_init_def)

lemma auto_run_tail:
  "\<not> opened a \<Longrightarrow> auto_tokens (auto_run a (lit '' {}''))
     = found a @ [Text (pend a @ lit '' ''), Placeholder]"
  by (cases "escaped a") (auto simp: auto_tokens_def lit_def auto_step_def flush_def token_of_def)

lemma append_placeholder_auto:
  assumes "text_pending a" "auto_tokens a \<noteq> []"
  shows "append_placeholder (auto_tokens a) = found a @ [Text (pend a @ lit '' ''), Placeholder]"
proof (cases "pend a = []")
  case True
  with assms have "found a \<noteq> []" "\<forall>s. last (found a) \<noteq> Text s"
    by (auto simp: auto_tokens_def flush_def text_pending_def)
  with True show ?thesis
    by (auto simp: auto_tokens_def flush_def append_placeholder_def split: token.split)
next
  case False
  then show ?thesis by (simp add: auto_tokens_def append_placeholder_def flush_def)
qed

text \<open>
  Where the scan of a command leaves no brace open, the printed tokens parse to the
  same tokens again: the appended placeholder is stable.
\<close>

theorem tokens_reparse:
  assumes "scan_chars s (char_indices s) scan_init = Some st" "sc_flags st AND OPEN = 0"
    and "Tokens_new s = Some t"
  shows "Tokens_new (Tokens_fmt t) = Some t"
proof -
  let ?a = "auto_run auto_init s" and ?ts = "auto_tokens (auto_run auto_init s)"
  from assms have op: "\<not> opened ?a" and t: "tokens t = close_tokens ?ts"
    by (auto simp: scan_chars_init Tokens_new_auto)
  have s: "shown ?ts = s" by (simp add: shown_auto_tokens)
  consider "Placeholder \<in> set ?ts" | "?ts = []" | "Placeholder \<notin> set ?ts" "?ts \<noteq> []" by blast
  then show ?thesis
  proof cases
    case 1
    with assms(3) s t show ?thesis by (simp add: close_tokens_def)
  next
    case 2
    with t have "tokens t = [Placeholder]"
      by (simp add: close_tokens_def append_placeholder_def)
    then show ?thesis
      using auto_tokens_canonical [of "[Placeholder]"]
      by (cases t) (simp add: Tokens_new_auto close_tokens_def)
  next
    case 3
    with op have "auto_tokens (auto_run ?a (lit '' {}'')) = append_placeholder ?ts"
      by (simp add: auto_run_tail append_placeholder_auto text_pending_run)
    with 3 s t show ?thesis
      by (cases t) (simp add: Tokens_new_auto close_tokens_def shown_append_placeholder)
  qed
qed

theorem tokens_reparse_witness:
  "Tokens_new (Tokens_fmt \<lparr>tokens = [Text (lit ''ls '' ), Placeholder]\<rparr>)
     = Some \<lparr>tokens = [Text (lit ''ls ''), Placeholder]\<rparr>"
  by (rule tokens_reparse [of "lit ''ls''" "\<lparr>sc_toks = [], sc_start = 0, sc_flags = 0\<rparr>"])
    (simp_all add: eval_defs char_indices_def len_utf8_def slice_from_def)

text \<open>
  The unit test of the source, and a brace that is never closed: it swallows the
  placeholder behind it, which is then printed as text and appended a second time.
\<close>

lemma tokens_unit_test:
  "Tokens_new (lit ''echo {#}: {}'')
     = Some \<lparr>tokens = [Text (lit ''echo ''), Job, Text (lit '': ''), Placeholder]\<rparr>"
  "Tokens_new (lit ''echo {#}:'')
     = Some \<lparr>tokens = [Text (lit ''echo ''), Job, Text (lit '': ''), Placeholder]\<rparr>"
  by (simp_all add: Tokens_new_auto auto_tokens_def auto_init_def auto_step_def token_of_def
      flush_def lit_def close_tokens_def append_placeholder_def)

lemma tokens_lone_brace:
  "Tokens_new (lit ''echo { {}'') = Some \<lparr>tokens = [Text (lit ''echo ''), Text (lit ''{ {} ''), Placeholder]\<rparr>"
  by (simp add: Tokens_new_auto auto_tokens_def auto_init_def auto_step_def token_of_def
      flush_def lit_def close_tokens_def append_placeholder_def)

end
