(* ===== verification/Jobs.thy ===== *)
theory Jobs
  imports Tokenizer
begin

text \<open>
  The slots that run commands, \<^verbatim>\<open>src/shared/jobs.rs\<close>, and the two traits of
  \<^verbatim>\<open>src/shared/lib.rs\<close> they work through. A slot is a thread that polls the inputs,
  builds the command line from the tokens, runs it in a shell and inserts the outcome into
  the outputs, until the kill flag is set. The traits are the locales \<open>insert_job\<close> and
  \<open>insert_output\<close>; the client and the server interpret them on their own queues.
\<close>

section \<open>Results of a run\<close>

text \<open>
  A \<^verbatim>\<open>File\<close> made from the read end of a pipe is the bytes that can be read from it. What
  the operating system makes of a command line is outside the program: \<open>spawned\<close> is what
  \<^verbatim>\<open>spawn\<close> and \<^verbatim>\<open>wait\<close> report. \<open>SpawnErr\<close> is a failed spawn; in \<open>Child w out err\<close>,
  \<open>w\<close> is \<open>None\<close> for a failed wait, \<open>Some None\<close> for a child that left no exit code (a
  signal) and \<open>Some (Some c)\<close> for the \<^verbatim>\<open>i32\<close> exit code \<open>c\<close>.
\<close>

type_synonym file_t = "byte list"
type_synonym outcome = "(u8 \<times> file_t \<times> file_t) option"

datatype spawned = SpawnErr | Child "32 word option option" file_t file_t

text \<open>
  The shell, from the target system and \<^verbatim>\<open>SHELL\<close> in the environment, and the program and
  arguments of a run of \<open>line\<close>; a relation \<open>sh line r\<close> below says that this run can end
  with \<open>r\<close>.
\<close>

definition COMMAND :: "bool \<Rightarrow> rstr option \<Rightarrow> rstr \<times> rstr" where [eval_defs]:
  "COMMAND windows shell_var =
     (if windows then (lit ''cmd'', lit ''/C'')
      else ((case shell_var of Some sh \<Rightarrow> sh | None \<Rightarrow> lit ''/bin/sh''), lit ''-c''))"

definition shell_argv :: "rstr \<times> rstr \<Rightarrow> rstr \<Rightarrow> rstr list" where [eval_defs]:
  "shell_argv command line = [fst command, snd command, line]"

text \<open>\<^verbatim>\<open>child.wait().ok().map_or(1, |e| e.code().unwrap_or(1)) as u8\<close>\<close>

definition exit_status :: "32 word option option \<Rightarrow> u8" where [eval_defs]:
  "exit_status w = ucast (case w of None \<Rightarrow> 1 | Some e \<Rightarrow> (case e of None \<Rightarrow> 1 | Some c \<Rightarrow> c))"

text \<open>The \<^verbatim>\<open>match cmd\<close> at the end of a run: what is inserted into the outputs.\<close>

fun collect :: "spawned \<Rightarrow> outcome" where
  "collect (Child w pout perr) = Some (exit_status w, pout, perr)"
| "collect SpawnErr = None"

section \<open>The command line\<close>

text \<open>The \<^verbatim>\<open>for token in &command.tokens\<close> loop over the buffer.\<close>

fun fill :: "usize \<Rightarrow> usize \<Rightarrow> rstr \<Rightarrow> rstr \<Rightarrow> token list \<Rightarrow> rstr" where
  "fill sid jid input buffer [] = buffer"
| "fill sid jid input buffer (t # ts) =
     fill sid jid input
       (buffer @ (case t of
          Placeholder \<Rightarrow> input
        | Slot \<Rightarrow> to_string sid
        | Job \<Rightarrow> to_string jid
        | Text text \<Rightarrow> text)) ts"

definition render :: "Tokens \<Rightarrow> usize \<Rightarrow> usize \<Rightarrow> rstr \<Rightarrow> rstr" where [eval_defs]:
  "render cmd sid jid input = fill sid jid input [] (tokens cmd)"

definition token_value :: "usize \<Rightarrow> usize \<Rightarrow> rstr \<Rightarrow> token \<Rightarrow> rstr" where
  "token_value sid jid input t = (case t of Placeholder \<Rightarrow> input | Slot \<Rightarrow> to_string sid
     | Job \<Rightarrow> to_string jid | Text text \<Rightarrow> text)"

lemma fill_concat: "fill sid jid input buffer ts = buffer @ concat (map (token_value sid jid input) ts)"
  by (induction ts arbitrary: buffer) (auto simp: token_value_def)

lemma render_concat: "render cmd sid jid input = concat (map (token_value sid jid input) (tokens cmd))"
  by (simp add: render_def fill_concat)

section \<open>The slot\<close>

text \<open>
  What the slots of one command share, and the \<^verbatim>\<open>Job\<close> that holds it together with the
  number of slots and the command. The fields behind an \<^verbatim>\<open>Arc\<close> are the shared ones.
\<close>

record ('q, 'o) shared =
  inputs :: 'q
  outputs :: 'o
  kill :: bool
  parked :: usize

record ('q, 'o) job = "('q, 'o) shared" +
  slots :: usize
  command :: Tokens

text \<open>
  Where a slot thread stands: at the loop condition, past it and about to take a job
  (the sleep changes nothing), running a job, or returned.
\<close>

datatype slot_pc = Check | Poll | Running usize rstr | Parked

text \<open>
  One atomic action of \<^verbatim>\<open>slot_event\<close>. The operations of the two traits are arguments, as
  they are type parameters in the code; \<open>sh line r\<close> says that running \<open>line\<close> in the
  shell can end with \<open>r\<close>.
\<close>

inductive slot_event ::
  "('q \<Rightarrow> (usize \<times> rstr) option \<times> 'q) \<Rightarrow> ('o \<Rightarrow> usize \<Rightarrow> outcome \<Rightarrow> 'o)
   \<Rightarrow> (rstr \<Rightarrow> spawned \<Rightarrow> bool) \<Rightarrow> usize \<Rightarrow> Tokens
   \<Rightarrow> slot_pc \<times> ('q, 'o, 'z) shared_scheme \<Rightarrow> slot_pc \<times> ('q, 'o, 'z) shared_scheme \<Rightarrow> bool"
  for get_job insert sh sid cmd where
  enter: "\<not> kill s \<Longrightarrow> slot_event get_job insert sh sid cmd (Check, s) (Poll, s)"
| leave: "kill s \<Longrightarrow>
    slot_event get_job insert sh sid cmd (Check, s) (Parked, s\<lparr>parked := parked s + 1\<rparr>)"
| idle: "get_job (inputs s) = (None, q) \<Longrightarrow>
    slot_event get_job insert sh sid cmd (Poll, s) (Check, s\<lparr>inputs := q\<rparr>)"
| grab: "get_job (inputs s) = (Some (jid, input), q) \<Longrightarrow>
    slot_event get_job insert sh sid cmd (Poll, s) (Running jid input, s\<lparr>inputs := q\<rparr>)"
| finish: "sh (render cmd sid jid input) r \<Longrightarrow>
    slot_event get_job insert sh sid cmd (Running jid input, s)
      (Check, s\<lparr>outputs := insert (outputs s) jid (collect r)\<rparr>)"

inductive_cases slot_CheckE: "slot_event g ins sh sid cmd (Check, s) y"
inductive_cases slot_PollE: "slot_event g ins sh sid cmd (Poll, s) y"
inductive_cases slot_RunningE: "slot_event g ins sh sid cmd (Running jid input, s) y"
inductive_cases slot_ParkedE: "slot_event g ins sh sid cmd (Parked, s) y"

text \<open>
  The slots of one command: thread \<open>i\<close> runs \<^verbatim>\<open>slot_event\<close> with slot number \<open>sid i\<close>.
\<close>

inductive pool_step ::
  "('q \<Rightarrow> (usize \<times> rstr) option \<times> 'q) \<Rightarrow> ('o \<Rightarrow> usize \<Rightarrow> outcome \<Rightarrow> 'o)
   \<Rightarrow> (rstr \<Rightarrow> spawned \<Rightarrow> bool) \<Rightarrow> (nat \<Rightarrow> usize) \<Rightarrow> Tokens
   \<Rightarrow> slot_pc list \<times> ('q, 'o, 'z) shared_scheme \<Rightarrow> slot_pc list \<times> ('q, 'o, 'z) shared_scheme \<Rightarrow> bool"
  for get_job insert sh sid cmd where
  thread: "i < length ts \<Longrightarrow> slot_event get_job insert sh (sid i) cmd (ts ! i, s) (pc, s')
    \<Longrightarrow> pool_step get_job insert sh sid cmd (ts, s) (ts[i := pc], s')"

inductive_simps pool_step_iff: "pool_step g ins sh sid cmd (ts, s) (ts', s')"

section \<open>Stopping\<close>

text \<open>
  Once the kill flag is set, every action brings a thread closer to its end: there is no
  way back from the loop condition into the loop.
\<close>

fun pc_weight :: "slot_pc \<Rightarrow> nat" where
  "pc_weight Parked = 0"
| "pc_weight Check = 1"
| "pc_weight (Running jid input) = 2"
| "pc_weight Poll = 3"

definition pool_weight :: "slot_pc list \<Rightarrow> nat" where
  "pool_weight ts = sum_list (map pc_weight ts)"

definition num_parked :: "slot_pc list \<Rightarrow> nat" where
  "num_parked ts = length (filter (\<lambda>pc. pc = Parked) ts)"

lemma slot_event_kill: "slot_event g ins sh sid cmd (pc, s) (pc', s') \<Longrightarrow> kill s' = kill s"
  by (auto elim: slot_event.cases)

lemma slot_event_weight:
  "slot_event g ins sh sid cmd (pc, s) (pc', s') \<Longrightarrow> kill s \<Longrightarrow> pc_weight pc' < pc_weight pc"
  by (auto elim!: slot_event.cases)

lemma sum_list_update_less:
  "i < length xs \<Longrightarrow> f y < f (xs ! i) \<Longrightarrow> sum_list (map f (xs[i := y])) < (sum_list (map f xs) :: nat)"
proof (induction xs arbitrary: i)
  case Nil
  then show ?case by simp
next
  case (Cons x xs)
  then show ?case by (cases i) auto
qed

lemma pool_step_kill: "pool_step g ins sh sid cmd (ts, s) (ts', s') \<Longrightarrow> kill s' = kill s"
  by (auto simp: pool_step_iff dest: slot_event_kill)

lemma pool_step_weight:
  "pool_step g ins sh sid cmd (ts, s) (ts', s') \<Longrightarrow> kill s \<Longrightarrow> pool_weight ts' < pool_weight ts"
  by (auto simp: pool_step_iff pool_weight_def intro!: sum_list_update_less dest: slot_event_weight)

lemma pool_weight_le: "pool_weight ts \<le> 3 * length ts"
proof -
  have "pc_weight pc \<le> 3" for pc by (cases pc) auto
  then show ?thesis unfolding pool_weight_def
    by (induction ts) (auto intro: add_mono order_trans)
qed

text \<open>The parked counter counts the parked threads.\<close>

definition parked_ok :: "slot_pc list \<Rightarrow> ('q, 'o, 'z) shared_scheme \<Rightarrow> bool" where
  "parked_ok ts s \<longleftrightarrow> parked s = of_nat (num_parked ts)"

lemma num_parked_update:
  "i < length ts \<Longrightarrow> ts ! i \<noteq> Parked \<Longrightarrow>
     num_parked (ts[i := pc]) = num_parked ts + (if pc = Parked then 1 else 0)"
proof (induction ts arbitrary: i)
  case Nil
  then show ?case by simp
next
  case (Cons t ts)
  then show ?case by (cases i) (auto simp: num_parked_def)
qed

lemma slot_event_parked:
  "slot_event g ins sh sid cmd (pc, s) (pc', s') \<Longrightarrow>
     pc \<noteq> Parked \<and> parked s' = parked s + (if pc' = Parked then 1 else 0)"
  by (auto elim!: slot_event.cases)

lemma pool_step_parked_ok [inv_intros]:
  "pool_step g ins sh sid cmd (ts, s) (ts', s') \<Longrightarrow> parked_ok ts s \<Longrightarrow> parked_ok ts' s'"
  by (auto simp: pool_step_iff parked_ok_def num_parked_update dest!: slot_event_parked)

lemma num_parked_le: "num_parked ts \<le> length ts"
  by (simp add: num_parked_def)

lemma num_parked_all: "num_parked ts = length ts \<longleftrightarrow> (\<forall>pc \<in> set ts. pc = Parked)"
  unfolding num_parked_def
  by (metis (mono_tags, lifting) filter_True length_filter_less less_irrefl)

text \<open>A run of the slots and its length.\<close>

inductive pool_run ::
  "('q \<Rightarrow> (usize \<times> rstr) option \<times> 'q) \<Rightarrow> ('o \<Rightarrow> usize \<Rightarrow> outcome \<Rightarrow> 'o)
   \<Rightarrow> (rstr \<Rightarrow> spawned \<Rightarrow> bool) \<Rightarrow> (nat \<Rightarrow> usize) \<Rightarrow> Tokens \<Rightarrow> nat
   \<Rightarrow> slot_pc list \<times> ('q, 'o, 'z) shared_scheme \<Rightarrow> slot_pc list \<times> ('q, 'o, 'z) shared_scheme \<Rightarrow> bool"
  for get_job insert sh sid cmd where
  stay: "pool_run get_job insert sh sid cmd 0 x x"
| move: "pool_run get_job insert sh sid cmd n x y \<Longrightarrow> pool_step get_job insert sh sid cmd y z
    \<Longrightarrow> pool_run get_job insert sh sid cmd (Suc n) x z"

lemma pool_step_length: "pool_step g ins sh sid cmd (ts, s) (ts', s') \<Longrightarrow> length ts' = length ts"
  by (auto simp: pool_step_iff)

lemma pool_run_stopping:
  assumes "pool_run g ins sh sid cmd n (ts, s) (ts', s')" "kill s" "parked_ok ts s"
  shows "n + pool_weight ts' \<le> pool_weight ts \<and> kill s' \<and> parked_ok ts' s' \<and> length ts' = length ts"
  using assms
proof (induction n "(ts, s)" "(ts', s')" arbitrary: ts' s' rule: pool_run.induct)
  case stay
  then show ?case by simp
next
  case (move n y ts' s')
  obtain ts1 s1 where y: "y = (ts1, s1)" by (cases y)
  with move have IH: "n + pool_weight ts1 \<le> pool_weight ts" "kill s1" "parked_ok ts1 s1"
    "length ts1 = length ts" by auto
  from move(3) y have st: "pool_step g ins sh sid cmd (ts1, s1) (ts', s')" by simp
  from pool_step_weight [OF st IH(2)] pool_step_kill [OF st] pool_step_parked_ok [OF st IH(3)]
    pool_step_length [OF st] IH
  show ?case by simp
qed

text \<open>A thread that has not parked can always move, if the shell ends every command.\<close>

lemma slot_event_progress:
  assumes "pc \<noteq> Parked" "\<forall>line. \<exists>r. sh line r"
  shows "\<exists>pc' s'. slot_event g ins sh sid cmd (pc, s) (pc', s')"
proof (cases pc)
  case Check
  then show ?thesis by (cases "kill s") (auto intro: slot_event.intros)
next
  case Poll
  obtain j q where gq: "g (inputs s) = (j, q)" by (cases "g (inputs s)")
  then show ?thesis using Poll
    by (cases j) (auto intro: slot_event.idle slot_event.grab)
next
  case (Running jid input)
  with assms(2) show ?thesis by (blast intro: slot_event.finish)
next
  case Parked
  with assms(1) show ?thesis by simp
qed

lemma pool_stuck_parked:
  assumes "\<nexists>y. pool_step g ins sh sid cmd (ts, s) y" "\<forall>line. \<exists>r. sh line r"
  shows "num_parked ts = length ts"
proof -
  have "ts ! i = Parked" if "i < length ts" for i
    using assms slot_event_progress [of "ts ! i" sh g ins "sid i" cmd s] that
    by (blast intro: pool_step.thread)
  then show ?thesis by (auto simp: num_parked_all in_set_conv_nth)
qed

text \<open>Once the kill flag is set, the slots can leave, one by one.\<close>

lemma pool_parks:
  assumes "kill u" "\<forall>line. \<exists>r. sh line r"
  shows "\<exists>ts' u'. (pool_step g ins sh sid cmd)\<^sup>*\<^sup>* (ts, u) (ts', u') \<and> num_parked ts' = length ts'"
  using assms(1)
proof (induction "pool_weight ts" arbitrary: ts u rule: less_induct)
  case less
  show ?case
  proof (cases "\<exists>y. pool_step g ins sh sid cmd (ts, u) y")
    case True
    then obtain ts1 u1 where st: "pool_step g ins sh sid cmd (ts, u) (ts1, u1)" by auto
    from less.hyps [OF pool_step_weight [OF st less.prems]] pool_step_kill [OF st] less.prems
    obtain ts' u' where "(pool_step g ins sh sid cmd)\<^sup>*\<^sup>* (ts1, u1) (ts', u')"
      "num_parked ts' = length ts'" by blast
    with st show ?thesis by (meson converse_rtranclp_into_rtranclp)
  next
    case False
    with pool_stuck_parked [of g ins sh sid cmd ts u] assms(2) show ?thesis by blast
  qed
qed

text \<open>
  C37. Stopping terminates: with the kill flag set, every action of a slot lowers a weight
  that is at most three per slot, so no run of the slots is longer than that; and when the
  shell ends every command, a state from which no slot can move has every slot parked and
  counted.
\<close>

theorem slots_stop:
  assumes "pool_run g ins sh sid cmd n (ts, s) (ts', s')" "kill s" "parked_ok ts s"
    and "\<forall>line. \<exists>r. sh line r"
  shows "n \<le> 3 * length ts
    \<and> ((\<nexists>y. pool_step g ins sh sid cmd (ts', s') y) \<longrightarrow> parked s' = of_nat (length ts))"
  using pool_run_stopping [OF assms(1-3)] pool_weight_le [of ts]
    pool_stuck_parked [of g ins sh sid cmd ts' s'] assms(4)
  by (auto simp: parked_ok_def)

theorem slots_stop_witness:
  "\<exists>s'. pool_run (\<lambda>q. (None, q)) (\<lambda>os jid out. os @ [jid]) (\<lambda>_ r. r = SpawnErr) (\<lambda>_. 0) \<lparr>tokens = []\<rparr> 2
      ([Running 5 (lit ''a'')], \<lparr>inputs = (), outputs = [], kill = True, parked = (0 :: usize)\<rparr>) ([Parked], s')
    \<and> outputs s' = [5] \<and> parked s' = 1 \<and> (2 :: nat) \<le> 3 * length [Running 5 (lit ''a'')]"
proof -
  let ?s = "\<lparr>inputs = (), outputs = [], kill = True, parked = (0 :: usize)\<rparr>"
  let ?step = "pool_step (\<lambda>q. (None, q)) (\<lambda>os jid out. os @ [jid]) (\<lambda>_ r. r = SpawnErr) (\<lambda>_. 0) \<lparr>tokens = []\<rparr>"
  let ?run = "pool_run (\<lambda>q. (None, q)) (\<lambda>os jid out. os @ [jid]) (\<lambda>_ r. r = SpawnErr) (\<lambda>_. 0) \<lparr>tokens = []\<rparr>"
  have 1: "?step ([Running 5 (lit ''a'')], ?s) ([Check], ?s\<lparr>outputs := [5]\<rparr>)"
  proof -
    have "slot_event (\<lambda>q. (None, q)) (\<lambda>os jid out. os @ [jid]) (\<lambda>_ r. r = SpawnErr) 0 \<lparr>tokens = []\<rparr>
        (Running 5 (lit ''a''), ?s) (Check, ?s\<lparr>outputs := outputs ?s @ [5]\<rparr>)"
      by (rule slot_event.finish [where r = SpawnErr and insert = "\<lambda>os jid out. os @ [jid]"]) simp
    with pool_step.thread [of 0 "[Running 5 (lit ''a'')]" "\<lambda>q. (None, q)" "\<lambda>os jid out. os @ [jid]"
        "\<lambda>_ r. r = SpawnErr" "\<lambda>_. 0" "\<lparr>tokens = []\<rparr>" ?s Check "?s\<lparr>outputs := [5]\<rparr>"] show ?thesis by simp
  qed
  have 2: "?step ([Check], ?s\<lparr>outputs := [5]\<rparr>) ([Parked], ?s\<lparr>outputs := [5], parked := 1\<rparr>)"
    using pool_step.thread [of 0 "[Check]"] slot_event.leave [of "?s\<lparr>outputs := [5]\<rparr>"] by fastforce
  from pool_run.move [OF pool_run.move [OF pool_run.stay 1] 2]
  have run: "?run 2 ([Running 5 (lit ''a'')], ?s) ([Parked], ?s\<lparr>outputs := [5], parked := 1\<rparr>)"
    by (simp add: numeral_2_eq_2)
  moreover have "\<nexists>y. ?step ([Parked], ?s\<lparr>outputs := [5], parked := 1\<rparr>) y"
    by (auto simp: pool_step_iff elim: slot_ParkedE)
  ultimately have "parked (?s\<lparr>outputs := [5], parked := 1\<rparr>) = of_nat (length [Running 5 (lit ''a'')])
      \<and> (2 :: nat) \<le> 3 * length [Running 5 (lit ''a'')]"
    using slots_stop [OF run] by (auto simp: parked_ok_def num_parked_def)
  with run show ?thesis by (intro exI [of _ "?s\<lparr>outputs := [5], parked := 1\<rparr>"]) simp
qed

section \<open>The traits\<close>

text \<open>
  \<^verbatim>\<open>trait InsertJob\<close>: a bag of jobs. What is inserted can be taken out once, and
  \<open>get_job\<close> finds a job whenever there is one. The order is the implementation's.
\<close>

locale insert_job =
  fixes get_job :: "'q \<Rightarrow> (usize \<times> rstr) option \<times> 'q"
    and insert_job :: "'q \<Rightarrow> usize \<Rightarrow> rstr \<Rightarrow> 'q"
    and jobs :: "'q \<Rightarrow> (usize \<times> rstr) multiset"
  assumes jobs_insert: "jobs (insert_job q i s) = add_mset (i, s) (jobs q)"
    and get_none: "get_job q = (None, q') \<Longrightarrow> jobs q = {#} \<and> jobs q' = {#}"
    and get_some: "get_job q = (Some j, q') \<Longrightarrow> jobs q = add_mset j (jobs q')"
begin

lemma get_nonempty: "jobs q \<noteq> {#} \<Longrightarrow> \<exists>j q'. get_job q = (Some j, q')"
  by (cases "get_job q"; cases "fst (get_job q)") (auto dest: get_none)

lemma get_empty: "jobs q = {#} \<Longrightarrow> fst (get_job q) = None"
  by (cases "get_job q"; cases "fst (get_job q)") (auto dest: get_some)

lemma jobs_insert_many:
  "jobs (foldl (\<lambda>q (i, s). insert_job q i s) q js) = jobs q + mset js"
  by (induction js arbitrary: q) (auto simp: jobs_insert)

end

text \<open>
  \<^verbatim>\<open>trait InsertOutput\<close>: a table from job IDs to entries, where \<open>entry\<close> is what the
  implementation keeps of an outcome.
\<close>

locale insert_output =
  fixes insert :: "'o \<Rightarrow> usize \<Rightarrow> outcome \<Rightarrow> 'o"
    and outs :: "'o \<Rightarrow> usize \<Rightarrow> 'e option"
    and entry :: "outcome \<Rightarrow> 'e"
  assumes outs_insert: "outs (insert m i r) = (outs m)(i \<mapsto> entry r)"

section \<open>What the slots do to the jobs\<close>

text \<open>The jobs that the threads hold.\<close>

fun pc_job :: "slot_pc \<Rightarrow> (usize \<times> rstr) multiset" where
  "pc_job (Running jid input) = {#(jid, input)#}"
| "pc_job pc = {#}"

definition running :: "slot_pc list \<Rightarrow> (usize \<times> rstr) multiset" where
  "running ts = sum_list (map pc_job ts)"

lemma running_update:
  "i < length ts \<Longrightarrow> running (ts[i := pc]) + pc_job (ts ! i) = running ts + pc_job pc"
proof (induction ts arbitrary: i)
  case Nil
  then show ?case by simp
next
  case (Cons t ts)
  then show ?case by (cases i) (auto simp: running_def ac_simps)
qed

lemma running_member:
  "jb \<in># running ts \<Longrightarrow> \<exists>i < length ts. ts ! i = Running (fst jb) (snd jb)"
proof (induction ts)
  case Nil
  then show ?case by (simp add: running_def)
next
  case (Cons t ts)
  show ?case
  proof (cases "jb \<in># pc_job t")
    case True
    then show ?thesis by (cases t) auto
  next
    case False
    with Cons obtain i where "i < length ts" "ts ! i = Running (fst jb) (snd jb)"
      by (auto simp: running_def)
    then show ?thesis by (intro exI [of _ "Suc i"]) simp
  qed
qed

text \<open>
  The contract of a pool of slots, without threads and queues: a bag of jobs and a table
  of results; a step takes a job out of the bag and enters the outcome of its own command
  line, run under the number of some slot.
\<close>

inductive bag_step ::
  "(outcome \<Rightarrow> 'e) \<Rightarrow> (rstr \<Rightarrow> spawned \<Rightarrow> bool) \<Rightarrow> usize set \<Rightarrow> Tokens
   \<Rightarrow> (usize \<times> rstr) multiset \<times> (usize \<rightharpoonup> 'e) \<Rightarrow> (usize \<times> rstr) multiset \<times> (usize \<rightharpoonup> 'e) \<Rightarrow> bool"
  for entry sh sids cmd where
  work: "sid \<in> sids \<Longrightarrow> sh (render cmd sid jid input) r \<Longrightarrow>
    bag_step entry sh sids cmd (add_mset (jid, input) b, m) (b, m(jid \<mapsto> entry (collect r)))"

locale slot_pool =
  insert_job get_job insert_job jobs + insert_output insert outs entry
  for get_job :: "'q \<Rightarrow> (usize \<times> rstr) option \<times> 'q"
    and insert_job :: "'q \<Rightarrow> usize \<Rightarrow> rstr \<Rightarrow> 'q"
    and jobs :: "'q \<Rightarrow> (usize \<times> rstr) multiset"
    and insert :: "'o \<Rightarrow> usize \<Rightarrow> outcome \<Rightarrow> 'o"
    and outs :: "'o \<Rightarrow> usize \<Rightarrow> 'e option"
    and entry :: "outcome \<Rightarrow> 'e"
begin

definition pool_abs ::
  "slot_pc list \<times> ('q, 'o, 'z) shared_scheme \<Rightarrow> (usize \<times> rstr) multiset \<times> (usize \<rightharpoonup> 'e)" where
  "pool_abs x = (jobs (inputs (snd x)) + running (fst x), outs (outputs (snd x)))"

text \<open>Each action of a slot is a step of the contract or invisible to it.\<close>

lemma pool_refines:
  assumes "pool_step get_job insert sh sid cmd x y"
  shows "pool_abs y = pool_abs x \<or> bag_step entry sh (sid ` {..<length (fst x)}) cmd (pool_abs x) (pool_abs y)"
  using assms
proof cases
  case (thread i ts s pc s')
  note upd = running_update [OF thread(3), of pc]
  from thread(4) show ?thesis
  proof cases
    case enter
    with upd thread show ?thesis by (simp add: pool_abs_def)
  next
    case leave
    with upd thread show ?thesis by (simp add: pool_abs_def)
  next
    case (idle q)
    with upd thread get_none [OF idle(4)] show ?thesis by (simp add: pool_abs_def)
  next
    case (grab jid input q)
    with upd thread get_some [OF grab(4)] show ?thesis by (simp add: pool_abs_def)
  next
    case (finish jid input r)
    with upd have "running ts = add_mset (jid, input) (running (ts[i := pc]))" by simp
    then have "pool_abs x = (add_mset (jid, input) (fst (pool_abs y)), outs (outputs s))"
      using thread finish by (simp add: pool_abs_def)
    moreover have "pool_abs y = (fst (pool_abs y), (outs (outputs s))(jid \<mapsto> entry (collect r)))"
      using thread finish by (simp add: pool_abs_def outs_insert)
    moreover have "sid i \<in> sid ` {..<length (fst x)}" using thread by auto
    ultimately show ?thesis using finish(4) by (metis bag_step.work)
  qed
qed

text \<open>While the kill flag is clear, the slots can bring every job to its end.\<close>

definition alive :: "slot_pc list \<Rightarrow> ('q, 'o, 'z) shared_scheme \<Rightarrow> bool" where
  "alive ts s \<longleftrightarrow> ts \<noteq> [] \<and> Parked \<notin> set ts \<and> \<not> kill s"

definition held :: "slot_pc list \<Rightarrow> ('q, 'o, 'z) shared_scheme \<Rightarrow> (usize \<times> rstr) multiset" where
  "held ts s = jobs (inputs s) + running ts"

lemma alive_update: "alive ts s \<Longrightarrow> pc \<noteq> Parked \<Longrightarrow> kill s' = kill s \<Longrightarrow> alive (ts[i := pc]) s'"
  using set_update_subset_insert [of ts i pc] by (auto simp: alive_def)

lemma finish_one:
  assumes "alive ts s" "i < length ts" "ts ! i = Running jid input" "\<forall>line. \<exists>r. sh line r"
  shows "\<exists>ts' s'. pool_step get_job insert sh sid cmd (ts, s) (ts', s') \<and> alive ts' s'
    \<and> held ts s = add_mset (jid, input) (held ts' s')"
proof -
  from assms(4) obtain r where r: "sh (render cmd (sid i) jid input) r" by blast
  let ?s = "s\<lparr>outputs := insert (outputs s) jid (collect r)\<rparr>" and ?ts = "ts[i := Check]"
  have "pool_step get_job insert sh sid cmd (ts, s) (?ts, ?s)"
    using assms(2,3) r by (intro pool_step.thread) (auto intro: slot_event.finish)
  moreover have "running ts = add_mset (jid, input) (running ?ts)"
    using running_update [OF assms(2), of Check] assms(3) by simp
  moreover have "alive ?ts ?s" using assms(1) by (rule alive_update) simp_all
  ultimately show ?thesis
    by (intro exI [of _ ?ts] exI [of _ ?s]) (simp add: held_def)
qed

lemma grab_one:
  assumes "alive ts s" "running ts = {#}" "jobs (inputs s) \<noteq> {#}"
  shows "\<exists>ts' s' jid input. (pool_step get_job insert sh sid cmd)\<^sup>*\<^sup>* (ts, s) (ts', s') \<and> alive ts' s'
    \<and> held ts' s' = held ts s \<and> 0 < length ts' \<and> ts' ! 0 = Running jid input"
proof -
  from assms(3) obtain jid input q where g: "get_job (inputs s) = (Some (jid, input), q)"
    using get_nonempty by fastforce
  let ?ts = "ts[0 := Running jid input]" and ?s = "s\<lparr>inputs := q\<rparr>"
  have len: "0 < length ts" using assms(1) by (auto simp: alive_def)
  have not0: "ts ! 0 \<noteq> Parked" "\<not> kill s"
    using assms(1) nth_mem [OF len] unfolding alive_def by metis+
  have nr: "pc_job (ts ! 0) = {#}"
    using running_update [OF len, of "ts ! 0"] running_update [OF len, of Check] assms(2)
    by simp
  have step: "pool_step get_job insert sh sid cmd (ts[0 := Poll], s) (?ts, ?s)"
    using pool_step.thread [where i = 0 and ts = "ts[0 := Poll]"] len g
    by (fastforce intro: slot_event.grab)
  have "(pool_step get_job insert sh sid cmd)\<^sup>*\<^sup>* (ts, s) (ts[0 := Poll], s)"
  proof (cases "ts ! 0")
    case Check
    then have "pool_step get_job insert sh sid cmd (ts, s) (ts[0 := Poll], s)"
      using len not0 by (intro pool_step.thread) (auto intro: slot_event.enter)
    then show ?thesis by simp
  next
    case Poll
    then show ?thesis by (metis list_update_id rtranclp.rtrancl_refl)
  qed (use nr not0 in auto)
  with step have "(pool_step get_job insert sh sid cmd)\<^sup>*\<^sup>* (ts, s) (?ts, ?s)" by simp
  moreover have "held ?ts ?s = held ts s"
    using running_update [OF len, of "Running jid input"] nr get_some [OF g]
    by (simp add: held_def)
  ultimately show ?thesis
    using alive_update [OF assms(1), of "Running jid input" ?s 0] len
    by (intro exI [of _ ?ts] exI [of _ ?s] exI [of _ jid] exI [of _ input]) auto
qed

lemma drain_one:
  assumes "alive ts s" "held ts s \<noteq> {#}" "\<forall>line. \<exists>r. sh line r"
  shows "\<exists>ts' s'. (pool_step get_job insert sh sid cmd)\<^sup>*\<^sup>* (ts, s) (ts', s') \<and> alive ts' s'
    \<and> size (held ts' s') < size (held ts s)"
proof (cases "running ts = {#}")
  case False
  then obtain jb where "jb \<in># running ts" by blast
  then obtain i where i: "i < length ts" "ts ! i = Running (fst jb) (snd jb)"
    using running_member by blast
  from finish_one [OF assms(1) i assms(3)] obtain ts' s' where
    "pool_step get_job insert sh sid cmd (ts, s) (ts', s')" "alive ts' s'"
      "held ts s = add_mset (fst jb, snd jb) (held ts' s')" by blast
  then show ?thesis by (intro exI [of _ ts'] exI [of _ s']) auto
next
  case True
  with assms(2) have "jobs (inputs s) \<noteq> {#}" by (simp add: held_def)
  from grab_one [OF assms(1) True this] obtain ts1 s1 jid input where
    1: "(pool_step get_job insert sh sid cmd)\<^sup>*\<^sup>* (ts, s) (ts1, s1)" "alive ts1 s1"
      "held ts1 s1 = held ts s" "0 < length ts1" "ts1 ! 0 = Running jid input" by blast
  from finish_one [OF 1(2,4,5) assms(3)] obtain ts2 s2 where
    "pool_step get_job insert sh sid cmd (ts1, s1) (ts2, s2)" "alive ts2 s2"
      "held ts1 s1 = add_mset (jid, input) (held ts2 s2)" by blast
  with 1 show ?thesis by (metis lessI rtranclp.rtrancl_into_rtrancl size_add_mset)
qed

lemma drain:
  assumes "alive ts s" "\<forall>line. \<exists>r. sh line r"
  shows "\<exists>ts' s'. (pool_step get_job insert sh sid cmd)\<^sup>*\<^sup>* (ts, s) (ts', s') \<and> alive ts' s'
    \<and> held ts' s' = {#}"
  using assms(1)
proof (induction "size (held ts s)" arbitrary: ts s rule: less_induct)
  case less
  show ?case
  proof (cases "held ts s = {#}")
    case True
    with less.prems show ?thesis by blast
  next
    case False
    from drain_one [OF less.prems this assms(2)] obtain ts1 s1 where
      1: "(pool_step get_job insert sh sid cmd)\<^sup>*\<^sup>* (ts, s) (ts1, s1)" "alive ts1 s1"
        "size (held ts1 s1) < size (held ts s)" by blast
    from less.hyps [OF 1(3,2)] show ?thesis using 1(1) by (meson rtranclp_trans)
  qed
qed

end

end
