(* ===== verification/Crates.thy ===== *)
theory Crates
  imports Jobs
begin

text \<open>
  The containers of the crates \<^verbatim>\<open>coco\<close> and \<^verbatim>\<open>chashmap\<close> that the queues of the client
  and the server wrap. Their source is not part of the repository, so they are
  parameters: records of their operations, with their documented behaviour as the locales
  \<open>coco_stack\<close> and \<open>chashmap\<close>. Both are concurrent containers whose operations are atomic.
\<close>

section \<open>The crates\<close>

record 's stack_ops =
  s_new :: 's
  s_push :: "'s \<Rightarrow> usize \<times> rstr \<Rightarrow> 's"
  s_pop :: "'s \<Rightarrow> (usize \<times> rstr) option \<times> 's"

record ('m, 'v) map_ops =
  m_new :: 'm
  m_insert :: "'m \<Rightarrow> usize \<Rightarrow> 'v \<Rightarrow> 'm"
  m_remove :: "'m \<Rightarrow> usize \<Rightarrow> 'v option \<times> 'm"

text \<open>A stack is a list, its top first.\<close>

locale coco_stack =
  fixes S :: "'s stack_ops" and items :: "'s \<Rightarrow> (usize \<times> rstr) list"
  assumes items_new: "items (s_new S) = []"
    and items_push: "items (s_push S q j) = j # items q"
    and pop_nil: "items q = [] \<Longrightarrow> s_pop S q = (r, q') \<Longrightarrow> r = None \<and> items q' = []"
    and pop_cons: "items q = j # js \<Longrightarrow> s_pop S q = (r, q') \<Longrightarrow> r = Some j \<and> items q' = js"

text \<open>A hash map is a partial function; \<^verbatim>\<open>remove\<close> returns the entry it takes out.\<close>

locale chashmap =
  fixes M :: "('m, 'v) map_ops" and lookup :: "'m \<Rightarrow> usize \<Rightarrow> 'v option"
  assumes lookup_new: "lookup (m_new M) k = None"
    and lookup_insert: "lookup (m_insert M m k v) = (lookup m)(k \<mapsto> v)"
    and remove: "m_remove M m k = (r, m') \<Longrightarrow> r = lookup m k \<and> lookup m' = (lookup m)(k := None)"

section \<open>A reference for the crates\<close>

text \<open>Lists and functions satisfy the contracts; concrete runs are evaluated on them.\<close>

definition list_stack :: "(usize \<times> rstr) list stack_ops" where [eval_defs]:
  "list_stack = \<lparr>s_new = [], s_push = (\<lambda>q j. j # q),
     s_pop = (\<lambda>q. case q of [] \<Rightarrow> (None, []) | j # js \<Rightarrow> (Some j, js))\<rparr>"

definition fun_map :: "(usize \<rightharpoonup> 'v, 'v) map_ops" where [eval_defs]:
  "fun_map = \<lparr>m_new = (\<lambda>_. None), m_insert = (\<lambda>m k v. m(k \<mapsto> v)),
     m_remove = (\<lambda>m k. (m k, m(k := None)))\<rparr>"

interpretation list_stack: coco_stack list_stack "\<lambda>q. q"
  by unfold_locales (auto simp: list_stack_def split: list.splits)

interpretation fun_map: chashmap fun_map "\<lambda>m. m"
  by unfold_locales (auto simp: fun_map_def)

end
