(* ===== verification/Client_Queues.thy ===== *)
theory Client_Queues
  imports Crates
begin

text \<open>
  The two queues of the client, \<^verbatim>\<open>src/client/inputs.rs\<close> and \<^verbatim>\<open>src/client/outputs.rs\<close>:
  a first-in first-out queue of inputs behind a mutex, and a concurrent hash map of the
  outputs by job ID. They implement the traits of the shared library, so the slots of the
  theory \<open>Jobs\<close> run on them when the client is a node itself.
\<close>

section \<open>Inputs\<close>

text \<open>A \<^verbatim>\<open>VecDeque\<close> is the list of its elements, front first; each operation holds the lock.\<close>

record Client_Inputs =
  queue :: "(usize \<times> rstr) list"

definition Client_get_job :: "Client_Inputs \<Rightarrow> (usize \<times> rstr) option \<times> Client_Inputs" where
  [eval_defs]: "Client_get_job self = (case queue self of
     [] \<Rightarrow> (None, self)
   | j # js \<Rightarrow> (Some j, self\<lparr>queue := js\<rparr>))"

definition Client_insert_job :: "Client_Inputs \<Rightarrow> usize \<Rightarrow> rstr \<Rightarrow> Client_Inputs" where
  [eval_defs]: "Client_insert_job self i job = self\<lparr>queue := queue self @ [(i, job)]\<rparr>"

definition queue_jobs :: "Client_Inputs \<Rightarrow> (usize \<times> rstr) multiset" where
  "queue_jobs q = mset (queue q)"

text \<open>A bag of jobs that keeps their order.\<close>

locale fifo_job = insert_job get_job insert_job jobs
  for get_job :: "'q \<Rightarrow> (usize \<times> rstr) option \<times> 'q" and insert_job and jobs +
  fixes order :: "'q \<Rightarrow> (usize \<times> rstr) list"
  assumes jobs_order: "jobs q = mset (order q)"
    and order_insert: "order (insert_job q i s) = order q @ [(i, s)]"
    and order_get: "get_job q = (Some j, q') \<Longrightarrow> order q = j # order q'"
begin

text \<open>What \<open>n\<close> calls of \<open>get_job\<close> return.\<close>

fun take_jobs :: "nat \<Rightarrow> 'q \<Rightarrow> (usize \<times> rstr) list" where
  "take_jobs 0 q = []"
| "take_jobs (Suc n) q = (case get_job q of (None, q) \<Rightarrow> [] | (Some j, q) \<Rightarrow> j # take_jobs n q)"

lemma take_jobs_order: "take_jobs n q = take n (order q)"
proof (induction n arbitrary: q)
  case 0
  then show ?case by simp
next
  case (Suc n)
  obtain j q' where g: "get_job q = (j, q')" by (cases "get_job q")
  show ?case
  proof (cases j)
    case None
    with g get_none [of q q'] jobs_order [of q] show ?thesis by simp
  next
    case (Some jb)
    with g order_get [of q jb q'] Suc show ?thesis by simp
  qed
qed

lemma order_insert_many:
  "order (foldl (\<lambda>q (i, s). insert_job q i s) q js) = order q @ js"
  by (induction js arbitrary: q) (auto simp: order_insert)

lemma take_inserted:
  "order q = [] \<Longrightarrow> take_jobs n (foldl (\<lambda>q (i, s). insert_job q i s) q js) = take n js"
  by (simp add: take_jobs_order order_insert_many)

end

interpretation fifo: fifo_job Client_get_job Client_insert_job queue_jobs queue
  by unfold_locales
    (auto simp: Client_get_job_def Client_insert_job_def queue_jobs_def split: list.splits)

section \<open>Outputs\<close>

datatype output_source = Internal file_t file_t | External rstr rstr

datatype job_output = Outcome u8 output_source | Failed

text \<open>
  \<^verbatim>\<open>OutputSource::write\<close> on the bytes written so far to standard output and standard
  error. The results of the writes are discarded in the code; here they succeed.
\<close>

definition write_source :: "output_source \<Rightarrow> byte list \<times> byte list \<Rightarrow> byte list \<times> byte list" where
  [eval_defs]: "write_source self fds = (case self of
     Internal out err \<Rightarrow> (fst fds @ out, snd fds @ err)
   | External out err \<Rightarrow> (fst fds @ as_bytes out, snd fds @ as_bytes err))"

record 'm Client_Outputs =
  outputs_map :: 'm

definition push_external ::
  "('m, job_output) map_ops \<Rightarrow> 'm Client_Outputs \<Rightarrow> usize \<Rightarrow> u8 \<Rightarrow> rstr \<Rightarrow> rstr \<Rightarrow> 'm Client_Outputs" where
  [eval_defs]: "push_external M self i status out err =
     (let source = External out err; output = Outcome status source
      in self\<lparr>outputs_map := m_insert M (outputs_map self) i output\<rparr>)"

text \<open>One turn of the loop of \<^verbatim>\<open>Outputs::get\<close>: \<open>None\<close> when it sleeps and tries again.\<close>

definition Client_Outputs_get ::
  "('m, job_output) map_ops \<Rightarrow> 'm Client_Outputs \<Rightarrow> usize \<Rightarrow> job_output option \<times> 'm Client_Outputs" where
  [eval_defs]: "Client_Outputs_get M self i =
     (let (e, m) = m_remove M (outputs_map self) i in (e, self\<lparr>outputs_map := m\<rparr>))"

text \<open>\<^verbatim>\<open>insert\<close> of the trait, for the outcome of a slot of the client itself.\<close>

fun internal_output :: "outcome \<Rightarrow> job_output" where
  "internal_output (Some (sts, out, err)) = Outcome sts (Internal out err)"
| "internal_output None = Failed"

definition Client_Outputs_insert ::
  "('m, job_output) map_ops \<Rightarrow> 'm Client_Outputs \<Rightarrow> usize \<Rightarrow> outcome \<Rightarrow> 'm Client_Outputs" where
  [eval_defs]: "Client_Outputs_insert M self i result =
     self\<lparr>outputs_map := m_insert M (outputs_map self) i (internal_output result)\<rparr>"

text \<open>
  The table that the main thread reads: insertions of either kind and removals act on it
  as on a partial function.
\<close>

locale output_table = chashmap M lookup
  for M :: "('m, job_output) map_ops" and lookup :: "'m \<Rightarrow> usize \<Rightarrow> job_output option"
begin

definition finished :: "'m Client_Outputs \<Rightarrow> usize \<Rightarrow> job_output option" where
  "finished m = lookup (outputs_map m)"

lemma finished_insert: "finished (Client_Outputs_insert M m i r) = (finished m)(i \<mapsto> internal_output r)"
  by (simp add: finished_def Client_Outputs_insert_def lookup_insert)

lemma finished_external:
  "finished (push_external M m i st out err) = (finished m)(i \<mapsto> Outcome st (External out err))"
  by (simp add: finished_def push_external_def lookup_insert)

lemma finished_get:
  "Client_Outputs_get M m i = (e, m') \<Longrightarrow> e = finished m i \<and> finished m' = (finished m)(i := None)"
  by (auto simp: Client_Outputs_get_def finished_def dest!: remove split: prod.splits)

sublocale local_slots: slot_pool Client_get_job Client_insert_job queue_jobs
  "Client_Outputs_insert M" finished internal_output
  by unfold_locales (rule finished_insert)

lemma no_running: "running ts = {#} \<Longrightarrow> pc \<in> set ts \<Longrightarrow> pc \<noteq> Running jid input"
  by (induction ts) (auto simp: running_def)

lemma slots_drain:
  assumes "ts \<noteq> []" "Parked \<notin> set ts" "\<not> kill s" "\<forall>line. \<exists>r. sh line r"
  shows "\<exists>ts' s'. (pool_step Client_get_job (Client_Outputs_insert M) sh sid cmd)\<^sup>*\<^sup>* (ts, s) (ts', s')
    \<and> queue (inputs s') = [] \<and> (\<forall>pc \<in> set ts'. \<forall>jid input. pc \<noteq> Running jid input)"
proof -
  from assms have "local_slots.alive ts s" by (simp add: local_slots.alive_def)
  from local_slots.drain [OF this assms(4)] obtain ts' s' where
    "(pool_step Client_get_job (Client_Outputs_insert M) sh sid cmd)\<^sup>*\<^sup>* (ts, s) (ts', s')"
    "local_slots.held ts' s' = {#}" by blast
  then show ?thesis
    by (intro exI [of _ ts'] exI [of _ s'])
      (auto simp: local_slots.held_def queue_jobs_def dest: no_running)
qed

end

interpretation fun_table: output_table fun_map "\<lambda>m. m"
  by unfold_locales

text \<open>What \<open>n\<close> calls of \<^verbatim>\<open>get_job\<close> return.\<close>

fun get_jobs :: "nat \<Rightarrow> Client_Inputs \<Rightarrow> (usize \<times> rstr) list" where
  "get_jobs 0 q = []"
| "get_jobs (Suc n) q =
     (case Client_get_job q of (None, q) \<Rightarrow> [] | (Some j, q) \<Rightarrow> j # get_jobs n q)"

text \<open>
  The client hands out inputs in the order in which they came: of jobs \<open>js\<close> inserted
  into an empty queue, any number of calls of \<open>get_job\<close> returns exactly the first ones,
  in order, and finds nothing once they are used up.
\<close>

theorem inputs_in_order:
  "get_jobs n (foldl (\<lambda>q (i, s). Client_insert_job q i s) \<lparr>queue = []\<rparr> js) = take n js"
proof -
  have "get_jobs n q = fifo.take_jobs n q" for q
    by (induction n arbitrary: q) (auto split: prod.split option.split)
  then show ?thesis by (simp add: fifo.take_inserted)
qed

text \<open>
  When the client is a node itself, its slots can bring every input to its end: from a
  state with at least one slot, none of them parked and no kill signal, some run of the
  slots leaves no input in the queue or at a slot, provided that the shell ends every
  command.
\<close>

theorem local_slots_drain:
  assumes "chashmap M lookup" "ts \<noteq> []" "Parked \<notin> set ts" "\<not> kill s" "\<forall>line. \<exists>r. sh line r"
  shows "\<exists>ts' s'. (pool_step Client_get_job (Client_Outputs_insert M) sh sid cmd)\<^sup>*\<^sup>* (ts, s) (ts', s')
    \<and> queue (inputs s') = [] \<and> (\<forall>pc \<in> set ts'. \<forall>jid input. pc \<noteq> Running jid input)"
  by (rule output_table.slots_drain [OF output_table.intro [OF assms(1)] assms(2-)])

definition demo_shared :: "(Client_Inputs, (usize \<rightharpoonup> job_output) Client_Outputs) shared" where
  "demo_shared = \<lparr>inputs = \<lparr>queue = [(0, lit ''a''), (1, lit ''b'')]\<rparr>,
     outputs = \<lparr>outputs_map = (\<lambda>_. None)\<rparr>, kill = False, parked = 0\<rparr>"

theorem local_slots_drain_witness:
  "\<exists>ts' s'. (pool_step Client_get_job (Client_Outputs_insert fun_map)
       (\<lambda>line r. r = Child (Some (Some 0)) (as_bytes line) []) (\<lambda>_. 0) \<lparr>tokens = [Text (lit ''echo ''), Placeholder]\<rparr>)\<^sup>*\<^sup>*
     ([Check, Poll], demo_shared) (ts', s')
    \<and> queue (inputs s') = [] \<and> (\<forall>pc \<in> set ts'. \<forall>jid input. pc \<noteq> Running jid input)"
  by (rule local_slots_drain [OF fun_map.chashmap_axioms]) (simp_all add: demo_shared_def)

end
