(* ===== verification/Source.thy ===== *)
theory Source
  imports Streams Client_Queues
begin

text \<open>
  Reading inputs from a file or the standard input, \<^verbatim>\<open>src/client/source.rs\<close>: line by line,
  without surrounding white space, empty lines and lines that begin with a hash.
\<close>

section \<open>Trimming\<close>

text \<open>\<^verbatim>\<open>char::is_whitespace\<close>: the Unicode property White_Space.\<close>

definition is_whitespace :: "rchar \<Rightarrow> bool" where [eval_defs]:
  "is_whitespace c \<longleftrightarrow> 9 \<le> c \<and> c \<le> 13 \<or> c = 0x20 \<or> c = 0x85 \<or> c = 0xA0 \<or> c = 0x1680
     \<or> 0x2000 \<le> c \<and> c \<le> 0x200A \<or> c = 0x2028 \<or> c = 0x2029 \<or> c = 0x202F \<or> c = 0x205F \<or> c = 0x3000"

definition trim :: "rstr \<Rightarrow> rstr" where [eval_defs]:
  "trim s = rev (dropWhile is_whitespace (rev (dropWhile is_whitespace s)))"

text \<open>The line end that \<^verbatim>\<open>BufRead::lines\<close> removes: a newline, and a carriage return before it.\<close>

definition strip_line_end :: "rstr \<Rightarrow> rstr" where [eval_defs]:
  "strip_line_end l =
     (if l \<noteq> [] \<and> last l = c_nl
      then (let l = butlast l in if l \<noteq> [] \<and> last l = c_cr then butlast l else l)
      else l)"

section \<open>Reading\<close>

fun answer_size :: "io_error + byte list \<Rightarrow> nat" where
  "answer_size (Inl e) = 1"
| "answer_size (Inr chunk) = Suc (length chunk)"

definition reader_size :: "byte list \<times> read_answers \<Rightarrow> nat" where
  "reader_size reader = length (fst reader) + sum_list (map answer_size (snd reader))"

lemma read_until_nl_size:
  "read_until_nl buf ans = (r, line, rest, ans') \<Longrightarrow>
     length line + reader_size (rest, ans') \<le> reader_size (buf, ans)"
proof (induction buf ans arbitrary: r line rest ans' rule: read_until_nl.induct)
  case (1 buf ans)
  show ?case
  proof (cases "position (\<lambda>b. b = byte_of c_nl) buf")
    case (Some i)
    with "1.prems" show ?thesis
      by (auto simp: read_until_nl.simps [of buf] reader_size_def)
  next
    case None
    note eq = "1.prems" [unfolded read_until_nl.simps [of buf] None]
    show ?thesis
    proof (cases ans)
      case Nil
      with eq show ?thesis by (auto simp: reader_size_def)
    next
      case (Cons a as)
      show ?thesis
      proof (cases a)
        case (Inl e)
        with eq Cons show ?thesis by (auto simp: reader_size_def)
      next
        case (Inr c)
        show ?thesis
        proof (cases "c = []")
          case True
          with eq Cons Inr show ?thesis by (auto simp: reader_size_def)
        next
          case False
          obtain r2 l2 b2 a2 where rec: "read_until_nl c as = (r2, l2, b2, a2)" by (metis prod_cases4)
          from "1.IH" [OF None Cons Inr False rec] eq Cons Inr False rec show ?thesis
            by (auto simp: reader_size_def)
        qed
      qed
    qed
  qed
qed

lemma read_line_size:
  assumes "read_line [] reader = (r, string, reader')" "string \<noteq> []"
  shows "reader_size reader' < reader_size reader"
proof -
  obtain q line rest ans where u: "read_until_nl (fst reader) (snd reader) = (q, line, rest, ans)"
    by (metis prod_cases4)
  with assms have "line \<noteq> []" "reader' = (rest, ans)"
    by (auto simp: read_line_def split: option.splits)
  with read_until_nl_size [OF u] show ?thesis by (cases line) auto
qed

text \<open>
  \<^verbatim>\<open>read\<close>: the iterator \<^verbatim>\<open>lines\<close> ends at an empty read; an error ends the loop. \<open>n\<close> is
  \<^verbatim>\<open>ninputs\<close>.
\<close>

function read_source ::
  "byte list \<times> read_answers \<Rightarrow> Client_Inputs \<Rightarrow> usize \<Rightarrow> Client_Inputs \<times> usize" where
  "read_source reader q n =
     (case read_line [] reader of
        (Inl why, string, reader) \<Rightarrow> (q, n)
      | (Inr _, string, reader) \<Rightarrow>
          if string = [] then (q, n)
          else let input = trim (strip_line_end string)
               in if input \<noteq> [] \<and> take 1 input \<noteq> [c_hash]
                  then read_source reader (Client_insert_job q n input) (n + 1)
                  else read_source reader q n)"
  by pat_completeness auto
termination
  by (relation "measure (\<lambda>(reader, q, n). reader_size reader)") (auto dest: read_line_size [OF sym])

declare read_source.simps [simp del]

text \<open>\<^verbatim>\<open>file\<close> on the result of \<^verbatim>\<open>File::open\<close>, and \<^verbatim>\<open>stdin\<close>.\<close>

definition source_file :: "read_answers io_result \<Rightarrow> Client_Inputs \<Rightarrow> usize \<Rightarrow> Client_Inputs \<times> usize" where
  [eval_defs]: "source_file file q n = (case file of
     Inr ans \<Rightarrow> read_source ([], ans) q n
   | Inl why \<Rightarrow> (q, n))"

definition source_stdin :: "read_answers \<Rightarrow> Client_Inputs \<Rightarrow> usize \<Rightarrow> Client_Inputs \<times> usize" where
  [eval_defs]: "source_stdin ans q n = read_source ([], ans) q n"

section \<open>What is read\<close>

text \<open>The reference: the lines of a text and the inputs among them.\<close>

fun text_lines :: "rstr \<Rightarrow> rstr list" where
  "text_lines [] = []"
| "text_lines (c # s) =
     (if c = c_nl then [] # text_lines s
      else case text_lines s of [] \<Rightarrow> [[c]] | l # ls \<Rightarrow> (c # l) # ls)"

definition text_inputs :: "rstr \<Rightarrow> rstr list" where
  "text_inputs s = filter (\<lambda>l. l \<noteq> [] \<and> take 1 l \<noteq> [c_hash]) (map trim (text_lines s))"

definition numbered :: "usize \<Rightarrow> rstr list \<Rightarrow> (usize \<times> rstr) list" where
  "numbered n ls = zip (map (\<lambda>k. n + of_nat k) [0..<length ls]) ls"

lemma numbered_simps [simp]:
  "numbered n [] = []"
  "numbered n (l # ls) = (n, l) # numbered (n + 1) ls"
proof -
  show "numbered n [] = []" by (simp add: numbered_def)
  have "map (\<lambda>k. n + of_nat k) [0..<length (l # ls)]
      = n # map (\<lambda>k. n + 1 + of_nat k) [0..<length ls]"
    by (simp add: upt_conv_Cons map_Suc_upt [symmetric] o_def add.assoc del: upt_Suc)
  then show "numbered n (l # ls) = (n, l) # numbered (n + 1) ls"
    by (simp add: numbered_def del: upt_Suc)
qed

lemma text_lines_line: "c_nl \<notin> set l \<Longrightarrow> text_lines (l @ c_nl # s) = l # text_lines s"
  by (induction l) auto

lemma text_lines_last: "c_nl \<notin> set l \<Longrightarrow> l \<noteq> [] \<Longrightarrow> text_lines l = [l]"
proof (induction l)
  case (Cons c l)
  then show ?case by (cases l) auto
qed simp

lemma trim_snoc: "is_whitespace c \<Longrightarrow> trim (l @ [c]) = trim l"
proof -
  assume c: "is_whitespace c"
  show ?thesis
  proof (cases "\<forall>d \<in> set l. is_whitespace d")
    case True
    with c have "\<forall>d \<in> set (l @ [c]). is_whitespace d" by simp
    with True have "dropWhile is_whitespace (l @ [c]) = []" "dropWhile is_whitespace l = []"
      by (blast intro: dropWhile_eq_Nil_conv [THEN iffD2])+
    then show ?thesis unfolding trim_def by metis
  next
    case False
    then have "dropWhile is_whitespace (l @ [c]) = dropWhile is_whitespace l @ [c]"
      by (auto simp: dropWhile_append)
    with c show ?thesis by (simp add: trim_def)
  qed
qed

lemma trim_strip: "trim (strip_line_end l) = trim l"
proof -
  have ws: "is_whitespace c_nl" "is_whitespace c_cr" by (simp_all add: is_whitespace_def)
  have "trim (butlast l) = trim l" if "l \<noteq> []" "is_whitespace (last l)" for l
    using that trim_snoc [of "last l" "butlast l"] by simp
  with ws show ?thesis by (auto simp: strip_line_end_def Let_def)
qed

text \<open>Reading to the end of the stream, with no newline left.\<close>

lemma read_until_nl_end:
  "byte_of c_nl \<notin> set (buf @ concat cs) \<Longrightarrow> [] \<notin> set cs \<Longrightarrow>
     read_until_nl buf (map Inr cs) = (Inr (), buf @ concat cs, [], [])"
proof (induction cs arbitrary: buf)
  case Nil
  then show ?case by (simp add: read_until_nl.simps [of buf] position_eq_None [THEN iffD2])
next
  case (Cons c cs)
  then have "c \<noteq> []" by auto
  with Cons show ?case by (simp add: read_until_nl.simps [of buf] position_eq_None [THEN iffD2])
qed

text \<open>A last line without a newline.\<close>

lemma read_line_last:
  assumes "buf @ concat cs = as_bytes str" "[] \<notin> set cs" "valid_str str" "c_nl \<notin> set str"
  shows "read_line [] (buf, map Inr cs) = (Inr (), str, [], [])"
proof -
  have "byte_of c_nl \<notin> set (buf @ concat cs)"
    using assms by (simp only: assms(1)) (simp add: ascii_in_as_bytes)
  from read_until_nl_end [OF this assms(2)] assms show ?thesis by (simp add: read_line_def)
qed

lemma read_source_text:
  assumes "buf @ concat cs = as_bytes str" "[] \<notin> set cs" "valid_str str"
  shows "read_source (buf, map Inr cs) q n =
    (q\<lparr>queue := queue q @ numbered n (text_inputs str)\<rparr>, n + of_nat (length (text_inputs str)))"
  using assms
proof (induction "length str" arbitrary: buf cs str q n rule: less_induct)
  case less
  define acc where "acc l \<longleftrightarrow> trim l \<noteq> [] \<and> take 1 (trim l) \<noteq> [c_hash]" for l
  have inputs_Cons: "text_inputs t = (if acc l then [trim l] else []) @ text_inputs s"
    if "text_lines t = l # text_lines s" for t l s
    using that by (simp add: text_inputs_def acc_def)
  show ?case
  proof (cases "c_nl \<in> set str")
    case True
    then obtain l s where t: "str = l @ c_nl # s" "c_nl \<notin> set l" by (meson split_list_first)
    with less.prems have "buf @ concat cs = as_bytes l @ byte_of c_nl # as_bytes s"
      "valid_str l" "valid_str s" by (simp_all add: encode_char_ascii)
    from read_line_text [OF this(1) less.prems(2) this(2) t(2), of "[]" "[]"] obtain b' cs' where
      r: "read_line [] (buf, map Inr cs) = (Inr (), l @ [c_nl], b', map Inr cs')"
      "b' @ concat cs' = as_bytes s" "[] \<notin> set cs'" by auto
    have "length s < length str" using t by simp
    note IH = less.hyps [OF this r(2,3) \<open>valid_str s\<close>]
    have "trim (strip_line_end (l @ [c_nl])) = trim l"
      unfolding trim_strip by (rule trim_snoc) (simp add: is_whitespace_def)
    then have "read_source (buf, map Inr cs) q n = (if acc l
        then read_source (b', map Inr cs') (Client_insert_job q n (trim l)) (n + 1)
        else read_source (b', map Inr cs') q n)"
      by (simp add: read_source.simps [of "(buf, map Inr cs)"] r(1) acc_def Let_def)
    moreover from t have "text_lines str = l # text_lines s" by (simp add: text_lines_line)
    note inputs_Cons [OF this]
    ultimately show ?thesis by (simp add: IH Client_insert_job_def add.assoc)
  next
    case False
    note r = read_line_last [OF less.prems False]
    show ?thesis
    proof (cases "str = []")
      case True
      with r show ?thesis
        by (simp add: read_source.simps [of "(buf, map Inr cs)"] text_inputs_def)
    next
      case ne: False
      have e: "read_source ([], []) q n = (q, n)" for q n
        by (simp add: read_source.simps [of "([], [])"] read_line_def read_until_nl.simps)
      have "text_inputs str = (if acc str then [trim str] else [])"
        using inputs_Cons [of str str "[]"] text_lines_last [OF False ne] by (simp add: text_inputs_def)
      with r ne show ?thesis
        by (simp add: read_source.simps [of "(buf, map Inr cs)"] e trim_strip acc_def Let_def
            Client_insert_job_def)
    qed
  qed
qed

text \<open>
  C28. What is queued from a file or a pipe: whatever the chunks in which a text arrives, the
  queue receives its trimmed lines, without the empty ones and the ones that begin with a
  hash, in the order of the text and with consecutive IDs, and the counter advances by
  their number.
\<close>

theorem source_inputs:
  assumes "concat cs = as_bytes str" "[] \<notin> set cs" "valid_str str"
  shows "source_stdin (map Inr cs) q n =
    (let ls = filter (\<lambda>l. l \<noteq> [] \<and> hd l \<noteq> c_hash) (map trim (text_lines str))
     in (q\<lparr>queue := queue q @ zip (map (\<lambda>k. n + of_nat k) [0..<length ls]) ls\<rparr>, n + of_nat (length ls)))"
proof -
  have "(l \<noteq> [] \<and> take 1 l \<noteq> [c_hash]) = (l \<noteq> [] \<and> hd l \<noteq> c_hash)" for l
    by (cases l) auto
  with read_source_text [of "[]" cs str q n] assms show ?thesis
    by (simp add: source_stdin_def Let_def text_inputs_def numbered_def)
qed

theorem source_inputs_witness:
  "source_stdin [Inr (as_bytes [97, c_nl, c_hash]), Inr (as_bytes [98, c_nl, c_nl, c_space, 99])] \<lparr>queue = []\<rparr> 0
   = (\<lparr>queue = [(0, [97]), (1, [99])]\<rparr>, 2)"
proof -
  have "[Inr (as_bytes [97, c_nl, c_hash]), Inr (as_bytes [98, c_nl, c_nl, c_space, 99])]
      = map Inr [as_bytes [97, c_nl, c_hash], as_bytes [98, c_nl, c_nl, c_space, 99]]" by simp
  with source_inputs [of "[as_bytes [97, c_nl, c_hash], as_bytes [98, c_nl, c_nl, c_space, 99]]"
      "[97, c_nl, c_hash, 98, c_nl, c_nl, c_space, 99]" "\<lparr>queue = []\<rparr>" 0]
  show ?thesis by (simp add: scalar_def trim_def is_whitespace_def Let_def)
qed

end
