(* ===== verification/Events.thy ===== *)
theory Events
  imports Jobs
begin

text \<open>
  The events of the job server, \<^verbatim>\<open>src/server/service/events.rs\<close>, with \<^verbatim>\<open>obtain\<close> of
  \<^verbatim>\<open>mod.rs\<close>: parsing the arguments of an instruction into an event, printing a response,
  and the escaping of newlines in the outputs of a job. A \<^verbatim>\<open>&[u8]\<close> is a \<open>byte list\<close>.
\<close>

section \<open>Requests\<close>

datatype job_event =
    Command rstr
  | Input usize usize rstr
  | GetCommands
  | GetCores
  | StopJob usize

text \<open>\<^verbatim>\<open>obtain\<close> of \<^verbatim>\<open>mod.rs\<close> and \<^verbatim>\<open>parse_usize\<close>.\<close>

definition obtain_str :: "byte list \<Rightarrow> rstr io_result" where [eval_defs]:
  "obtain_str input = ok_or (Other ''invalid UTF-8'') (from_utf8 input)"

definition parse_usize :: "byte list \<Rightarrow> usize io_result" where [eval_defs]:
  "parse_usize input =
     and_then (ok_or (Other ''invalid UTF-8'') (from_utf8 input))
       (\<lambda>s. ok_or (Other ''ID is NaN'') (parse_uint s))"

text \<open>
  The parsers return \<^verbatim>\<open>io::Result<Option<JobEvent>>\<close>. \<open>bytes\<close> writes a byte string
  literal.
\<close>

definition bytes :: "string \<Rightarrow> byte list" where [eval_defs]:
  "bytes s = as_bytes (lit s)"

definition get_command :: "byte list \<Rightarrow> job_event option io_result" where [eval_defs]:
  "get_command input = and_then (obtain_str input) (\<lambda>s. Inr (Some (Command s)))"

definition get_option :: "byte list \<Rightarrow> job_event option io_result" where [eval_defs]:
  "get_option input =
     (if input = bytes ''comms'' then Inr (Some GetCommands)
      else if input = bytes ''cores'' then Inr (Some GetCores)
      else Inl (Other ''unsupported value''))"

definition del_command :: "byte list \<Rightarrow> job_event option io_result" where [eval_defs]:
  "del_command input = and_then (parse_usize input) (\<lambda>n. Inr (Some (StopJob n)))"

text \<open>\<open>get_input\<close> slices; the outer \<open>None\<close> is a slice that panics.\<close>

definition get_input :: "byte list \<Rightarrow> job_event option io_result option" where [eval_defs]:
  "get_input input =
     (case position (\<lambda>b. b = byte_of c_space) input of
        Some index \<Rightarrow>
          Option.bind (array_to input index) (\<lambda>word.
          try_then (parse_usize word) (\<lambda>cid.
          Option.bind (array_from input (index + 1)) (\<lambda>input.
            case position (\<lambda>b. b = byte_of c_space) input of
              Some index \<Rightarrow>
                Option.bind (array_to input index) (\<lambda>word.
                try_then (parse_usize word) (\<lambda>jid.
                Option.bind (array_from input (index + 1)) (\<lambda>rest.
                  Some (and_then (obtain_str rest) (\<lambda>s. Inr (Some (Input cid jid s)))))))
            | None \<Rightarrow> Some (Inl (Other ''not enough arguments'')))))
      | None \<Rightarrow> Some (Inl (Other ''not enough arguments'')))"

lemma get_input_no_panic: "get_input input \<noteq> None"
  by (simp add: get_input_def try_then_None position_slices del: not_None_eq split: option.split)

section \<open>Responses\<close>

datatype response_event =
    Error usize rstr
  | Output usize u8 rstr rstr
  | Info rstr

text \<open>
  \<^verbatim>\<open>escape\<close>: the loop keeps the start of the pending slice and the output. At a
  backslash the pending slice is flushed and restarts at the backslash itself, which is
  therefore copied once, not doubled.
\<close>

fun escape_loop :: "rstr \<Rightarrow> (nat \<times> rchar) list \<Rightarrow> nat \<Rightarrow> rstr \<Rightarrow> (nat \<times> rstr) option" where
  "escape_loop input [] start output = Some (start, output)"
| "escape_loop input ((i, c) # chars) start output =
     (if c = c_nl then
        Option.bind (str_slice input start i)
          (\<lambda>t. escape_loop input chars (i + 1) (output @ t @ [c_backslash, c_n]))
      else if c = c_backslash then
        Option.bind (str_slice input start i)
          (\<lambda>t. escape_loop input chars i (output @ t))
      else escape_loop input chars start output)"

definition escape :: "rstr \<Rightarrow> rstr option" where [eval_defs]:
  "escape input =
     Option.bind (escape_loop input (char_indices input) 0 [])
       (\<lambda>(start, output).
          if start \<noteq> str_len input
          then map_option (\<lambda>t. output @ t) (slice_from input start)
          else Some output)"

text \<open>\<^verbatim>\<open>Display for ResponseEvent\<close>; \<open>None\<close> would be a panic in \<open>escape\<close>.\<close>

definition fmt_response :: "response_event \<Rightarrow> rstr option" where [eval_defs]:
  "fmt_response ev = (case ev of
     Error i out \<Rightarrow>
       map_option (\<lambda>e. lit ''ERR '' @ to_string i @ lit '' '' @ e) (escape out)
   | Output jid status stdout stderr \<Rightarrow>
       Option.bind (escape stdout) (\<lambda>o'. map_option (\<lambda>e.
         to_string jid @ lit '' '' @ to_string status @ [c_nl] @ o' @ [c_nl] @ e)
           (escape stderr))
   | Info info \<Rightarrow> Some info)"

section \<open>What escaping does\<close>

text \<open>The reference: every newline becomes a backslash and an \<^verbatim>\<open>n\<close>, nothing else changes.\<close>

definition escape_char :: "rchar \<Rightarrow> rstr" where
  "escape_char c = (if c = c_nl then [c_backslash, c_n] else [c])"

definition escaped_form :: "rstr \<Rightarrow> rstr" where
  "escaped_form s = concat (map escape_char s)"

lemma escaped_form_simps [simp]:
  "escaped_form [] = []"
  "escaped_form (c # s) = escape_char c @ escaped_form s"
  "escaped_form (s @ t) = escaped_form s @ escaped_form t"
  by (simp_all add: escaped_form_def)

lemma escaped_form_id: "c_nl \<notin> set s \<Longrightarrow> escaped_form s = s"
  by (induction s) (auto simp: escape_char_def)

text \<open>The loop from inside an input \<open>p @ m @ r\<close> whose pending slice is \<open>m\<close>.\<close>

lemma escape_loop_form:
  assumes "input = p @ m @ r" "c_nl \<notin> set m"
  shows "\<exists>q t. escape_loop input (char_indices_from (str_len (p @ m)) r) (str_len p) out
      = Some (str_len q, out @ escaped_form t)
    \<and> (\<exists>u. input = q @ u \<and> escaped_form t @ u = escaped_form (m @ r))"
  using assms
proof (induction r arbitrary: p m out)
  case Nil
  then have "input = p @ m \<and> escaped_form [] @ m = escaped_form (m @ [])"
    by (simp add: escaped_form_id)
  moreover have "escape_loop input (char_indices_from (str_len (p @ m)) []) (str_len p) out
      = Some (str_len p, out @ escaped_form [])" by simp
  ultimately show ?case by blast
next
  case (Cons c r)
  from Cons.prems have sl: "str_slice input (str_len p) (str_len p + str_len m) = Some m"
    by simp
  have m: "escaped_form m = m" using Cons.prems by (simp add: escaped_form_id)
  consider "c = c_nl" | "c = c_backslash" | "c \<noteq> c_nl" "c \<noteq> c_backslash" by blast
  then show ?case
  proof cases
    case 1
    have w: "Suc (str_len p + str_len m) = str_len (p @ m @ [c])"
      using 1 by (simp add: len_utf8_def)
    from Cons.IH [of "p @ m @ [c]" "[]" "out @ m @ [c_backslash, c_n]"] Cons.prems
    obtain q t u where
      "escape_loop input (char_indices_from (str_len (p @ m @ [c])) r) (str_len (p @ m @ [c]))
         (out @ m @ [c_backslash, c_n])
       = Some (str_len q, (out @ m @ [c_backslash, c_n]) @ escaped_form t)"
      "input = q @ u" "escaped_form t @ u = escaped_form r"
      by auto
    with 1 sl m w show ?thesis
      by (intro exI [of _ q] exI [of _ "m @ [c] @ t"])
        (auto simp: escape_char_def add.assoc intro!: exI [of _ u])
  next
    case 2
    from Cons.IH [of "p @ m" "[c]" "out @ m"] Cons.prems 2
    obtain q t u where
      "escape_loop input (char_indices_from (str_len ((p @ m) @ [c])) r) (str_len (p @ m)) (out @ m)
       = Some (str_len q, (out @ m) @ escaped_form t)"
      "input = q @ u" "escaped_form t @ u = escaped_form ([c] @ r)"
      by auto
    with 2 sl m show ?thesis
      by (intro exI [of _ q] exI [of _ "m @ t"]) (auto simp: add.assoc intro!: exI [of _ u])
  next
    case 3
    from Cons.IH [of p "m @ [c]" out] Cons.prems 3
    show ?thesis by (simp add: add.assoc)
  qed
qed

lemma escape_form: "escape s = Some (escaped_form s)"
proof -
  from escape_loop_form [of s "[]" "[]" s "[]"] obtain q t u where
    l: "escape_loop s (char_indices s) 0 [] = Some (str_len q, escaped_form t)"
    and s: "s = q @ u" "escaped_form t @ u = escaped_form s"
    by (auto simp: char_indices_def)
  from s(1) have "slice_from s (str_len q) = Some u" by simp
  with l s show ?thesis by (auto simp: escape_def)
qed

lemma escaped_form_no_nl: "c_nl \<notin> set (escaped_form s)"
  by (auto simp: escaped_form_def escape_char_def)

lemma valid_escaped_form [simp]: "valid_str s \<Longrightarrow> valid_str (escaped_form s)"
  by (induction s) (auto simp: escape_char_def scalar_def)

text \<open>
  Escaping never panics, replaces exactly the newlines, and its result has none, so
  that it fits in one line of a response.
\<close>

theorem escape_newlines:
  "\<exists>e. escape s = Some e \<and> e = concat (map (\<lambda>c. if c = c_nl then [c_backslash, c_n] else [c]) s)
    \<and> c_nl \<notin> set e"
  using escaped_form_no_nl [of s]
  by (simp add: escape_form escaped_form_def escape_char_def [abs_def])

end
