(* ===== verification/Slot.thy ===== *)
theory Slot
  imports Connection Client_Queues Events
begin

text \<open>
  The slots that hand inputs to the nodes, \<^verbatim>\<open>src/client/slot.rs\<close>: the results cache with
  the instruction it writes and the response it reads, the unescaping of outputs, and the
  event loop with its queue of failed exchanges. The threads of all slots are interleaved
  at their operations on the shared state. A step of a function that may panic has an
  \<open>option\<close> around its value.
\<close>

section \<open>Unescaping\<close>

text \<open>
  \<^verbatim>\<open>unescape\<close>: the iterator is the rest of \<^verbatim>\<open>char_indices\<close>; behind a backslash one more
  character is taken from it.
\<close>

fun unescape_loop :: "rstr \<Rightarrow> (nat \<times> rchar) list \<Rightarrow> nat \<Rightarrow> rstr \<Rightarrow> (nat \<times> rstr) option" where
  "unescape_loop input [] start string = Some (start, string)"
| "unescape_loop input ((i, c) # chars) start string =
     (if c = c_backslash then
        (case chars of
           [] \<Rightarrow> unescape_loop input [] start string
         | (_, nchar) # chars \<Rightarrow>
             if nchar = c_backslash then
               Option.bind (str_slice input start (i + 1))
                 (\<lambda>t. unescape_loop input chars (i + 2) (string @ t))
             else if nchar = c_n then
               Option.bind (str_slice input start i)
                 (\<lambda>t. unescape_loop input chars (i + 2) (string @ t @ [c_nl]))
             else unescape_loop input chars start string)
      else unescape_loop input chars start string)"

definition unescape :: "rstr \<Rightarrow> rstr option" where [eval_defs]:
  "unescape input =
     Option.bind (unescape_loop input (char_indices input) 0 [])
       (\<lambda>(start, string).
          if start \<noteq> str_len input
          then map_option (\<lambda>t. string @ t) (slice_from input start)
          else Some string)"

text \<open>The reference: two escapes, everything else is kept.\<close>

fun unescaped :: "rstr \<Rightarrow> rstr" where
  "unescaped [] = []"
| "unescaped [c] = [c]"
| "unescaped (c # d # s) =
     (if c = c_backslash then
        (if d = c_backslash then c_backslash # unescaped s
         else if d = c_n then c_nl # unescaped s
         else c # d # unescaped s)
      else c # unescaped (d # s))"

lemma unescaped_plain [simp]: "c \<noteq> c_backslash \<Longrightarrow> unescaped (c # s) = c # unescaped s"
  by (cases s) auto

text \<open>The loop from inside an input \<open>p @ m @ r\<close> whose pending slice is \<open>m\<close>.\<close>

lemma unescape_loop_form:
  assumes "input = p @ m @ r"
  shows "\<exists>q t u. unescape_loop input (char_indices_from (str_len (p @ m)) r) (str_len p) out
      = Some (str_len q, out @ t) \<and> input = q @ u \<and> t @ u = m @ unescaped r"
  using assms
proof (induction r arbitrary: p m out rule: unescaped.induct)
  case 1
  then show ?case
    by (intro exI [of _ p] exI [of _ "[]"] exI [of _ m]) simp
next
  case (2 c)
  then show ?case
    by (intro exI [of _ p] exI [of _ "[]"] exI [of _ "m @ [c]"]) simp
next
  case (3 c d s)
  consider (bb) "c = c_backslash" "d = c_backslash" | (bn) "c = c_backslash" "d = c_n"
    | (bx) "c = c_backslash" "d \<noteq> c_backslash" "d \<noteq> c_n" | (x) "c \<noteq> c_backslash" by blast
  then show ?case
  proof cases
    case bb
    have sl: "str_slice input (str_len p) (str_len p + str_len (m @ [c])) = Some (m @ [c])"
      using 3(5) str_slice_append [of p "m @ [c]" "d # s"] by simp
    from "3.IH"(1) [OF bb, of "p @ m @ [c, d]" "[]" "out @ m @ [c]"] 3(5)
    obtain q t u where "unescape_loop input (char_indices_from (str_len (p @ m @ [c, d])) s)
        (str_len (p @ m @ [c, d])) (out @ m @ [c]) = Some (str_len q, (out @ m @ [c]) @ t)"
      "input = q @ u" "t @ u = unescaped s" by auto
    with bb sl show ?thesis
      by (intro exI [of _ q] exI [of _ "m @ [c] @ t"] exI [of _ u])
        (simp add: len_utf8_def add.assoc)
  next
    case bn
    have sl: "str_slice input (str_len p) (str_len p + str_len m) = Some m"
      using 3(5) by simp
    from bn have "d \<noteq> c_backslash" by simp
    from "3.IH"(2) [OF bn(1) this bn(2), of "p @ m @ [c, d]" "[]" "out @ m @ [c_nl]"] 3(5)
    obtain q t u where "unescape_loop input (char_indices_from (str_len (p @ m @ [c, d])) s)
        (str_len (p @ m @ [c, d])) (out @ m @ [c_nl]) = Some (str_len q, (out @ m @ [c_nl]) @ t)"
      "input = q @ u" "t @ u = unescaped s" by auto
    with bn sl show ?thesis
      by (intro exI [of _ q] exI [of _ "m @ [c_nl] @ t"] exI [of _ u])
        (simp add: len_utf8_def add.assoc)
  next
    case bx
    from "3.IH"(3) [OF bx, of p "m @ [c, d]" out] 3(5) bx show ?thesis
      by (simp add: add.assoc)
  next
    case x
    from "3.IH"(4) [OF x, of p "m @ [c]" out] 3(5) x show ?thesis
      by (simp add: add.assoc)
  qed
qed

lemma unescape_form: "unescape s = Some (unescaped s)"
proof -
  from unescape_loop_form [of s "[]" "[]" s "[]"] obtain q t u where
    l: "unescape_loop s (char_indices s) 0 [] = Some (str_len q, t)"
    and s: "s = q @ u" "t @ u = unescaped s"
    by (auto simp: char_indices_def)
  from s(1) have "slice_from s (str_len q) = Some u" by simp
  with l s show ?thesis by (auto simp: unescape_def)
qed

section \<open>Escaping and unescaping\<close>

text \<open>A backslash before a backslash, an \<^verbatim>\<open>n\<close> or a newline.\<close>

fun ambiguous :: "rstr \<Rightarrow> bool" where
  "ambiguous (c # d # s) \<longleftrightarrow>
     c = c_backslash \<and> (d = c_backslash \<or> d = c_n \<or> d = c_nl) \<or> ambiguous (d # s)"
| "ambiguous _ \<longleftrightarrow> False"

lemma ambiguous_plain [simp]: "c \<noteq> c_backslash \<Longrightarrow> ambiguous (c # s) \<longleftrightarrow> ambiguous s"
  by (cases s) auto

lemma escape_char_simps [simp]:
  "escape_char c_nl = [c_backslash, c_n]" "c \<noteq> c_nl \<Longrightarrow> escape_char c = [c]"
  by (simp_all add: escape_char_def)

lemma escape_char_cases [simp]:
  "escape_char c_backslash = [c_backslash]" "escape_char c_n = [c_n]"
  by (simp_all add: escape_char_def)

lemma unescaped_length: "length (unescaped (escaped_form s)) \<le> length s"
proof (induction s rule: unescaped.induct)
  case (2 c)
  then show ?case by (cases "c = c_nl"; cases "c = c_backslash") simp_all
next
  case (3 c d s)
  show ?case
  proof (cases "c = c_backslash")
    case True
    with 3(1-3) show ?thesis
      by (cases "d = c_backslash"; cases "d = c_n"; cases "d = c_nl") simp_all
  next
    case False
    with 3(4) show ?thesis by (cases "c = c_nl") simp_all
  qed
qed simp

lemma unescaped_shorter: "length t < length s \<Longrightarrow> unescaped (escaped_form t) \<noteq> s"
  using unescaped_length [of t] by auto

lemma unescaped_escaped: "unescaped (escaped_form s) = s \<longleftrightarrow> \<not> ambiguous s"
proof (induction s rule: unescaped.induct)
  case (2 c)
  then show ?case by (cases "c = c_nl"; cases "c = c_backslash") simp_all
next
  case (3 c d s)
  show ?case
  proof (cases "c = c_backslash")
    case True
    with 3(1-3) unescaped_shorter [of s "c # s"] show ?thesis
      by (cases "d = c_backslash"; cases "d = c_n"; cases "d = c_nl") simp_all
  next
    case False
    with 3(4) show ?thesis by (cases "c = c_nl") simp_all
  qed
qed simp

lemma ambiguous_Cons: "ambiguous s \<Longrightarrow> ambiguous (c # s)"
  by (cases s) auto

lemma ambiguous_pair:
  "c \<in> {c_backslash, c_n, c_nl} \<Longrightarrow> ambiguous (p @ c_backslash # c # q)"
  by (induction p) (auto intro: ambiguous_Cons)

lemma ambiguous_split:
  "ambiguous s \<Longrightarrow> \<exists>p c q. s = p @ c_backslash # c # q \<and> c \<in> {c_backslash, c_n, c_nl}"
proof (induction s rule: ambiguous.induct)
  case (1 c d s)
  show ?case
  proof (cases "ambiguous (d # s)")
    case True
    with "1.IH" obtain p e q where "d # s = p @ c_backslash # e # q" "e \<in> {c_backslash, c_n, c_nl}"
      by blast
    then show ?thesis by (intro exI [of _ "c # p"] exI [of _ e] exI [of _ q]) simp
  next
    case False
    with "1.prems" show ?thesis by (intro exI [of _ "[]"] exI [of _ d] exI [of _ s]) simp
  qed
qed simp_all

text \<open>
  C19. What a client shows of an output is the output: unescaping never panics, and it
  undoes the server's escaping of a text exactly when no backslash of the text stands
  before a backslash, an \<^verbatim>\<open>n\<close> or a newline. Texts with such a pair come out changed.
\<close>

theorem unescape_escape:
  "Option.bind (escape s) unescape = Some s \<longleftrightarrow>
     (\<nexists>p c q. s = p @ c_backslash # c # q \<and> c \<in> {c_backslash, c_n, c_nl})"
  using ambiguous_split [of s] ambiguous_pair
  by (auto simp: escape_form unescape_form unescaped_escaped)

section \<open>The results cache\<close>

record results_cache =
  rc_instruction :: "byte list"
  rc_status :: rstr
  rc_stdout :: rstr
  rc_stderr :: rstr

definition cache_new :: results_cache where [eval_defs]:
  "cache_new = \<lparr>rc_instruction = [], rc_status = [], rc_stdout = [], rc_stderr = []\<rparr>"

text \<open>\<^verbatim>\<open>clear\<close> does not touch the instruction.\<close>

definition cache_clear :: "results_cache \<Rightarrow> results_cache" where [eval_defs]:
  "cache_clear self = self\<lparr>rc_status := [], rc_stdout := [], rc_stderr := []\<rparr>"

text \<open>
  \<^verbatim>\<open>read_from\<close> over a new \<^verbatim>\<open>BufReader\<close>. An error leaves the cache with the lines read so
  far; at the end the last character of each line is popped.
\<close>

definition read_from :: "results_cache \<Rightarrow> stream \<Rightarrow> unit io_result \<times> results_cache \<times> stream" where
  [eval_defs]: "read_from self s =
     (let (r, status, buf, ans) = read_line (rc_status self) ([], incoming s);
          self = self\<lparr>rc_status := status\<rparr>
      in case r of Inl e \<Rightarrow> (Inl e, self, s\<lparr>incoming := ans\<rparr>) | Inr _ \<Rightarrow>
     (let (r, stdout, buf, ans) = read_line (rc_stdout self) (buf, ans);
          self = self\<lparr>rc_stdout := stdout\<rparr>
      in case r of Inl e \<Rightarrow> (Inl e, self, s\<lparr>incoming := ans\<rparr>) | Inr _ \<Rightarrow>
     (let (r, stderr, buf, ans) = read_line (rc_stderr self) (buf, ans);
          self = self\<lparr>rc_stderr := stderr\<rparr>
      in case r of Inl e \<Rightarrow> (Inl e, self, s\<lparr>incoming := ans\<rparr>) | Inr _ \<Rightarrow>
        (Inr (), self\<lparr>rc_status := butlast (rc_status self), rc_stdout := butlast (rc_stdout self),
           rc_stderr := butlast (rc_stderr self)\<rparr>, s\<lparr>incoming := ans\<rparr>))))"

text \<open>
  Reading from a connection that stays open: when the bytes that have arrived are used up, a
  \<^verbatim>\<open>read\<close> waits. Whether \<open>read_from\<close> waits for more than the answers \<open>incoming s\<close> is computed
  by running it with a marker behind them: it waits exactly if it comes to the marker.
\<close>

definition read_blocks :: "results_cache \<Rightarrow> stream \<Rightarrow> bool" where [eval_defs]:
  "read_blocks self s \<longleftrightarrow>
     (case read_from self (s\<lparr>incoming := incoming s @ [Inl (Os 11)]\<rparr>) of
        (r, self, s) \<Rightarrow> incoming s = [])"

definition write_instruction ::
  "results_cache \<Rightarrow> stream \<Rightarrow> usize \<Rightarrow> usize \<Rightarrow> rstr \<Rightarrow> unit io_result \<times> results_cache \<times> stream" where
  [eval_defs]: "write_instruction self s cid jid input =
     (let self = self\<lparr>rc_instruction := rc_instruction self @ bytes ''inp ''
            @ as_bytes (to_string cid) @ [byte_of c_space]
            @ as_bytes (to_string jid) @ [byte_of c_space]
            @ as_bytes input @ [byte_of c_cr, byte_of c_nl]\<rparr>
      in case attempt_write s (rc_instruction self) of
           (Inl e, s) \<Rightarrow> (Inl e, self, s)
         | (Inr _, s) \<Rightarrow> (Inr (), self\<lparr>rc_instruction := []\<rparr>, s))"

text \<open>\<^verbatim>\<open>str::find\<close> of a character: its byte offset.\<close>

definition str_find :: "rstr \<Rightarrow> rchar \<Rightarrow> nat option" where [eval_defs]:
  "str_find s c = map_option (\<lambda>i. str_len (take i s)) (position (\<lambda>d. d = c) s)"

definition parse_u8 :: "rstr \<Rightarrow> u8 io_result" where [eval_defs]:
  "parse_u8 input = ok_or (Other ''ID is NaN'') (parse_uint input)"

definition parse_id :: "rstr \<Rightarrow> usize io_result" where [eval_defs]:
  "parse_id input = ok_or (Other ''ID is NaN'') (parse_uint input)"

text \<open>\<^verbatim>\<open>parse_status\<close>; \<open>None\<close> would be a panic of \<^verbatim>\<open>split_at\<close> or of the slice.\<close>

definition parse_status :: "results_cache \<Rightarrow> (usize \<times> u8) io_result option" where [eval_defs]:
  "parse_status self = (case str_find (rc_status self) c_space of
     None \<Rightarrow> Some (Inl (Other ''invalid status line''))
   | Some pos \<Rightarrow>
       Option.bind (split_at (rc_status self) pos) (\<lambda>(i, status).
         (case parse_id i of
            Inl e \<Rightarrow> Some (Inl e)
          | Inr i \<Rightarrow>
              map_option (\<lambda>t. map_sum id (\<lambda>st. (i, st)) (parse_u8 t)) (slice_from status 1))))"

definition read_results ::
  "('m, job_output) map_ops \<Rightarrow> stream \<Rightarrow> 'm Client_Outputs \<Rightarrow> results_cache
   \<Rightarrow> (unit io_result \<times> stream \<times> 'm Client_Outputs \<times> results_cache) option" where
  [eval_defs]: "read_results M s outs cache = (case read_from cache s of
     (Inl e, cache, s) \<Rightarrow> Some (Inl e, s, outs, cache)
   | (Inr _, cache, s) \<Rightarrow>
       Option.bind (parse_status cache) (\<lambda>r. case r of
         Inl e \<Rightarrow> Some (Inl e, s, outs, cache)
       | Inr (i, status) \<Rightarrow>
           Option.bind (unescape (rc_stdout cache)) (\<lambda>out.
           Option.bind (unescape (rc_stderr cache)) (\<lambda>err.
             Some (Inr (), s, push_external M outs i status out err, cache)))))"

text \<open>
  One exchange: the body of the slot's loop from the instruction to the cleared cache.
\<close>

definition exchange ::
  "('m, job_output) map_ops \<Rightarrow> usize \<Rightarrow> usize \<Rightarrow> rstr \<Rightarrow> stream \<Rightarrow> 'm Client_Outputs \<Rightarrow> results_cache
   \<Rightarrow> (unit io_result \<times> stream \<times> 'm Client_Outputs \<times> results_cache) option" where
  [eval_defs]: "exchange M cid jid input s outs cache =
     map_option (\<lambda>(r, s, outs, cache). (r, s, outs, cache_clear cache))
       (case write_instruction cache s cid jid input of
          (Inl e, cache, s) \<Rightarrow> Some (Inl e, s, outs, cache)
        | (Inr _, cache, s) \<Rightarrow> read_results M s outs cache)"

section \<open>Exchanges\<close>

lemma parse_status_total: "parse_status cache \<noteq> None"
proof (cases "position (\<lambda>d. d = c_space) (rc_status cache)")
  case None
  then show ?thesis by (simp add: parse_status_def str_find_def)
next
  case (Some i)
  from position_split [OF Some] position_SomeD [OF Some]
  have s: "rc_status cache = take i (rc_status cache) @ c_space # drop (Suc i) (rc_status cache)"
    by simp
  then have "split_at (rc_status cache) (str_len (take i (rc_status cache)))
      = Some (take i (rc_status cache), c_space # drop (Suc i) (rc_status cache))"
    using split_at_append [of "take i (rc_status cache)" "c_space # drop (Suc i) (rc_status cache)"]
    by metis
  moreover have "slice_from (c_space # t) 1 = Some t" for t
    using slice_from_append [of "[c_space]" t] by (simp add: len_utf8_def)
  ultimately show ?thesis using Some
    by (auto simp: parse_status_def str_find_def split: sum.split)
qed

lemma read_results_total: "read_results M s outs cache \<noteq> None"
proof -
  obtain r c s' where rf: "read_from cache s = (r, c, s')" by (rule prod_cases3)
  obtain y where y: "parse_status c = Some y" using parse_status_total by blast
  show ?thesis
  proof (cases r)
    case (Inr u)
    with rf y show ?thesis by (cases y) (auto simp: read_results_def unescape_form)
  qed (use rf in \<open>simp add: read_results_def\<close>)
qed

text \<open>An exchange never panics, whatever the node sends.\<close>

lemma exchange_total: "exchange M cid jid input s outs cache \<noteq> None"
  using read_results_total by (auto simp: exchange_def split: prod.splits sum.splits)

lemma exchange_some: "\<exists>r s' outs' cache'. exchange M cid jid input s outs cache = Some (r, s', outs', cache')"
  using exchange_total by (metis option.exhaust prod_cases4)

text \<open>An output is entered exactly by an exchange that succeeds.\<close>

lemma exchange_outputs:
  assumes "exchange M cid jid input s outs cache = Some (r, s', outs', cache')"
  shows "case r of Inl e \<Rightarrow> outs' = outs
    | Inr _ \<Rightarrow> \<exists>k st out err. outs' = push_external M outs k st out err"
  using assms
  by (auto simp: exchange_def read_results_def split: prod.splits sum.splits bind_splits)

text \<open>A status line as the server writes it.\<close>

lemma parse_status_line:
  "parse_status \<lparr>rc_instruction = b, rc_status = to_string i @ c_space # to_string st, rc_stdout = out,
     rc_stderr = err\<rparr> = Some (Inr (i, st))"
proof -
  have "position (\<lambda>d. d = c_space) (to_string i @ c_space # to_string st) = Some (length (to_string i))"
    by (rule position_first) (simp add: to_string_ascii)
  moreover have "slice_from (c_space # t) 1 = Some t" for t
    using slice_from_append [of "[c_space]" t] by (simp add: len_utf8_def)
  ultimately show ?thesis
    by (simp add: parse_status_def str_find_def parse_id_def parse_u8_def)
qed

text \<open>
  C35. The instruction buffer is not cleared by a failure: after a write that failed for good
  and the clearing of the cache, the next instruction goes out behind the bytes of the
  failed one.
\<close>

theorem stale_instruction_sent:
  assumes "write_instruction cache s cid jid input = (Inl e, cache', s')"
    and "write_answers s' = []"
  shows "write_instruction (cache_clear cache') s' cid jid' input' =
    (Inr (), (cache_clear cache')\<lparr>rc_instruction := []\<rparr>,
     s'\<lparr>sent := sent s' @ rc_instruction cache
       @ as_bytes (lit ''inp '' @ to_string cid @ lit '' '' @ to_string jid @ lit '' '' @ input @ [c_cr, c_nl])
       @ as_bytes (lit ''inp '' @ to_string cid @ lit '' '' @ to_string jid' @ lit '' '' @ input' @ [c_cr, c_nl])\<rparr>)"
proof -
  from assms(1) have "rc_instruction cache' = rc_instruction cache @ as_bytes (lit ''inp '' @ to_string cid
      @ lit '' '' @ to_string jid @ lit '' '' @ input @ [c_cr, c_nl])"
    by (auto simp: write_instruction_def Let_def bytes_def lit_def encode_char_ascii
        split: prod.splits sum.splits)
  with assms(2) show ?thesis
    by (simp add: write_instruction_def cache_clear_def attempt_write_ok bytes_def lit_def
        encode_char_ascii)
qed

theorem stale_instruction_sent_witness:
  "\<exists>s'. sent (snd (snd (write_instruction (cache_clear (fst (snd (write_instruction cache_new
       \<lparr>incoming = [], write_answers = [Inl (Os 32, 0), Inl (Os 32, 0), Inl (Os 32, 0), Inl (Os 32, 0)], sent = []\<rparr>
       0 1 (lit ''a''))))) s' 0 2 (lit ''b''))))
     = as_bytes (lit ''inp '' @ to_string (0 :: usize) @ lit '' '' @ to_string (1 :: usize) @ lit '' '' @ lit ''a'' @ [c_cr, c_nl])
       @ as_bytes (lit ''inp '' @ to_string (0 :: usize) @ lit '' '' @ to_string (2 :: usize) @ lit '' '' @ lit ''b'' @ [c_cr, c_nl])"
proof -
  let ?s = "\<lparr>incoming = [], write_answers = [Inl (Os 32, 0), Inl (Os 32, 0), Inl (Os 32, 0), Inl (Os 32, 0)], sent = []\<rparr>"
  obtain c' where w: "write_instruction cache_new ?s 0 1 (lit ''a'')
      = (Inl (Os 32), c', \<lparr>incoming = [], write_answers = [], sent = []\<rparr>)"
    by (auto simp: write_instruction_def Let_def attempt_write_form)
  show ?thesis
    using stale_instruction_sent [OF w, of 2 "lit ''b''"] w
    by (intro exI [of _ "\<lparr>incoming = [], write_answers = [], sent = []\<rparr>"]) (simp add: cache_new_def)
qed

end
