(* ===== verification/Remote_Slots.thy ===== *)
theory Remote_Slots
  imports Slot
begin

text \<open>
  The event loop of a client's slot, \<^verbatim>\<open>Slot::spawn\<close> and \<^verbatim>\<open>next_input\<close> of
  \<^verbatim>\<open>src/client/slot.rs\<close>: many slots take inputs from the shared queues, exchange them with
  their nodes, and put failed ones back for another attempt, at most three times. The
  contract is a bag of inputs with their numbers of attempts.
\<close>

section \<open>The event loop\<close>

text \<open>
  What the threads of the client share: the state of the local slots, with the queue of
  failed exchanges (a \<^verbatim>\<open>VecDeque\<close>, front first) and the map of the inputs given up.
\<close>

record ('m, 'f) client_shared = "(Client_Inputs, 'm Client_Outputs) shared" +
  errors :: "(usize \<times> rstr \<times> u8) list"
  failed :: 'f

text \<open>
  Where the thread of a slot stands: connecting, at the condition of the inner loop, in
  \<^verbatim>\<open>next_input\<close> before the inputs and before the errors, or with an input to exchange.
  \<open>Ended\<close> is the end of the process by \<^verbatim>\<open>exit\<close> or of the thread by a panic. The other
  threads go on in the model in both cases: after an \<^verbatim>\<open>exit\<close> the program stops instead, so
  that each of its runs is the beginning of a run of the model.
\<close>

datatype remote_pc =
    Connecting
  | Looping stream results_cache
  | NextInput stream results_cache
  | NextError stream results_cache
  | Exchanging stream results_cache usize rstr u8
  | Returned
  | Ended

datatype slot_label = Quiet | Exchanged

text \<open>
  \<open>dial r\<close> says that \<^verbatim>\<open>certificate::get\<close> and \<^verbatim>\<open>attempt_connection\<close> can end with \<open>r\<close>; a
  stream brings the answers of its node with it. \<open>cid\<close> is the command's ID on the node.
\<close>

inductive slot_spawn ::
  "('m, job_output) map_ops \<Rightarrow> ('f, rstr) map_ops \<Rightarrow> ((io_error + stream) run \<Rightarrow> bool) \<Rightarrow> usize
   \<Rightarrow> remote_pc \<times> ('m, 'f) client_shared \<Rightarrow> slot_label \<Rightarrow> remote_pc \<times> ('m, 'f) client_shared \<Rightarrow> bool"
  for M F dial cid where
  refused: "dial (Done (Inl why)) \<Longrightarrow> slot_spawn M F dial cid (Connecting, s) Quiet (Connecting, s)"
| connected: "dial (Done (Inr st)) \<Longrightarrow>
    slot_spawn M F dial cid (Connecting, s) Quiet (Looping st cache_new, s)"
| no_certificate: "dial (Exit n message) \<Longrightarrow> slot_spawn M F dial cid (Connecting, s) Quiet (Ended, s)"
| no_connector: "dial Panic \<Longrightarrow> slot_spawn M F dial cid (Connecting, s) Quiet (Ended, s)"
| killed: "kill s \<Longrightarrow> slot_spawn M F dial cid (Looping st cache, s) Quiet (Returned, s)"
| looping: "\<not> kill s \<Longrightarrow> slot_spawn M F dial cid (Looping st cache, s) Quiet (NextInput st cache, s)"
| first_try: "Client_get_job (inputs s) = (Some (jid, input), q) \<Longrightarrow>
    slot_spawn M F dial cid (NextInput st cache, s) Quiet
      (Exchanging st cache jid input 0, s\<lparr>inputs := q\<rparr>)"
| no_input: "Client_get_job (inputs s) = (None, q) \<Longrightarrow>
    slot_spawn M F dial cid (NextInput st cache, s) Quiet (NextError st cache, s\<lparr>inputs := q\<rparr>)"
| next_try: "errors s = es @ [(jid, input, tries)] \<Longrightarrow>
    slot_spawn M F dial cid (NextError st cache, s) Quiet
      (Exchanging st cache jid input tries, s\<lparr>errors := es\<rparr>)"
| no_error: "errors s = [] \<Longrightarrow>
    slot_spawn M F dial cid (NextError st cache, s) Quiet (Looping st cache, s)"
| answered: "exchange M cid jid input st (outputs s) cache = Some (Inr (), st', outs, cache') \<Longrightarrow>
    slot_spawn M F dial cid (Exchanging st cache jid input tries, s) Exchanged
      (Looping st' cache', s\<lparr>outputs := outs\<rparr>)"
| given_up: "exchange M cid jid input st (outputs s) cache = Some (Inl why, st', outs, cache') \<Longrightarrow>
    tries = 3 \<Longrightarrow>
    slot_spawn M F dial cid (Exchanging st cache jid input tries, s) Exchanged
      (Looping st' cache', s\<lparr>outputs := outs, failed := m_insert F (failed s) jid input\<rparr>)"
| retried: "exchange M cid jid input st (outputs s) cache = Some (Inl why, st', outs, cache') \<Longrightarrow>
    tries \<noteq> 3 \<Longrightarrow>
    slot_spawn M F dial cid (Exchanging st cache jid input tries, s) Exchanged
      (Looping st' cache', s\<lparr>outputs := outs, errors := errors s @ [(jid, input, tries + 1)]\<rparr>)"
| panicked: "exchange M cid jid input st (outputs s) cache = None \<Longrightarrow>
    slot_spawn M F dial cid (Exchanging st cache jid input tries, s) Exchanged (Ended, s)"

inductive_cases spawn_LoopingE: "slot_spawn M F dial cid (Looping st cache, s) l y"
inductive_cases spawn_NextErrorE: "slot_spawn M F dial cid (NextError st cache, s) l y"
inductive_cases spawn_ExchangingE: "slot_spawn M F dial cid (Exchanging st cache jid input tries, s) l y"

text \<open>The slots of all nodes: thread \<open>i\<close> uses the connections \<open>dial i\<close> and the command \<open>cid i\<close>.\<close>

inductive remote_step ::
  "('m, job_output) map_ops \<Rightarrow> ('f, rstr) map_ops \<Rightarrow> (nat \<Rightarrow> (io_error + stream) run \<Rightarrow> bool)
   \<Rightarrow> (nat \<Rightarrow> usize) \<Rightarrow> remote_pc list \<times> ('m, 'f) client_shared \<Rightarrow> slot_label
   \<Rightarrow> remote_pc list \<times> ('m, 'f) client_shared \<Rightarrow> bool"
  for M F dial cid where
  remote_thread: "i < length ts \<Longrightarrow> slot_spawn M F (dial i) (cid i) (ts ! i, s) l (pc, s')
    \<Longrightarrow> remote_step M F dial cid (ts, s) l (ts[i := pc], s')"

text \<open>A run and the number of exchanges in it.\<close>

inductive remote_run ::
  "('m, job_output) map_ops \<Rightarrow> ('f, rstr) map_ops \<Rightarrow> (nat \<Rightarrow> (io_error + stream) run \<Rightarrow> bool)
   \<Rightarrow> (nat \<Rightarrow> usize) \<Rightarrow> nat \<Rightarrow> remote_pc list \<times> ('m, 'f) client_shared
   \<Rightarrow> remote_pc list \<times> ('m, 'f) client_shared \<Rightarrow> bool"
  for M F dial cid where
  run_stay: "remote_run M F dial cid 0 x x"
| run_move: "remote_run M F dial cid n x y \<Longrightarrow> remote_step M F dial cid y l z \<Longrightarrow>
    remote_run M F dial cid (n + (if l = Exchanged then 1 else 0)) x z"

section \<open>The contract\<close>

text \<open>
  The inputs that are not done yet, each with the number of failed exchanges behind it: in
  the queue, in the queue of errors and at the slots.
\<close>

fun pc_pending :: "remote_pc \<Rightarrow> (usize \<times> rstr \<times> u8) multiset" where
  "pc_pending (Exchanging st cache jid input tries) = {#(jid, input, tries)#}"
| "pc_pending pc = {#}"

definition at_slots :: "remote_pc list \<Rightarrow> (usize \<times> rstr \<times> u8) multiset" where
  "at_slots ts = sum_list (map pc_pending ts)"

definition pending :: "remote_pc list \<times> ('m, 'f) client_shared \<Rightarrow> (usize \<times> rstr \<times> u8) multiset" where
  "pending x = image_mset (\<lambda>(jid, input). (jid, input, 0)) (queue_jobs (inputs (snd x)))
     + mset (errors (snd x)) + at_slots (fst x)"

lemma at_slots_update:
  "i < length ts \<Longrightarrow> at_slots (ts[i := pc]) + pc_pending (ts ! i) = at_slots ts + pc_pending pc"
proof (induction ts arbitrary: i)
  case Nil
  then show ?case by simp
next
  case (Cons t ts)
  then show ?case by (cases i) (auto simp: at_slots_def ac_simps)
qed

text \<open>A step that is not an exchange moves inputs around, but changes none and shows nothing.\<close>

lemma remote_quiet:
  assumes "remote_step M F dial cid (ts, s) Quiet (ts', s')"
  shows "pending (ts', s') = pending (ts, s) \<and> outputs s' = outputs s \<and> kill s' = kill s
    \<and> failed s' = failed s"
  using assms
proof cases
  case (remote_thread i pc)
  note upd = at_slots_update [OF remote_thread(2), of pc]
  from remote_thread(3) show ?thesis
  proof cases
    case (first_try jid input q st cache)
    then have "queue_jobs (inputs s) = add_mset (jid, input) (queue_jobs q)"
      using fifo.get_some by blast
    with first_try upd remote_thread show ?thesis by (simp add: pending_def)
  next
    case (no_input q st cache)
    then have "queue_jobs (inputs s) = {#}" "queue_jobs q = {#}"
      using fifo.get_none by blast+
    with no_input upd remote_thread show ?thesis by (simp add: pending_def)
  next
    case (next_try es jid input tries st cache)
    with upd remote_thread show ?thesis by (simp add: pending_def)
  qed (use upd remote_thread in \<open>auto simp: pending_def\<close>)
qed

text \<open>What an exchange does: it enters an output, or keeps its input for another attempt, or gives it up.\<close>

lemma remote_exchanged:
  assumes "remote_step M F dial cid x Exchanged y"
  shows "\<exists>jid input tries b. pending x = add_mset (jid, input, tries) b \<and> (
      (pending y = b \<and> failed (snd y) = failed (snd x)
        \<and> (\<exists>k st out err. outputs (snd y) = push_external M (outputs (snd x)) k st out err))
    \<or> (tries \<noteq> 3 \<and> pending y = add_mset (jid, input, tries + 1) b \<and> failed (snd y) = failed (snd x)
        \<and> outputs (snd y) = outputs (snd x))
    \<or> (tries = 3 \<and> pending y = b \<and> failed (snd y) = m_insert F (failed (snd x)) jid input
        \<and> outputs (snd y) = outputs (snd x)))"
  using assms
proof cases
  case (remote_thread i ts s pc s')
  note upd = at_slots_update [OF remote_thread(3), of pc]
  from remote_thread(4) show ?thesis
  proof cases
    case (answered jid input st cache st' outs cache' tries)
    with upd have "at_slots ts = add_mset (jid, input, tries) (at_slots (ts[i := pc]))" by simp
    then have "pending x = add_mset (jid, input, tries) (pending y)"
      using remote_thread answered by (simp add: pending_def)
    moreover from exchange_outputs [OF answered(4)]
    have "\<exists>k st out err. outputs (snd y) = push_external M (outputs (snd x)) k st out err"
      using remote_thread(1,2) answered(3) by simp
    moreover have "failed (snd y) = failed (snd x)" using remote_thread(1,2) answered(3) by simp
    ultimately show ?thesis by blast
  next
    case (given_up jid input st cache why st' outs cache' tries)
    with upd have "at_slots ts = add_mset (jid, input, 3) (at_slots (ts[i := pc]))" by simp
    then have "pending x = add_mset (jid, input, 3) (pending y)"
      using remote_thread given_up by (simp add: pending_def)
    moreover have "outputs (snd y) = outputs (snd x)"
      using exchange_outputs [OF given_up(4)] remote_thread(1,2) given_up(3) by simp
    moreover have "failed (snd y) = m_insert F (failed (snd x)) jid input"
      using remote_thread(1,2) given_up(3) by simp
    ultimately show ?thesis by blast
  next
    case (retried jid input st cache why st' outs cache' tries)
    with upd have "at_slots ts = add_mset (jid, input, tries) (at_slots (ts[i := pc]))" by simp
    then obtain b where "pending x = add_mset (jid, input, tries) b" "pending y = add_mset (jid, input, tries + 1) b"
      using remote_thread retried by (simp add: pending_def)
    moreover have "outputs (snd y) = outputs (snd x)"
      using exchange_outputs [OF retried(4)] remote_thread(1,2) retried(3) by simp
    moreover have "failed (snd y) = failed (snd x)" using remote_thread(1,2) retried(3) by simp
    ultimately show ?thesis using retried(5) by blast
  next
    case (panicked jid input st cache tries)
    with exchange_total have False by blast
    then show ?thesis ..
  qed
qed

text \<open>
  The contract of an exchange, on the pending inputs \<open>b\<close>, the given up inputs \<open>f\<close> and the table
  of outputs \<open>m\<close>: an input leaves the pending ones with an output entered, or it stays with one
  attempt more, or it is given up after its fourth attempt, and then no output is entered.
  The output goes under the ID that the node answers with.
\<close>

type_synonym retry_state = "(usize \<times> rstr \<times> u8) multiset \<times> (usize \<rightharpoonup> rstr) \<times> (usize \<rightharpoonup> job_output)"

inductive retry_step :: "retry_state \<Rightarrow> retry_state \<Rightarrow> bool" where
  retry_done: "retry_step (add_mset (jid, input, tries) b, f, m)
    (b, f, m(k \<mapsto> Outcome st (External out err)))"
| retry_again: "tries \<noteq> 3 \<Longrightarrow>
    retry_step (add_mset (jid, input, tries) b, f, m) (add_mset (jid, input, tries + 1) b, f, m)"
| retry_never: "retry_step (add_mset (jid, input, 3) b, f, m) (b, f(jid \<mapsto> input), m)"

locale retry_table = outs: output_table M lookup + fails: chashmap F lookup_failed
  for M :: "('m, job_output) map_ops" and lookup :: "'m \<Rightarrow> usize \<Rightarrow> job_output option"
    and F :: "('f, rstr) map_ops" and lookup_failed :: "'f \<Rightarrow> usize \<Rightarrow> rstr option"
begin

definition retry_abs :: "remote_pc list \<times> ('m, 'f) client_shared \<Rightarrow> retry_state" where
  "retry_abs x = (pending x, lookup_failed (failed (snd x)), lookup (outputs_map (outputs (snd x))))"

lemma remote_refines:
  assumes "remote_step M F dial cid x l y"
  shows "if l = Exchanged then retry_step (retry_abs x) (retry_abs y) else retry_abs y = retry_abs x"
proof (cases l)
  case Quiet
  with assms remote_quiet [of M F dial cid "fst x" "snd x" "fst y" "snd y"] show ?thesis
    by (simp add: retry_abs_def)
next
  case Exchanged
  have "lookup (outputs_map (push_external M os k st out err))
      = (lookup (outputs_map os))(k \<mapsto> Outcome st (External out err))" for os k st out err
    using outs.finished_external by (simp add: outs.finished_def)
  with remote_exchanged [OF assms [unfolded Exchanged]] Exchanged show ?thesis
    by (auto simp: retry_abs_def fails.lookup_insert intro: retry_step.intros)
qed

end

interpretation fun_retry: retry_table fun_map "\<lambda>m. m" fun_map "\<lambda>m. m"
  by unfold_locales

text \<open>
  C11. The slots keep the contract: every exchange finishes one pending input with an output
  entered, or puts it back with one attempt more, or gives it up after four, where nothing
  is entered; and no other action of a slot loses, adds or changes an input or an output.
\<close>

theorem slots_refine_retry:
  assumes "chashmap M lookup" "chashmap F lookup_failed" "remote_step M F dial cid x l y"
  shows "if l = Exchanged
    then retry_step (pending x, lookup_failed (failed (snd x)), lookup (outputs_map (outputs (snd x))))
      (pending y, lookup_failed (failed (snd y)), lookup (outputs_map (outputs (snd y))))
    else pending y = pending x \<and> lookup_failed (failed (snd y)) = lookup_failed (failed (snd x))
      \<and> lookup (outputs_map (outputs (snd y))) = lookup (outputs_map (outputs (snd x)))"
proof -
  from assms(1,2) have t: "retry_table M lookup F lookup_failed"
    by (intro retry_table.intro output_table.intro)
  from retry_table.remote_refines [OF t assms(3)] show ?thesis
    unfolding retry_table.retry_abs_def [OF t] prod.inject .
qed

section \<open>The number of attempts\<close>

definition attempts_left :: "(usize \<times> rstr \<times> u8) multiset \<Rightarrow> nat" where
  "attempts_left b = sum_mset (image_mset (\<lambda>(jid, input, tries). 4 - unat tries) b)"

definition tries_ok :: "(usize \<times> rstr \<times> u8) multiset \<Rightarrow> bool" where
  "tries_ok b \<longleftrightarrow> (\<forall>(jid, input, tries) \<in># b. unat tries \<le> 3)"

lemma attempts_left_add [simp]:
  "attempts_left (add_mset (jid, input, tries) b) = (4 - unat tries) + attempts_left b"
  by (simp add: attempts_left_def)

lemma tries_ok_add [simp]:
  "tries_ok (add_mset (jid, input, tries) b) \<longleftrightarrow> unat tries \<le> 3 \<and> tries_ok b"
  by (auto simp: tries_ok_def)

lemma unat_next_try: "unat t \<le> 3 \<Longrightarrow> t \<noteq> 3 \<Longrightarrow> unat (t + 1) = unat t + 1 \<and> unat t < 3" for t :: u8
proof -
  assume t: "unat t \<le> 3" "t \<noteq> 3"
  then have "unat t \<noteq> unat (3 :: u8)" using unsigned_word_eqI by blast
  with t have "unat t < 3" by simp
  moreover from this have "unat (t + 1) = unat t + 1"
    using unat_add_lem [of t 1] by simp
  ultimately show ?thesis by simp
qed

lemma exchange_budget:
  assumes "remote_step M F dial cid x l y" "tries_ok (pending x)"
  shows "(if l = Exchanged then attempts_left (pending y) < attempts_left (pending x) else pending y = pending x)
    \<and> tries_ok (pending y)"
proof (cases l)
  case Quiet
  with assms remote_quiet [of M F dial cid "fst x" "snd x" "fst y" "snd y"] show ?thesis by simp
next
  case Exchanged
  have "attempts_left (add_mset (jid, input, t + 1) b) < attempts_left (add_mset (jid, input, t) b)
      \<and> tries_ok (add_mset (jid, input, t + 1) b)"
    if "tries_ok (add_mset (jid, input, t) b)" "t \<noteq> 3" for jid input t b
    using that unat_next_try [of t] by auto
  moreover have "attempts_left b < attempts_left (add_mset (jid, input, t) b) \<and> tries_ok b"
    if "tries_ok (add_mset (jid, input, t) b)" for jid input t b
    using that by auto
  moreover from remote_exchanged [OF assms(1) [unfolded Exchanged]] obtain jid input t b where
    "pending x = add_mset (jid, input, t) b"
    "pending y = b \<or> t \<noteq> 3 \<and> pending y = add_mset (jid, input, t + 1) b" by blast
  ultimately show ?thesis using assms(2) Exchanged by metis
qed

lemma remote_run_budget:
  assumes "remote_run M F dial cid n x y" "tries_ok (pending x)"
  shows "n + attempts_left (pending y) \<le> attempts_left (pending x) \<and> tries_ok (pending y)"
  using assms
proof (induction rule: remote_run.induct)
  case (run_stay x)
  then show ?case by simp
next
  case (run_move n x y l z)
  then have "n + attempts_left (pending y) \<le> attempts_left (pending x)" "tries_ok (pending y)"
    by simp_all
  with exchange_budget [OF run_move(2)] show ?case by (auto split: if_splits)
qed

text \<open>
  C12. Every input is tried at most four times: from a start with the inputs in the queue and
  none at a slot or among the errors, no run of any number of slots makes more than four
  exchanges per input, whatever the nodes and the network do, and the number of attempts
  of a pending input never passes three, so its increment does not wrap.
\<close>

theorem exchanges_bounded:
  assumes "chashmap F lookup" "remote_run M F dial cid n (ts, s) (ts', s')"
    and "errors s = []" "\<forall>pc \<in> set ts. pc_pending pc = {#}"
  shows "n \<le> 4 * length (queue (inputs s))
    \<and> (\<forall>(jid, input, tries) \<in># pending (ts', s'). unat tries \<le> 3)"
proof -
  have "at_slots ts = {#}" using assms(4) unfolding at_slots_def by (induction ts) auto
  with assms(3) have p: "pending (ts, s) = image_mset (\<lambda>(jid, input). (jid, input, 0)) (mset (queue (inputs s)))"
    by (simp add: pending_def queue_jobs_def)
  have "attempts_left (image_mset (\<lambda>(jid, input). (jid, input, 0)) (mset js)) = 4 * length js" for js
    by (induction js) (auto simp: attempts_left_def)
  moreover have "tries_ok (pending (ts, s))"
    unfolding p by (auto simp: tries_ok_def)
  ultimately show ?thesis
    using remote_run_budget [OF assms(2)] p
    by (simp add: tries_ok_def)
qed

text \<open>A slot with a node that has closed its connection: the input comes back.\<close>

definition closed_stream :: stream where
  "closed_stream = \<lparr>incoming = [], write_answers = [], sent = []\<rparr>"

type_synonym demo_client = "(usize \<rightharpoonup> job_output, usize \<rightharpoonup> rstr) client_shared"

definition demo_client :: demo_client where
  "demo_client = \<lparr>inputs = \<lparr>queue = [(0, lit ''a'')]\<rparr>, outputs = \<lparr>outputs_map = (\<lambda>_. None)\<rparr>,
     kill = False, parked = 0, errors = [], failed = (\<lambda>_. None)\<rparr>"

definition demo_taken :: demo_client where
  "demo_taken = demo_client\<lparr>inputs := \<lparr>queue = []\<rparr>\<rparr>"

definition demo_retried :: demo_client where
  "demo_retried = demo_taken\<lparr>errors := [(0, lit ''a'', 1)]\<rparr>"

lemma closed_exchange:
  "\<exists>st'. exchange M cid jid input closed_stream outs cache_new
     = Some (Inl (Other ''invalid status line''), st', outs, cache_new)"
proof -
  have rl: "read_line [] ([], []) = (Inr (), [], [], [])"
    by (simp add: read_line_def read_until_nl.simps)
  show ?thesis
    by (simp add: exchange_def write_instruction_def closed_stream_def cache_new_def Let_def
        attempt_write_ok read_results_def read_from_def rl parse_status_def str_find_def cache_clear_def)
qed

lemma demo_retries:
  "\<exists>st'. remote_step fun_map fun_map dial cid ([Exchanging closed_stream cache_new 0 (lit ''a'') 0], demo_taken)
     Exchanged ([Looping st' cache_new], demo_retried)"
proof -
  from closed_exchange [of fun_map "cid 0" 0 "lit ''a''" "outputs demo_taken"] obtain st' where
    "exchange fun_map (cid 0) 0 (lit ''a'') closed_stream (outputs demo_taken) cache_new
      = Some (Inl (Other ''invalid status line''), st', outputs demo_taken, cache_new)" by blast
  from retried [OF this, of 0] have
    "slot_spawn fun_map fun_map (dial 0) (cid 0) (Exchanging closed_stream cache_new 0 (lit ''a'') 0, demo_taken)
       Exchanged (Looping st' cache_new, demo_retried)"
    by (simp add: demo_retried_def demo_taken_def demo_client_def)
  with remote_thread [of 0 "[Exchanging closed_stream cache_new 0 (lit ''a'') 0]"] show ?thesis
    by fastforce
qed

theorem slots_refine_retry_witness:
  "\<exists>y. remote_step fun_map fun_map (\<lambda>_ _. True) (\<lambda>_. 0)
      ([Exchanging closed_stream cache_new 0 (lit ''a'') 0], demo_taken) Exchanged y
    \<and> retry_step ({#(0, lit ''a'', 0)#}, \<lambda>_. None, \<lambda>_. None)
        (pending y, failed (snd y), outputs_map (outputs (snd y)))
    \<and> pending y = {#(0, lit ''a'', 1)#}"
proof -
  from demo_retries [of "\<lambda>_ _. True" "\<lambda>_. 0"] obtain st' where
    s: "remote_step fun_map fun_map (\<lambda>_ _. True) (\<lambda>_. 0)
      ([Exchanging closed_stream cache_new 0 (lit ''a'') 0], demo_taken)
      Exchanged ([Looping st' cache_new], demo_retried)" by blast
  from slots_refine_retry [OF fun_map.chashmap_axioms fun_map.chashmap_axioms s] s show ?thesis
    by (intro exI [of _ "([Looping st' cache_new], demo_retried)"])
      (simp add: pending_def at_slots_def queue_jobs_def demo_retried_def demo_taken_def demo_client_def)
qed

theorem exchanges_bounded_witness:
  "\<exists>ts'. remote_run fun_map fun_map (\<lambda>_ _. True) (\<lambda>_. 0) 1
     ([NextInput closed_stream cache_new], demo_client) (ts', demo_retried)
   \<and> (1 :: nat) \<le> 4 * length (queue (inputs demo_client))
   \<and> (\<forall>(jid, input, tries) \<in># pending (ts', demo_retried). unat tries \<le> 3)"
proof -
  have "slot_spawn fun_map fun_map (\<lambda>_. True) 0 (NextInput closed_stream cache_new, demo_client)
      Quiet (Exchanging closed_stream cache_new 0 (lit ''a'') 0, demo_taken)"
    unfolding demo_taken_def by (rule first_try) (simp add: demo_client_def Client_get_job_def)
  with remote_thread [of 0 "[NextInput closed_stream cache_new]"]
  have "remote_step fun_map fun_map (\<lambda>_ _. True) (\<lambda>_. 0) ([NextInput closed_stream cache_new], demo_client)
      Quiet ([Exchanging closed_stream cache_new 0 (lit ''a'') 0], demo_taken)" by fastforce
  from run_move [OF run_stay this]
  have r: "remote_run fun_map fun_map (\<lambda>_ _. True) (\<lambda>_. 0) 0 ([NextInput closed_stream cache_new], demo_client)
      ([Exchanging closed_stream cache_new 0 (lit ''a'') 0], demo_taken)" by simp
  from demo_retries [of "\<lambda>_ _. True" "\<lambda>_. 0"] obtain st' where
    "remote_step fun_map fun_map (\<lambda>_ _. True) (\<lambda>_. 0)
      ([Exchanging closed_stream cache_new 0 (lit ''a'') 0], demo_taken)
      Exchanged ([Looping st' cache_new], demo_retried)" by blast
  from run_move [OF r this]
  have run: "remote_run fun_map fun_map (\<lambda>_ _. True) (\<lambda>_. 0) 1 ([NextInput closed_stream cache_new], demo_client)
      ([Looping st' cache_new], demo_retried)" by simp
  from exchanges_bounded [OF fun_map.chashmap_axioms this] run show ?thesis
    by (auto simp: demo_client_def)
qed

end
