(* ===== verification/Client_Main.thy ===== *)
theory Client_Main
  imports Args Source Remote_Slots
begin

text \<open>
  The main program of the client, \<^verbatim>\<open>src/client/main.rs\<close>, behind its start: the thread that
  supplies the inputs, the threads of the slots, and the loop that shows the outputs in the
  order of the inputs. The threads are interleaved at their operations on the shared state,
  which are sequentially consistent here.
\<close>

section \<open>The inputs\<close>

text \<open>
  The operations of the thread that supplies the inputs on the shared state, in program
  order: in each branch of the \<^verbatim>\<open>match\<close> the insertions that the reading makes (into a queue
  that only this thread fills, so that what it holds in the end are the insertions in their
  order), then the two stores. \<open>open_file\<close> is \<^verbatim>\<open>File::open\<close> with the answers to the reads;
  \<open>None\<close> is the \<^verbatim>\<open>unimplemented!\<close> for several units.
\<close>

datatype source_op = Insert usize rstr | StoreTotal usize | StoreFinished

definition insert_ops :: "Client_Inputs \<Rightarrow> source_op list" where [eval_defs]:
  "insert_ops q = map (\<lambda>(jid, input). Insert jid input) (queue q)"

fun insert_strings :: "rstr list \<Rightarrow> Client_Inputs \<Rightarrow> usize \<Rightarrow> Client_Inputs \<times> usize" where
  "insert_strings [] q ninputs = (q, ninputs)"
| "insert_strings (input # vec) q ninputs =
     insert_strings vec (Client_insert_job q ninputs input) (ninputs + 1)"

fun read_files ::
  "('p \<Rightarrow> read_answers io_result) \<Rightarrow> 'p list \<Rightarrow> Client_Inputs \<Rightarrow> usize \<Rightarrow> Client_Inputs \<times> usize" where
  "read_files open_file [] q ninputs = (q, ninputs)"
| "read_files open_file (path # vec) q ninputs =
     (let (q, ninputs) = source_file (open_file path) q ninputs
      in read_files open_file vec q ninputs)"

definition source_program ::
  "(rstr \<Rightarrow> read_answers io_result) \<Rightarrow> read_answers \<Rightarrow> rstr args_source \<Rightarrow> source_op list option" where
  [eval_defs]: "source_program open_file stdin args = (let q = \<lparr>queue = []\<rparr> in case args of
     RedirFile path \<Rightarrow>
       (let (q, ninputs) = source_file (open_file path) q 0
        in Some (insert_ops q @ [StoreTotal ninputs] @ [StoreFinished]))
   | RedirPipe \<Rightarrow>
       (let (q, ninputs) = source_stdin stdin q 0
        in Some (insert_ops q @ [StoreTotal ninputs] @ [StoreFinished]))
   | Cli args \<Rightarrow>
       if length args \<noteq> 1 then None
       else (case args ! 0 of
          Strings vec \<Rightarrow>
            (let (q, ninputs) = insert_strings vec q 0
             in Some (insert_ops q @ [StoreTotal ninputs] @ [StoreFinished]))
        | Files vec \<Rightarrow>
            (let (q, ninputs) = read_files open_file vec q 0
             in Some (insert_ops q @ [StoreTotal ninputs] @ [StoreFinished]))))"

section \<open>The main loop\<close>

datatype main_pc = LoopTest | TotalTest | Getting | Killing | Joining | Exited

text \<open>What is written for an output; \<open>fds\<close> are standard output and standard error.\<close>

definition show_output :: "bool \<Rightarrow> usize \<Rightarrow> job_output \<Rightarrow> byte list \<times> byte list \<Rightarrow> byte list \<times> byte list" where
  [eval_defs]: "show_output verb counter out fds = (case out of
     Outcome status source \<Rightarrow>
       write_source source
         (if verb
          then (fst fds @ as_bytes ([c_nl] @ lit ''concurr [INFO] Job '' @ to_string counter @ lit '': ''
                  @ to_string status @ [c_nl]), snd fds)
          else fds)
   | Failed \<Rightarrow>
       (fst fds, snd fds @ as_bytes (lit ''Job '' @ to_string counter @ lit '' failed to execute'' @ [c_nl])))"

record ('m, 'f) client =
  cl_shared :: "('m, 'f) client_shared"
  cl_source :: "source_op list"
  cl_local :: "slot_pc list"
  cl_remote :: "remote_pc list"
  cl_total :: usize
  cl_finished :: bool
  cl_main :: main_pc
  cl_counter :: usize
  cl_fds :: "byte list \<times> byte list"

definition client_init :: "('m, job_output) map_ops \<Rightarrow> ('f, rstr) map_ops \<Rightarrow> nat \<Rightarrow> nat
   \<Rightarrow> source_op list \<Rightarrow> ('m, 'f) client" where
  "client_init M F locals remotes ops =
     \<lparr>cl_shared = \<lparr>inputs = \<lparr>queue = []\<rparr>, outputs = \<lparr>outputs_map = m_new M\<rparr>, kill = False,
        parked = 0, errors = [], failed = m_new F\<rparr>,
      cl_source = ops, cl_local = replicate locals Check, cl_remote = replicate remotes Connecting,
      cl_total = 0, cl_finished = False, cl_main = LoopTest, cl_counter = 0, cl_fds = ([], [])\<rparr>"

text \<open>
  One step of the client. The label says which output, if any, the main loop shows. \<open>cmd\<close>
  is the command of the local slots, \<open>sid i\<close> the number that local slot \<open>i\<close> has drawn.
\<close>

inductive client_step ::
  "('m, job_output) map_ops \<Rightarrow> ('f, rstr) map_ops \<Rightarrow> (rstr \<Rightarrow> spawned \<Rightarrow> bool) \<Rightarrow> (nat \<Rightarrow> usize)
   \<Rightarrow> Tokens \<Rightarrow> (nat \<Rightarrow> (io_error + stream) run \<Rightarrow> bool) \<Rightarrow> (nat \<Rightarrow> usize) \<Rightarrow> bool
   \<Rightarrow> ('m, 'f) client \<Rightarrow> job_output option \<Rightarrow> ('m, 'f) client \<Rightarrow> bool"
  for M F sh sid cmd dial cid verb where
  local_slot: "pool_step Client_get_job (Client_Outputs_insert M) sh sid cmd
      (cl_local c, cl_shared c) (ts, s) \<Longrightarrow>
    client_step M F sh sid cmd dial cid verb c None (c\<lparr>cl_local := ts, cl_shared := s\<rparr>)"
| remote_slot: "remote_step M F dial cid (cl_remote c, cl_shared c) l (rs, s) \<Longrightarrow>
    client_step M F sh sid cmd dial cid verb c None (c\<lparr>cl_remote := rs, cl_shared := s\<rparr>)"
| source_insert: "cl_source c = Insert jid input # ops \<Longrightarrow>
    client_step M F sh sid cmd dial cid verb c None
      (c\<lparr>cl_source := ops, cl_shared := (cl_shared c)
         \<lparr>inputs := Client_insert_job (inputs (cl_shared c)) jid input\<rparr>\<rparr>)"
| source_total: "cl_source c = StoreTotal n # ops \<Longrightarrow>
    client_step M F sh sid cmd dial cid verb c None (c\<lparr>cl_source := ops, cl_total := n\<rparr>)"
| source_finished: "cl_source c = StoreFinished # ops \<Longrightarrow>
    client_step M F sh sid cmd dial cid verb c None (c\<lparr>cl_source := ops, cl_finished := True\<rparr>)"
| test_finished: "cl_main c = LoopTest \<Longrightarrow>
    client_step M F sh sid cmd dial cid verb c None
      (c\<lparr>cl_main := if cl_finished c then TotalTest else Getting\<rparr>)"
| test_total: "cl_main c = TotalTest \<Longrightarrow>
    client_step M F sh sid cmd dial cid verb c None
      (c\<lparr>cl_main := if cl_counter c = cl_total c then Killing else Getting\<rparr>)"
| get_nothing: "cl_main c = Getting \<Longrightarrow>
    Client_Outputs_get M (outputs (cl_shared c)) (cl_counter c) = (None, outs) \<Longrightarrow>
    client_step M F sh sid cmd dial cid verb c None
      (c\<lparr>cl_shared := (cl_shared c)\<lparr>outputs := outs\<rparr>\<rparr>)"
| get_output: "cl_main c = Getting \<Longrightarrow>
    Client_Outputs_get M (outputs (cl_shared c)) (cl_counter c) = (Some out, outs) \<Longrightarrow>
    client_step M F sh sid cmd dial cid verb c (Some out)
      (c\<lparr>cl_shared := (cl_shared c)\<lparr>outputs := outs\<rparr>,
         cl_fds := show_output verb (cl_counter c) out (cl_fds c),
         cl_counter := cl_counter c + 1, cl_main := LoopTest\<rparr>)"
| stop_slots: "cl_main c = Killing \<Longrightarrow>
    client_step M F sh sid cmd dial cid verb c None
      (c\<lparr>cl_shared := (cl_shared c)\<lparr>kill := True\<rparr>, cl_main := Joining\<rparr>)"
| join_slots: "cl_main c = Joining \<Longrightarrow> \<forall>pc \<in> set (cl_local c). pc = Parked \<Longrightarrow>
    \<forall>pc \<in> set (cl_remote c). pc = Returned \<Longrightarrow>
    client_step M F sh sid cmd dial cid verb c None (c\<lparr>cl_main := Exited\<rparr>)"

text \<open>A run of the client, with the outputs that it shows, in order.\<close>

abbreviation client_run ::
  "('m, job_output) map_ops \<Rightarrow> ('f, rstr) map_ops \<Rightarrow> (rstr \<Rightarrow> spawned \<Rightarrow> bool) \<Rightarrow> (nat \<Rightarrow> usize)
   \<Rightarrow> Tokens \<Rightarrow> (nat \<Rightarrow> (io_error + stream) run \<Rightarrow> bool) \<Rightarrow> (nat \<Rightarrow> usize) \<Rightarrow> bool
   \<Rightarrow> ('m, 'f) client \<Rightarrow> job_output list \<Rightarrow> ('m, 'f) client \<Rightarrow> bool" where
  "client_run M F sh sid cmd dial cid verb \<equiv> trace_run (client_step M F sh sid cmd dial cid verb)"

end
