(* ===== verification/Client_Program.thy ===== *)
theory Client_Program
  imports Client_Main
begin

text \<open>
  The thread that supplies the inputs of the client: whatever the source, its program is to
  queue texts under consecutive job IDs and then to publish their number and the end.
\<close>

section \<open>The program of the input thread\<close>

abbreviation inserts :: "(usize \<times> rstr) list \<Rightarrow> source_op list" where
  "inserts js \<equiv> map (\<lambda>(jid, input). Insert jid input) js"

definition supplied :: "source_op list \<Rightarrow> rstr list" where [eval_defs]:
  "supplied ops = concat (map (\<lambda>op. case op of Insert jid input \<Rightarrow> [input] | _ \<Rightarrow> []) ops)"

definition program_of :: "rstr list \<Rightarrow> source_op list" where
  "program_of ls = inserts (numbered 0 ls) @ [StoreTotal (of_nat (length ls)), StoreFinished]"

lemma supplied_inserts: "supplied (inserts (numbered n ls) @ ops) = ls @ supplied ops"
  by (induction ls arbitrary: n) (auto simp: supplied_def)

lemma supplied_program [simp]: "supplied (program_of ls) = ls"
  by (simp add: program_of_def supplied_inserts) (simp add: supplied_def)

lemma numbered_append:
  "numbered n (xs @ ys) = numbered n xs @ numbered (n + of_nat (length xs)) ys"
  by (induction xs arbitrary: n) (auto simp: add.assoc)

text \<open>
  A text arrives, in whatever chunks; \<open>file_inputs\<close> is what a file contributes, nothing when it
  cannot be opened.
\<close>

definition brings :: "read_answers \<Rightarrow> rstr \<Rightarrow> bool" where
  "brings ans str \<longleftrightarrow> (\<exists>cs. ans = map Inr cs \<and> concat cs = as_bytes str \<and> [] \<notin> set cs \<and> valid_str str)"

definition file_brings :: "read_answers io_result \<Rightarrow> rstr option \<Rightarrow> bool" where
  "file_brings file content = (case content of
     None \<Rightarrow> isl file | Some str \<Rightarrow> (\<exists>ans. file = Inr ans \<and> brings ans str))"

definition file_inputs :: "rstr option \<Rightarrow> rstr list" where
  "file_inputs content = (case content of None \<Rightarrow> [] | Some str \<Rightarrow> text_inputs str)"

lemma source_text:
  "brings ans str \<Longrightarrow> read_source ([], ans) q n
     = (q\<lparr>queue := queue q @ numbered n (text_inputs str)\<rparr>, n + of_nat (length (text_inputs str)))"
  by (auto simp: brings_def intro: read_source_text)

lemma source_file_numbered:
  "file_brings f content \<Longrightarrow> source_file f q n
     = (q\<lparr>queue := queue q @ numbered n (file_inputs content)\<rparr>, n + of_nat (length (file_inputs content)))"
  by (cases f) (auto simp: file_brings_def file_inputs_def source_file_def source_text split: option.splits)

lemma read_files_numbered:
  assumes "\<And>path. file_brings (open_file path) (content path)"
  shows "read_files open_file vec q n = (let ls = concat (map (\<lambda>path. file_inputs (content path)) vec)
    in (q\<lparr>queue := queue q @ numbered n ls\<rparr>, n + of_nat (length ls)))"
  by (induction vec arbitrary: q n)
    (simp_all add: source_file_numbered [OF assms] numbered_append Let_def add.assoc)

lemma insert_strings_numbered:
  "insert_strings vec q n = (q\<lparr>queue := queue q @ numbered n vec\<rparr>, n + of_nat (length vec))"
  by (induction vec arbitrary: q n) (auto simp: Client_insert_job_def add.assoc)

text \<open>The inputs that a source stands for; none when there is not exactly one unit.\<close>

fun source_texts :: "(rstr \<Rightarrow> rstr option) \<Rightarrow> rstr \<Rightarrow> rstr args_source \<Rightarrow> rstr list option" where
  "source_texts content piped (RedirFile path) = Some (file_inputs (content path))"
| "source_texts content piped RedirPipe = Some (text_inputs piped)"
| "source_texts content piped (Cli [Strings vec]) = Some vec"
| "source_texts content piped (Cli [Files vec]) = Some (concat (map (\<lambda>path. file_inputs (content path)) vec))"
| "source_texts content piped (Cli _) = None"

lemma source_texts_None: "source_texts content piped src = None \<longleftrightarrow> (\<exists>us. src = Cli us \<and> length us \<noteq> 1)"
  by (cases "(content, piped, src)" rule: source_texts.cases) auto

lemma source_program_texts:
  assumes "\<And>path. file_brings (open_file path) (content path)" "brings stdin piped"
  shows "source_program open_file stdin src = map_option program_of (source_texts content piped src)"
proof (cases "source_texts content piped src")
  case None
  then obtain us where "src = Cli us" "length us \<noteq> 1" by (auto simp: source_texts_None)
  with None show ?thesis by (simp add: source_program_def)
next
  case (Some ls)
  then show ?thesis
    by (cases "(content, piped, src)" rule: source_texts.cases)
      (simp_all add: source_program_def insert_ops_def program_of_def insert_strings_numbered source_stdin_def
        source_file_numbered [OF assms(1)] read_files_numbered [OF assms(1)] source_text [OF assms(2)] Let_def)
qed

text \<open>The stores: the end is published after the number.\<close>

definition published :: "rstr list \<Rightarrow> ('m, 'f) client \<Rightarrow> bool" where
  "published ls c \<longleftrightarrow>
     (\<exists>js. cl_source c = inserts js @ [StoreTotal (of_nat (length ls)), StoreFinished] \<and> \<not> cl_finished c)
     \<or> (cl_source c = [StoreFinished] \<and> cl_total c = of_nat (length ls) \<and> \<not> cl_finished c)
     \<or> (cl_source c = [] \<and> cl_total c = of_nat (length ls))"

lemma published_step:
  assumes "client_step M F sh sid cmd dial cid verb c l c'" "published ls c"
  shows "published ls c'"
  using assms(1)
proof cases
  case (source_insert jid input ops)
  with assms(2) obtain js where "Insert jid input # ops = inserts js @ [StoreTotal (of_nat (length ls)), StoreFinished]"
    "\<not> cl_finished c" by (auto simp: published_def)
  moreover from this obtain j js' where "js = j # js'" by (cases js) auto
  ultimately show ?thesis using source_insert by (auto simp: published_def)
next
  case (source_total n ops)
  with assms(2) obtain js where "StoreTotal n # ops = inserts js @ [StoreTotal (of_nat (length ls)), StoreFinished]"
    "\<not> cl_finished c" by (auto simp: published_def)
  moreover from this have "js = []" by (cases js) auto
  ultimately show ?thesis using source_total by (simp add: published_def)
next
  case (source_finished ops)
  have "StoreFinished # ops \<noteq> inserts js @ [StoreTotal (of_nat (length ls)), StoreFinished]" for js
    by (cases js) auto
  with assms(2) source_finished show ?thesis by (auto simp: published_def)
qed (use assms(2) in \<open>simp_all add: published_def\<close>)

lemma published_run:
  assumes "client_run M F sh sid cmd dial cid verb c os c'" "published ls c"
  shows "published ls c'"
  using trace_invariant [where P = "\<lambda>os. published ls" and os = "[]", OF assms] published_step by blast

text \<open>
  C29. Whatever the source of the inputs, the thread that supplies them queues the texts that
  it stands for under the consecutive IDs from 0, then publishes their number, then the
  end: the arguments of the one unit, or the trimmed lines of the files or of the pipe,
  without empty ones and comments, in whatever chunks they arrive, where a file that cannot
  be opened counts as empty. It is not supported exactly when there is not exactly one unit.
  So whenever a client that runs this program sees the end published, the number of inputs
  is there and all inputs have been queued.
\<close>

theorem source_program_form:
  assumes "\<And>path. file_brings (open_file path) (content path)" "brings stdin piped"
  shows "(source_program open_file stdin src = None \<longleftrightarrow> (\<exists>us. src = Cli us \<and> length us \<noteq> 1))
    \<and> (\<forall>ls. source_texts content piped src = Some ls \<longrightarrow>
        (\<exists>ops. source_program open_file stdin src = Some ops
          \<and> ops = map (\<lambda>(jid, input). Insert jid input) (zip (map of_nat [0..<length ls]) ls)
              @ [StoreTotal (of_nat (length ls)), StoreFinished]
          \<and> (\<forall>os c. client_run M F sh sid cmd dial cid verb (client_init M F locals remotes ops) os c
              \<and> cl_finished c \<longrightarrow> cl_total c = of_nat (length ls) \<and> cl_source c = [])))"
proof (intro conjI allI impI)
  note form = source_program_texts [where open_file = open_file and content = content, OF assms]
  show "source_program open_file stdin src = None \<longleftrightarrow> (\<exists>us. src = Cli us \<and> length us \<noteq> 1)"
    using form by (simp add: source_texts_None)
  fix ls assume ls: "source_texts content piped src = Some ls"
  have pub: "cl_total c = of_nat (length ls) \<and> cl_source c = []"
    if "client_run M F sh sid cmd dial cid verb (client_init M F locals remotes (program_of ls)) os c" "cl_finished c"
    for os c
  proof -
    have "published ls (client_init M F locals remotes (program_of ls))"
      by (auto simp: published_def client_init_def program_of_def)
    from published_run [OF that(1) this] that(2) show ?thesis by (auto simp: published_def)
  qed
  show "\<exists>ops. source_program open_file stdin src = Some ops
          \<and> ops = map (\<lambda>(jid, input). Insert jid input) (zip (map of_nat [0..<length ls]) ls)
              @ [StoreTotal (of_nat (length ls)), StoreFinished]
          \<and> (\<forall>os c. client_run M F sh sid cmd dial cid verb (client_init M F locals remotes ops) os c
              \<and> cl_finished c \<longrightarrow> cl_total c = of_nat (length ls) \<and> cl_source c = [])"
  proof (intro exI conjI allI impI)
    show "source_program open_file stdin src = Some (program_of ls)" using form ls by simp
    show "program_of ls = map (\<lambda>(jid, input). Insert jid input) (zip (map of_nat [0..<length ls]) ls)
        @ [StoreTotal (of_nat (length ls)), StoreFinished]" by (simp add: program_of_def numbered_def)
  qed (use pub in blast)+
qed

theorem source_program_form_witness:
  "source_program (\<lambda>path. if path = lit ''f'' then Inr [Inr (as_bytes [97, c_nl, c_hash, c_nl, 98])] else Inl (Os 2)) []
     (Cli [Files [lit ''f'', lit ''g'']]) = Some [Insert 0 [97], Insert 1 [98], StoreTotal 2, StoreFinished]"
proof -
  let ?open = "\<lambda>path. if path = lit ''f'' then Inr [Inr (as_bytes [97, c_nl, c_hash, c_nl, 98])] else Inl (Os 2)"
  let ?content = "\<lambda>path. if path = lit ''f'' then Some [97, c_nl, c_hash, c_nl, 98] else None"
  have "file_brings (?open path) (?content path)" for path
    by (auto simp: file_brings_def brings_def scalar_def intro!: exI [of _ "[as_bytes [97, c_nl, c_hash, c_nl, 98]]"])
  moreover have "brings [] []" by (simp add: brings_def)
  moreover have "source_texts ?content [] (Cli [Files [lit ''f'', lit ''g'']]) = Some [[97], [98]]"
    by (simp add: file_inputs_def text_inputs_def trim_def is_whitespace_def lit_def)
  ultimately show ?thesis
    using source_program_form [where open_file = ?open and content = ?content and stdin = "[]" and piped = "[]"
        and src = "Cli [Files [lit ''f'', lit ''g'']]"] by fastforce
qed

end
