(* ===== verification/Client_System.thy ===== *)
theory Client_System
  imports Client_Program
begin

text \<open>
  What the client as a whole does with its jobs, whatever executes them: the outputs are
  shown in the order of the inputs; every job is with the input thread, in a queue, at a
  slot, in the table of outputs or shown; and when nothing is left to execute, the main loop
  can show everything that is missing. The locale \<open>client_core\<close> states this for any
  predicate on the outputs that the slots keep; the theories on clients without and with
  nodes build on it.
\<close>

section \<open>Outputs in order\<close>

text \<open>A step that shows an output as the main loop does, or nothing.\<close>

fun shows_next :: "bool \<Rightarrow> ('m, 'f) client \<Rightarrow> job_output option \<Rightarrow> ('m, 'f) client \<Rightarrow> bool" where
  "shows_next verb c None c' \<longleftrightarrow> cl_counter c' = cl_counter c \<and> cl_fds c' = cl_fds c"
| "shows_next verb c (Some out) c' \<longleftrightarrow> cl_counter c' = cl_counter c + 1
     \<and> cl_fds c' = show_output verb (cl_counter c) out (cl_fds c)"

lemma client_shows: "client_step M F sh sid cmd dial cid verb c l c' \<Longrightarrow> shows_next verb c l c'"
  by (erule client_step.cases) simp_all

lemma runs_show:
  assumes "trace_run step x os y" "\<And>x l y. step x l y \<Longrightarrow> shows_next verb (view x) l (view y)"
  shows "cl_counter (view y) = cl_counter (view x) + of_nat (length os)
    \<and> cl_fds (view y) = foldl (\<lambda>fds (k, out). show_output verb k out fds) (cl_fds (view x))
        (zip (map (\<lambda>k. cl_counter (view x) + of_nat k) [0..<length os]) os)"
  using assms(1)
proof (induction rule: trace_run.induct)
  case (trace_move x os y l z)
  from assms(2) [OF trace_move(2)] trace_move(3) show ?case by (cases l) simp_all
qed simp

lemma client_run_counter:
  assumes "client_run M F sh sid cmd dial cid verb c os c'"
  shows "cl_counter c' = cl_counter c + of_nat (length os)
    \<and> cl_fds c' = foldl (\<lambda>fds (k, out). show_output verb k out fds) (cl_fds c)
        (zip (map (\<lambda>k. cl_counter c + of_nat k) [0..<length os]) os)"
  using runs_show [where view = "\<lambda>c. c", OF assms client_shows] by simp

text \<open>The step that shows an output takes it from the table of outputs.\<close>

lemma shown_taken:
  assumes "chashmap M lookup" "client_step M F sh sid cmd dial cid verb c (Some out) c'"
  shows "lookup (outputs_map (outputs (cl_shared c))) (cl_counter c) = Some out
    \<and> lookup (outputs_map (outputs (cl_shared c'))) (cl_counter c) = None"
  using assms(2)
proof cases
  case (get_output outs)
  with chashmap.remove [OF assms(1)] show ?thesis
    by (fastforce simp: Client_Outputs_get_def split: prod.splits)
qed

text \<open>
  C8. Outputs are shown in the order of the inputs: after any run of the client, with any
  slots and nodes, the counter is the number of outputs shown, and standard output and
  standard error hold exactly these outputs one after the other, each shown under its
  position as job ID; and each of them was shown by a step that found it in the table of
  outputs under this ID and took it out.
\<close>

theorem shown_in_order:
  assumes "chashmap M lookup"
    and "client_run M F sh sid cmd dial cid verb (client_init M F locals remotes ops) os c"
  shows "cl_counter c = of_nat (length os)
    \<and> cl_fds c = foldl (\<lambda>fds (k, out). show_output verb k out fds) ([], [])
        (zip (map of_nat [0..<length os]) os)
    \<and> (\<forall>k < length os. \<exists>c1 c2.
        client_run M F sh sid cmd dial cid verb (client_init M F locals remotes ops) (take k os) c1
        \<and> client_step M F sh sid cmd dial cid verb c1 (Some (os ! k)) c2
        \<and> client_run M F sh sid cmd dial cid verb c2 (drop (Suc k) os) c
        \<and> lookup (outputs_map (outputs (cl_shared c1))) (of_nat k) = Some (os ! k)
        \<and> lookup (outputs_map (outputs (cl_shared c2))) (of_nat k) = None)"
proof (intro conjI allI impI)
  show "cl_counter c = of_nat (length os)"
    "cl_fds c = foldl (\<lambda>fds (k, out). show_output verb k out fds) ([], []) (zip (map of_nat [0..<length os]) os)"
    using client_run_counter [OF assms(2)] by (simp_all add: client_init_def)
  fix k assume k: "k < length os"
  from trace_split [OF assms(2) k] obtain c1 c2 where
    s: "client_run M F sh sid cmd dial cid verb (client_init M F locals remotes ops) (take k os) c1"
    "client_step M F sh sid cmd dial cid verb c1 (Some (os ! k)) c2"
    "client_run M F sh sid cmd dial cid verb c2 (drop (Suc k) os) c" by blast
  from client_run_counter [OF s(1)] k have "cl_counter c1 = of_nat k" by (simp add: client_init_def)
  with s shown_taken [OF assms(1) s(2)] show "\<exists>c1 c2.
      client_run M F sh sid cmd dial cid verb (client_init M F locals remotes ops) (take k os) c1
      \<and> client_step M F sh sid cmd dial cid verb c1 (Some (os ! k)) c2
      \<and> client_run M F sh sid cmd dial cid verb c2 (drop (Suc k) os) c
      \<and> lookup (outputs_map (outputs (cl_shared c1))) (of_nat k) = Some (os ! k)
      \<and> lookup (outputs_map (outputs (cl_shared c2))) (of_nat k) = None" by auto
qed

section \<open>The jobs of a client\<close>

text \<open>The texts of the inputs by job ID.\<close>

lemma numbered_member:
  assumes "length ls < 2 ^ 64"
  shows "(k, input) \<in> set (numbered 0 ls) \<longleftrightarrow> unat k < length ls \<and> input = ls ! unat k"
proof -
  have "set (numbered 0 ls) = (\<lambda>i. (of_nat i, ls ! i)) ` {..<length ls}"
    unfolding numbered_def set_zip by (auto simp: image_def intro!: exI)
  then have "(k, input) \<in> set (numbered 0 ls) \<longleftrightarrow> (\<exists>i < length ls. k = of_nat i \<and> input = ls ! i)"
    by auto
  also have "\<dots> \<longleftrightarrow> unat k < length ls \<and> input = ls ! unat k"
  proof
    assume "\<exists>i < length ls. k = of_nat i \<and> input = ls ! i"
    then obtain i where "i < length ls" "k = of_nat i" "input = ls ! i" by blast
    moreover from this assms have "unat k = i" by (simp add: unat_of_nat_less)
    ultimately show "unat k < length ls \<and> input = ls ! unat k" by simp
  next
    assume "unat k < length ls \<and> input = ls ! unat k"
    then show "\<exists>i < length ls. k = of_nat i \<and> input = ls ! i"
      by (intro exI [of _ "unat k"]) simp
  qed
  finally show ?thesis .
qed
text \<open>What the input thread has still to do, and the jobs that it has still to queue.\<close>

definition source_ok :: "rstr list \<Rightarrow> source_op list \<Rightarrow> usize \<Rightarrow> bool \<Rightarrow> bool" where
  "source_ok ls ops tot fin \<longleftrightarrow>
     (\<exists>js. ops = inserts js @ [StoreTotal (of_nat (length ls)), StoreFinished]
        \<and> set js \<subseteq> set (numbered 0 ls) \<and> \<not> fin)
     \<or> (ops = [StoreFinished] \<and> tot = of_nat (length ls) \<and> \<not> fin)
     \<or> (ops = [] \<and> tot = of_nat (length ls) \<and> fin)"
definition to_insert :: "source_op list \<Rightarrow> (usize \<times> rstr) list" where
  "to_insert ops = concat (map (\<lambda>op. case op of Insert jid input \<Rightarrow> [(jid, input)] | _ \<Rightarrow> []) ops)"

lemma to_insert_simps [simp]:
  "to_insert [] = []"
  "to_insert (Insert jid input # ops) = (jid, input) # to_insert ops"
  "to_insert (StoreTotal n # ops) = to_insert ops"
  "to_insert (StoreFinished # ops) = to_insert ops"
  by (simp_all add: to_insert_def)

lemma to_insert_program [simp]: "to_insert (program_of ls) = numbered 0 ls"
proof -
  have "to_insert (inserts js @ ops) = js @ to_insert ops" for js ops
    by (induction js) auto
  then show ?thesis by (simp add: program_of_def)
qed

lemma distinct_numbered: "length ls < 2 ^ 64 \<Longrightarrow> distinct (map fst (numbered n ls))"
proof -
  assume l: "length ls < 2 ^ 64"
  have "inj_on (\<lambda>k. n + of_nat k) {0..<length ls}"
  proof (rule inj_onI)
    fix a b
    assume a: "a \<in> {0..<length ls}" "b \<in> {0..<length ls}" "n + of_nat a = n + of_nat b"
    have u: "unat (of_nat c :: usize) = c" if "c \<in> {0..<length ls}" for c
      using that l by (intro unat_of_nat_less) auto
    from a(3) have "unat (of_nat a :: usize) = unat (of_nat b :: usize)" by simp
    then show "a = b" unfolding u [OF a(1)] u [OF a(2)] .
  qed
  then show ?thesis by (simp add: numbered_def distinct_map)
qed

lemma count_numbered:
  assumes "length ls < 2 ^ 64"
  shows "count (mset (numbered n ls)) j \<le> 1"
proof -
  have "distinct (numbered n ls)" using distinct_numbered [OF assms] by (simp add: distinct_map)
  then show ?thesis by (cases j) (simp add: distinct_count_atmost_1)
qed

definition at_end :: "main_pc \<Rightarrow> bool" where
  "at_end pc \<longleftrightarrow> pc = Killing \<or> pc = Joining \<or> pc = Exited"

lemma at_end_simps [simp]:
  "\<not> at_end LoopTest" "\<not> at_end TotalTest" "\<not> at_end Getting" "at_end Killing" "at_end Joining" "at_end Exited"
  by (simp_all add: at_end_def)
text \<open>
  The accounting: \<open>x\<close> is the bag of queued and running jobs with the table of outputs, \<open>os\<close>
  what has been shown; \<open>E k input out\<close> says that \<open>out\<close> is a right output of the job. No job
  is twice with the input thread and in the bag, every job is in one of the places, and a
  job that is still to be done has no output yet.
\<close>

definition right_output :: "(usize \<Rightarrow> rstr \<Rightarrow> job_output \<Rightarrow> bool) \<Rightarrow> rstr list \<Rightarrow> usize \<Rightarrow> job_output \<Rightarrow> bool" where
  "right_output E ls k out \<longleftrightarrow> unat k < length ls \<and> E k (ls ! unat k) out"

definition jobs_ok ::
  "(usize \<Rightarrow> rstr \<Rightarrow> job_output \<Rightarrow> bool) \<Rightarrow> rstr list \<Rightarrow> source_op list \<Rightarrow> job_output list
   \<Rightarrow> (usize \<times> rstr) multiset \<times> (usize \<rightharpoonup> job_output) \<Rightarrow> bool" where
  "jobs_ok E ls ops os x \<longleftrightarrow>
     mset (to_insert ops) + fst x \<subseteq># mset (numbered 0 ls)
     \<and> (\<forall>k out. snd x k = Some out \<longrightarrow> right_output E ls k out)
     \<and> (\<forall>k < length os. right_output E ls (of_nat k) (os ! k))
     \<and> (\<forall>(k, input) \<in> set (numbered 0 ls). (k, input) \<in> set (to_insert ops) \<or> (k, input) \<in># fst x
          \<or> snd x k \<noteq> None \<or> unat k < length os)
     \<and> (\<forall>(k, input) \<in># mset (to_insert ops) + fst x. snd x k = None \<and> length os \<le> unat k)"

lemma jobs_okI:
  assumes "mset (to_insert ops) + b \<subseteq># mset (numbered 0 ls)"
    and "\<And>k out. m k = Some out \<Longrightarrow> right_output E ls k out"
    and "\<And>k. k < length os \<Longrightarrow> right_output E ls (of_nat k) (os ! k)"
    and "\<And>k input. (k, input) \<in> set (numbered 0 ls) \<Longrightarrow> (k, input) \<in> set (to_insert ops)
      \<or> (k, input) \<in># b \<or> m k \<noteq> None \<or> unat k < length os"
    and "\<And>k input. (k, input) \<in># mset (to_insert ops) + b \<Longrightarrow> m k = None \<and> length os \<le> unat k"
  shows "jobs_ok E ls ops os (b, m)"
  using assms unfolding jobs_ok_def fst_conv snd_conv by blast

lemma jobs_okD:
  assumes "jobs_ok E ls ops os (b, m)"
  shows "mset (to_insert ops) + b \<subseteq># mset (numbered 0 ls)"
    and "m k = Some out \<Longrightarrow> right_output E ls k out"
    and "i < length os \<Longrightarrow> right_output E ls (of_nat i) (os ! i)"
    and "(k, input) \<in> set (numbered 0 ls) \<Longrightarrow> (k, input) \<in> set (to_insert ops)
      \<or> (k, input) \<in># b \<or> m k \<noteq> None \<or> unat k < length os"
    and "(k, input) \<in># mset (to_insert ops) + b \<Longrightarrow> m k = None \<and> length os \<le> unat k"
  using assms unfolding jobs_ok_def fst_conv snd_conv by blast+

lemma jobs_ok_member:
  assumes "jobs_ok E ls ops os (add_mset (jid, input) b, m)" "length ls < 2 ^ 64"
  shows "unat jid < length ls \<and> input = ls ! unat jid"
proof -
  have "(jid, input) \<in># mset (numbered 0 ls)"
    using set_mset_mono [OF jobs_okD(1) [OF assms(1)]] by simp
  then show ?thesis using numbered_member [OF assms(2)] by simp
qed

text \<open>No two jobs that are still to be done have the same ID.\<close>

lemma jobs_ok_distinct:
  assumes "jobs_ok E ls ops os (b, m)" "length ls < 2 ^ 64"
    and "{#(jid, input), (jid', input')#} \<subseteq># mset (to_insert ops) + b"
  shows "jid \<noteq> jid'"
proof
  assume e: "jid = jid'"
  have sub: "{#(jid, input), (jid', input')#} \<subseteq># mset (numbered 0 ls)"
    by (rule subset_mset.order_trans [OF assms(3) jobs_okD(1) [OF assms(1)]])
  then have "(jid, input) \<in># mset (numbered 0 ls)" "(jid', input') \<in># mset (numbered 0 ls)"
    using set_mset_mono [OF sub] by simp_all
  then have "input = input'" using e numbered_member [OF assms(2)] by simp
  with sub e have "2 \<le> count (mset (numbered 0 ls)) (jid, input)"
    using mset_subset_eq_count [OF sub, of "(jid, input)"] by simp
  with count_numbered [OF assms(2), of 0 "(jid, input)"] show False by simp
qed

lemma jobs_ok_once:
  "jobs_ok E ls ops os (b, m) \<Longrightarrow> length ls < 2 ^ 64 \<Longrightarrow> {#(jid, input), (jid', input')#} \<subseteq># b \<Longrightarrow> jid \<noteq> jid'"
  by (rule jobs_ok_distinct) (auto intro: subset_mset.order_trans)

lemma jobs_ok_done:
  assumes "jobs_ok E ls ops os (add_mset (jid, input) b, m)" "E jid input out" "length ls < 2 ^ 64"
  shows "jobs_ok E ls ops os (b, m(jid \<mapsto> out))"
proof (rule jobs_okI)
  note D = jobs_okD [OF assms(1)] and j = jobs_ok_member [OF assms(1,3)]
  show "mset (to_insert ops) + b \<subseteq># mset (numbered 0 ls)"
    by (rule subset_mset.order_trans [OF _ D(1)]) simp
  show "right_output E ls k q" if "(m(jid \<mapsto> out)) k = Some q" for k q
    using that D(2) j assms(2) by (auto simp: right_output_def split: if_splits)
  show "(k, inp) \<in> set (to_insert ops) \<or> (k, inp) \<in># b \<or> (m(jid \<mapsto> out)) k \<noteq> None
      \<or> unat k < length os" if "(k, inp) \<in> set (numbered 0 ls)" for k inp
    using D(4) [OF that] by auto
  show "(m(jid \<mapsto> out)) k = None \<and> length os \<le> unat k" if "(k, inp) \<in># mset (to_insert ops) + b" for k inp
  proof -
    from that have "{#(jid, input), (k, inp)#} \<subseteq># mset (to_insert ops) + add_mset (jid, input) b" by simp
    from jobs_ok_distinct [OF assms(1,3) this] D(5) [of k inp] that show ?thesis by auto
  qed
qed (rule jobs_okD(3) [OF assms(1)])

lemma jobs_ok_to_insert:
  "to_insert ops = to_insert ops' \<Longrightarrow> jobs_ok E ls ops os x \<Longrightarrow> jobs_ok E ls ops' os x"
  by (simp add: jobs_ok_def)

lemma jobs_ok_insert:
  assumes "jobs_ok E ls (Insert jid input # ops) os (b, m)"
  shows "jobs_ok E ls ops os (add_mset (jid, input) b, m)"
proof (rule jobs_okI)
  note D = jobs_okD [OF assms(1)]
  show "mset (to_insert ops) + add_mset (jid, input) b \<subseteq># mset (numbered 0 ls)" using D(1) by simp
  show "(k, inp) \<in> set (to_insert ops) \<or> (k, inp) \<in># add_mset (jid, input) b \<or> m k \<noteq> None \<or> unat k < length os"
    if "(k, inp) \<in> set (numbered 0 ls)" for k inp
    using D(4) [OF that] by auto
  show "m k = None \<and> length os \<le> unat k" if "(k, inp) \<in># mset (to_insert ops) + add_mset (jid, input) b" for k inp
    using D(5) [of k inp] that by auto
qed (use jobs_okD(2,3) [OF assms(1)] in auto)

lemma shown_bound:
  assumes "jobs_ok E ls ops os x" "length ls < 2 ^ 64"
  shows "length os \<le> length ls"
proof (rule ccontr)
  assume "\<not> length os \<le> length ls"
  then have "right_output E ls (of_nat (length ls)) (os ! length ls)"
    using assms(1) by (simp add: jobs_ok_def)
  then show False using assms(2) by (simp add: right_output_def unat_of_nat_less)
qed

lemma jobs_ok_show:
  assumes "jobs_ok E ls ops os (b, m)" "m (of_nat (length os)) = Some out"
    and "length ls < 2 ^ 64"
  shows "jobs_ok E ls ops (os @ [out]) (b, m(of_nat (length os) := None))"
proof (rule jobs_okI)
  note D = jobs_okD [OF assms(1)]
  show "right_output E ls k q" if "(m(of_nat (length os) := None)) k = Some q" for k q
    using that D(2) by (auto split: if_splits)
  show "right_output E ls (of_nat k) ((os @ [out]) ! k)" if "k < length (os @ [out])" for k
    using that D(3) [of k] D(2) [OF assms(2)] by (auto simp: nth_append less_Suc_eq)
  have u: "unat (of_nat (length os) :: usize) = length os"
    using shown_bound [OF assms(1,3)] assms(3) by (simp add: unat_of_nat_less)
  show "(k, inp) \<in> set (to_insert ops) \<or> (k, inp) \<in># b \<or> (m(of_nat (length os) := None)) k \<noteq> None
      \<or> unat k < length (os @ [out])" if "(k, inp) \<in> set (numbered 0 ls)" for k inp
    using D(4) [OF that] u by (cases "k = of_nat (length os)") auto
  show "(m(of_nat (length os) := None)) k = None \<and> length (os @ [out]) \<le> unat k"
    if "(k, inp) \<in># mset (to_insert ops) + b" for k inp
  proof -
    from D(5) [OF that] assms(2) have "m k = None" "length os \<le> unat k" "k \<noteq> of_nat (length os)" by auto
    with u have "length os \<noteq> unat k" by (metis word_unat_eq_iff)
    with \<open>m k = None\<close> \<open>length os \<le> unat k\<close> show ?thesis by simp
  qed
qed (rule jobs_okD(1) [OF assms(1)])

lemma slot_not_parked:
  "slot_event g ins sh i cmd (pc, s) (pc', s') \<Longrightarrow> \<not> kill s \<Longrightarrow> pc' \<noteq> Parked \<and> \<not> kill s'"
  by (auto elim: slot_event.cases)

lemma pool_not_parked:
  assumes "pool_step g ins sh sid cmd (ts, s) (ts', s')" "\<not> kill s" "Parked \<notin> set ts"
  shows "\<not> kill s' \<and> Parked \<notin> set ts'"
  using assms slot_not_parked set_update_subset_insert unfolding pool_step_iff by fastforce

lemma source_ok_Insert:
  assumes "source_ok ls (Insert jid input # ops) tot fin"
  shows "source_ok ls ops tot fin"
proof -
  from assms obtain js where js: "Insert jid input # ops
      = inserts js @ [StoreTotal (of_nat (length ls)), StoreFinished]"
    "set js \<subseteq> set (numbered 0 ls)" "\<not> fin" by (auto simp: source_ok_def)
  then obtain js' where "js = (jid, input) # js'" by (cases js) auto
  with js show ?thesis by (auto simp: source_ok_def)
qed

lemma source_ok_Total:
  "source_ok ls (StoreTotal n # ops) tot fin \<Longrightarrow> source_ok ls ops n fin"
  by (auto simp: source_ok_def Cons_eq_append_conv)

lemma source_ok_Finished:
  "source_ok ls (StoreFinished # ops) tot fin \<Longrightarrow> source_ok ls ops tot True"
  by (auto simp: source_ok_def Cons_eq_append_conv)

lemma source_ok_fin: "source_ok ls ops tot True \<Longrightarrow> ops = [] \<and> tot = of_nat (length ls)"
  by (auto simp: source_ok_def)


text \<open>What the slots of the client leave alone in its shared state.\<close>

lemma slot_event_frame_client:
  fixes s s' :: "('m, 'f) client_shared"
  assumes "slot_event g ins sh i cmd (pc, s) (pc', s')"
  shows "errors s' = errors s \<and> failed s' = failed s"
  using assms by cases simp_all

lemma pool_step_frame_client:
  fixes s s' :: "('m, 'f) client_shared"
  assumes "pool_step g ins sh sid cmd (ts, s) (ts', s')"
  shows "errors s' = errors s \<and> failed s' = failed s"
  using assms by (auto simp: pool_step_iff dest: slot_event_frame_client)

text \<open>The jobs that are with the slots of the nodes or wait for another exchange.\<close>

definition held_remote :: "remote_pc list \<Rightarrow> ('m, 'f) client_shared \<Rightarrow> (usize \<times> rstr) multiset" where
  "held_remote rs s = image_mset (\<lambda>(jid, input, tries). (jid, input)) (mset (errors s) + at_slots rs)"

lemma pending_held:
  "image_mset (\<lambda>(jid, input, tries). (jid, input)) (pending (rs, s)) = mset (queue (inputs s)) + held_remote rs s"
proof -
  have "image_mset (\<lambda>(jid, input, tries). (jid, input)) (image_mset (\<lambda>(jid, input). (jid, input, 0)) b) = b"
    for b :: "(usize \<times> rstr) multiset"
    by (induction b) auto
  then show ?thesis by (simp add: pending_def held_remote_def queue_jobs_def)
qed

lemma held_remote_cong: "errors s' = errors s \<Longrightarrow> held_remote rs s' = held_remote rs s"
  by (simp add: held_remote_def)

section \<open>The main loop over any slots\<close>

text \<open>
  \<open>E\<close> holds of what the local slots enter; the slots of nodes are not restricted here. The
  steps of the other threads are those of \<open>solo\<close>.
\<close>

locale client_core = output_table M lookup
  for M :: "('m, job_output) map_ops" and lookup :: "'m \<Rightarrow> usize \<Rightarrow> job_output option" +
  fixes F :: "('f, rstr) map_ops" and sh :: "rstr \<Rightarrow> spawned \<Rightarrow> bool" and sid :: "nat \<Rightarrow> usize"
    and cmd :: Tokens and dial :: "nat \<Rightarrow> (io_error + stream) run \<Rightarrow> bool" and cid :: "nat \<Rightarrow> usize"
    and verb :: bool and locals :: nat and ls :: "rstr list"
    and E :: "usize \<Rightarrow> rstr \<Rightarrow> job_output \<Rightarrow> bool"
  assumes few_inputs: "length ls < 2 ^ 64"
    and local_right: "i < locals \<Longrightarrow> sh (render cmd (sid i) k input) r \<Longrightarrow> E k input (internal_output (collect r))"
begin

abbreviation steps_to :: "('m, 'f) client \<Rightarrow> job_output option \<Rightarrow> ('m, 'f) client \<Rightarrow> bool" where
  "steps_to \<equiv> client_step M F sh sid cmd dial cid verb"

abbreviation runs_to :: "('m, 'f) client \<Rightarrow> job_output list \<Rightarrow> ('m, 'f) client \<Rightarrow> bool" where
  "runs_to \<equiv> client_run M F sh sid cmd dial cid verb"
definition solo :: "('m, 'f) client \<Rightarrow> job_output option \<Rightarrow> ('m, 'f) client \<Rightarrow> bool" where
  "solo c l c' \<longleftrightarrow> steps_to c l c' \<and> cl_remote c' = cl_remote c"

definition contents :: "('m, 'f) client \<Rightarrow> (usize \<times> rstr) multiset \<times> (usize \<rightharpoonup> job_output)" where
  "contents c = (mset (queue (inputs (cl_shared c))) + running (cl_local c)
     + held_remote (cl_remote c) (cl_shared c), finished (outputs (cl_shared c)))"

definition client_ok :: "job_output list \<Rightarrow> ('m, 'f) client \<Rightarrow> bool" where
  "client_ok os c \<longleftrightarrow> cl_counter c = of_nat (length os)
     \<and> length (cl_local c) = locals
     \<and> source_ok ls (cl_source c) (cl_total c) (cl_finished c)
     \<and> jobs_ok E ls (cl_source c) os (contents c)
     \<and> (cl_main c = TotalTest \<longrightarrow> cl_finished c)
     \<and> (at_end (cl_main c) \<longrightarrow> cl_finished c \<and> length os = length ls)
     \<and> (\<not> at_end (cl_main c) \<or> cl_main c = Killing \<longrightarrow>
          \<not> kill (cl_shared c) \<and> Parked \<notin> set (cl_local c))
     \<and> (at_end (cl_main c) \<and> cl_main c \<noteq> Killing \<longrightarrow> kill (cl_shared c))"

lemma client_ok_init:
  "client_ok [] (client_init M F locals remotes (program_of ls))"
proof -
  have "running (replicate k Check) = {#}" for k by (induction k) (auto simp: running_def)
  moreover have "at_slots (replicate k Connecting) = {#}" for k
    by (induction k) (auto simp: at_slots_def)
  moreover have "finished \<lparr>outputs_map = m_new M\<rparr> = (\<lambda>_. None)"
    by (rule ext) (simp add: finished_def lookup_new)
  ultimately have "contents (client_init M F locals remotes (program_of ls)) = ({#}, \<lambda>_. None)"
    by (simp add: contents_def client_init_def held_remote_def)
  then show ?thesis
    by (auto simp: client_ok_def client_init_def source_ok_def jobs_ok_def)
      (auto simp: program_of_def)
qed

lemma client_ok_local:
  assumes "client_ok os c" "pool_step Client_get_job (Client_Outputs_insert M) sh sid cmd
      (cl_local c, cl_shared c) (ts, s)"
  shows "client_ok os (c\<lparr>cl_local := ts, cl_shared := s\<rparr>)"
proof -
  let ?h = "held_remote (cl_remote c) (cl_shared c)" and ?c' = "c\<lparr>cl_local := ts, cl_shared := s\<rparr>"
  let ?x = "local_slots.pool_abs (cl_local c, cl_shared c)" and ?y = "local_slots.pool_abs (ts, s)"
  have c: "contents c = (fst ?x + ?h, snd ?x)" "contents ?c' = (fst ?y + ?h, snd ?y)"
    using pool_step_frame_client [OF assms(2)]
    by (simp_all add: contents_def local_slots.pool_abs_def queue_jobs_def held_remote_def)
  have j: "jobs_ok E ls (cl_source c) os (contents c)" using assms(1) by (simp add: client_ok_def)
  from local_slots.pool_refines [OF assms(2)] have "jobs_ok E ls (cl_source c) os (contents ?c')"
  proof
    assume "?y = ?x"
    with j c show ?thesis by simp
  next
    assume "bag_step internal_output sh (sid ` {..<length (fst (cl_local c, cl_shared c))}) cmd ?x ?y"
    then show ?thesis
    proof cases
      case (work slot jid input r b m)
      with assms(1) obtain i where "i < locals" "slot = sid i" by (auto simp: client_ok_def)
      with work(4) have "E jid input (internal_output (collect r))" by (simp add: local_right)
      from jobs_ok_done [where E = E and ls = ls and jid = jid and input = input, OF _ this few_inputs] j c work show ?thesis by simp
    qed
  qed
  with assms pool_not_parked [OF assms(2)] pool_step_length [OF assms(2)] pool_step_kill [OF assms(2)]
  show ?thesis by (auto simp: client_ok_def)
qed

lemma client_ok_insert:
  assumes "client_ok os c" "cl_source c = Insert jid input # ops"
  shows "client_ok os (c\<lparr>cl_source := ops, cl_shared := (cl_shared c)
         \<lparr>inputs := Client_insert_job (inputs (cl_shared c)) jid input\<rparr>\<rparr>)"
proof -
  from assms source_ok_Insert have so: "source_ok ls ops (cl_total c) (cl_finished c)"
    by (auto simp: client_ok_def)
  from assms have "jobs_ok E ls (Insert jid input # ops) os (contents c)"
    by (simp add: client_ok_def)
  from jobs_ok_insert [OF this [unfolded contents_def]] so assms show ?thesis
    by (auto simp: client_ok_def contents_def Client_insert_job_def held_remote_def)
qed

lemma client_ok_get:
  assumes "client_ok os c" "cl_main c = Getting"
    and "Client_Outputs_get M (outputs (cl_shared c)) (cl_counter c) = (Some out, outs)"
  shows "client_ok (os @ [out]) (c\<lparr>cl_shared := (cl_shared c)\<lparr>outputs := outs\<rparr>,
         cl_fds := show_output verb (cl_counter c) out (cl_fds c),
         cl_counter := cl_counter c + 1, cl_main := LoopTest\<rparr>)"
proof -
  from assms(1) have k: "cl_counter c = of_nat (length os)" by (simp add: client_ok_def)
  from finished_get [OF assms(3)] k have f: "finished (outputs (cl_shared c)) (of_nat (length os)) = Some out"
    "finished outs = (finished (outputs (cl_shared c)))(of_nat (length os) := None)" by auto
  from assms(1) have "jobs_ok E ls (cl_source c) os (contents c)"
    by (simp add: client_ok_def)
  from jobs_ok_show [OF this [unfolded contents_def] f(1) few_inputs] f(2) k assms(1,2) show ?thesis
    by (auto simp: client_ok_def contents_def held_remote_def)
qed

lemma client_ok_nothing:
  assumes "client_ok os c"
    and "Client_Outputs_get M (outputs (cl_shared c)) (cl_counter c) = (None, outs)"
  shows "client_ok os (c\<lparr>cl_shared := (cl_shared c)\<lparr>outputs := outs\<rparr>\<rparr>)"
proof -
  from finished_get [OF assms(2)] have "finished outs = finished (outputs (cl_shared c))"
    by auto
  with assms(1) show ?thesis by (auto simp: client_ok_def contents_def held_remote_def)
qed

lemma client_ok_total:
  assumes "client_ok os c" "cl_main c = TotalTest"
  shows "client_ok os (c\<lparr>cl_main := if cl_counter c = cl_total c then Killing else Getting\<rparr>)"
proof -
  from assms have "cl_finished c" "source_ok ls (cl_source c) (cl_total c) True"
    by (auto simp: client_ok_def)
  then have t: "cl_total c = of_nat (length ls)" by (auto dest: source_ok_fin)
  have "jobs_ok E ls (cl_source c) os (contents c)"
    using assms(1) by (simp add: client_ok_def)
  then have "length os \<le> length ls" using few_inputs by (rule shown_bound)
  then have "unat (of_nat (length os) :: usize) = length os"
    "unat (of_nat (length ls) :: usize) = length ls"
    using few_inputs by (simp_all add: unat_of_nat_less)
  then have "length os = length ls" if "(of_nat (length os) :: usize) = of_nat (length ls)"
    using that by metis
  then show ?thesis using assms t by (auto simp: client_ok_def contents_def held_remote_def)
qed

lemma client_ok_store_total:
  assumes "client_ok os c" "cl_source c = StoreTotal n # ops"
  shows "client_ok os (c\<lparr>cl_source := ops, cl_total := n\<rparr>)"
proof -
  from assms have "source_ok ls (StoreTotal n # ops) (cl_total c) (cl_finished c)"
    by (simp add: client_ok_def)
  then have so: "source_ok ls ops n (cl_finished c)" by (rule source_ok_Total)
  have "jobs_ok E ls (StoreTotal n # ops) os (contents c)"
    using assms by (simp add: client_ok_def)
  then have "jobs_ok E ls ops os (contents c)"
    by (rule jobs_ok_to_insert [rotated]) simp
  with so assms(1) show ?thesis by (simp add: client_ok_def contents_def held_remote_def)
qed

lemma client_ok_store_finished:
  assumes "client_ok os c" "cl_source c = StoreFinished # ops"
  shows "client_ok os (c\<lparr>cl_source := ops, cl_finished := True\<rparr>)"
proof -
  from assms have "source_ok ls (StoreFinished # ops) (cl_total c) (cl_finished c)"
    by (simp add: client_ok_def)
  then have so: "source_ok ls ops (cl_total c) True" by (rule source_ok_Finished)
  have "jobs_ok E ls (StoreFinished # ops) os (contents c)"
    using assms by (simp add: client_ok_def)
  then have "jobs_ok E ls ops os (contents c)"
    by (rule jobs_ok_to_insert [rotated]) simp
  with so assms(1) show ?thesis by (simp add: client_ok_def contents_def held_remote_def)
qed

lemma client_ok_solo:
  assumes "steps_to c l c'" "client_ok os c"
    and "\<And>q rs s. remote_step M F dial cid (cl_remote c, cl_shared c) q (rs, s) \<Longrightarrow>
      c' = c\<lparr>cl_remote := rs, cl_shared := s\<rparr> \<Longrightarrow> client_ok os c'"
  shows "client_ok (os @ (case l of None \<Rightarrow> [] | Some out \<Rightarrow> [out])) c'"
  using assms(1)
proof cases
  case (local_slot ts s)
  with assms(2) show ?thesis by (simp add: client_ok_local)
next
  case (remote_slot q rs s)
  with assms(3) show ?thesis by simp
next
  case (source_insert jid input ops)
  with assms(2) show ?thesis by (simp add: client_ok_insert)
next
  case (source_total n ops)
  with assms(2) show ?thesis by (simp add: client_ok_store_total)
next
  case (source_finished ops)
  with assms(2) show ?thesis by (simp add: client_ok_store_finished)
next
  case test_total
  with assms(2) show ?thesis by (simp add: client_ok_total)
next
  case (get_nothing outs)
  with assms(2) show ?thesis by (simp add: client_ok_nothing)
next
  case (get_output out outs)
  with assms(2) show ?thesis by (simp add: client_ok_get)
qed (use assms(2) in \<open>auto simp: client_ok_def contents_def held_remote_def\<close>)

text \<open>The input thread can always run to its end,\<close>

lemma source_to_end: "\<exists>c'. trace_run solo c [] c' \<and> cl_source c' = [] \<and> cl_main c' = cl_main c
    \<and> cl_remote c' = cl_remote c \<and> cl_local c' = cl_local c"
proof (induction "cl_source c" arbitrary: c)
  case Nil
  then show ?case using trace_run.trace_stay [of solo c] by metis
next
  case (Cons op ops)
  note ops = Cons.hyps(2) [symmetric]
  have "\<exists>c1. solo c None c1 \<and> cl_source c1 = ops \<and> cl_main c1 = cl_main c
      \<and> cl_remote c1 = cl_remote c \<and> cl_local c1 = cl_local c"
  proof (cases op)
    case (Insert jid input)
    from source_insert [OF ops [unfolded this]] show ?thesis unfolding solo_def by fastforce
  next
    case (StoreTotal n)
    from source_total [OF ops [unfolded this]] show ?thesis unfolding solo_def by fastforce
  next
    case StoreFinished
    from source_finished [OF ops [unfolded this]] show ?thesis unfolding solo_def by fastforce
  qed
  then obtain c1 where "solo c None c1" "cl_source c1 = ops" "cl_main c1 = cl_main c"
    "cl_remote c1 = cl_remote c" "cl_local c1 = cl_local c" by blast
  with Cons.hyps(1) [of c1] trace_quiet [of solo] show ?case by metis
qed

text \<open>the local slots can work,\<close>

lemma slots_run:
  assumes "(pool_step Client_get_job (Client_Outputs_insert M) sh sid cmd)\<^sup>*\<^sup>* (cl_local c, cl_shared c) y"
  shows "trace_run solo c [] (c\<lparr>cl_local := fst y, cl_shared := snd y\<rparr>)"
  using assms
proof (induction rule: rtranclp_induct)
  case base
  then show ?case using trace_run.trace_stay [of solo c] by simp
next
  case (step y z)
  let ?c = "c\<lparr>cl_local := fst y, cl_shared := snd y\<rparr>"
  have "solo ?c None (?c\<lparr>cl_local := fst z, cl_shared := snd z\<rparr>)"
    unfolding solo_def using step(2) by (intro conjI local_slot) simp_all
  from trace_run.trace_move [OF step(3) this] show ?case by simp
qed

text \<open>and when the slots have finished every job, the main loop can show what is missing.\<close>

definition settled :: "job_output list \<Rightarrow> ('m, 'f) client \<Rightarrow> bool" where
  "settled os c \<longleftrightarrow> client_ok os c \<and> cl_source c = [] \<and> \<not> at_end (cl_main c) \<and> fst (contents c) = {#}"

lemma solo_one: "solo c None c' \<Longrightarrow> trace_run solo c [] c'"
  using trace_one [of solo c None c'] by simp

lemma to_getting:
  assumes "settled os c" "length os < length ls"
  shows "\<exists>c'. trace_run solo c [] c' \<and> settled os c' \<and> cl_main c' = Getting"
proof -
  have keep: "settled os (c\<lparr>cl_main := pc\<rparr>)" if "settled os c" "pc = TotalTest \<longrightarrow> cl_finished c"
    "\<not> at_end pc" for c pc
    using that by (auto simp: settled_def client_ok_def contents_def held_remote_def)
  have test: "\<exists>c'. trace_run solo c [] c' \<and> settled os c' \<and> cl_main c' = Getting"
    if "settled os c" "cl_main c = TotalTest" for c
  proof -
    from that have ok: "client_ok os c" "cl_source c = []" by (simp_all add: settled_def)
    then have "cl_total c = of_nat (length ls)" by (auto simp: client_ok_def source_ok_def)
    moreover have "unat (of_nat (length os) :: usize) = length os"
      "unat (of_nat (length ls) :: usize) = length ls"
      using few_inputs assms(2) by (simp_all add: unat_of_nat_less)
    ultimately have "cl_counter c \<noteq> cl_total c" using ok(1) assms(2)
      by (metis client_ok_def nat_neq_iff)
    with test_total [OF that(2)] have "solo c None (c\<lparr>cl_main := Getting\<rparr>)" by (simp add: solo_def)
    from solo_one [OF this] keep [OF that(1)] show ?thesis
      by (intro exI [of _ "c\<lparr>cl_main := Getting\<rparr>"]) simp
  qed
  show ?thesis
  proof (cases "cl_main c")
    case LoopTest
    note st = test_finished [OF LoopTest]
    show ?thesis
    proof (cases "cl_finished c")
      case True
      with st have s: "solo c None (c\<lparr>cl_main := TotalTest\<rparr>)" by (simp add: solo_def)
      have t: "cl_main (c\<lparr>cl_main := TotalTest\<rparr>) = TotalTest" by simp
      have "settled os (c\<lparr>cl_main := TotalTest\<rparr>)" using True by (intro keep [OF assms(1)]) simp_all
      from test [OF this t] obtain c' where "trace_run solo (c\<lparr>cl_main := TotalTest\<rparr>) [] c'"
        "settled os c'" "cl_main c' = Getting" by blast
      with trace_quiet [where step = solo, OF s] show ?thesis by blast
    next
      case False
      with st have "solo c None (c\<lparr>cl_main := Getting\<rparr>)" by (simp add: solo_def)
      from solo_one [OF this] keep [OF assms(1)] show ?thesis
        by (intro exI [of _ "c\<lparr>cl_main := Getting\<rparr>"]) simp
    qed
  next
    case TotalTest
    with test assms(1) show ?thesis by blast
  next
    case Getting
    with assms(1) trace_run.trace_stay [of solo c] show ?thesis by blast
  qed (use assms(1) in \<open>simp_all add: settled_def\<close>)
qed

lemma show_one:
  assumes "settled os c" "length os < length ls"
  shows "\<exists>out c'. trace_run solo c [out] c' \<and> settled (os @ [out]) c' \<and> cl_main c' = LoopTest"
proof -
  from to_getting [OF assms] obtain c1 where c1: "trace_run solo c [] c1" "settled os c1" "cl_main c1 = Getting"
    by blast
  then have ok: "client_ok os c1" "fst (contents c1) = {#}" "cl_source c1 = []"
    by (simp_all add: settled_def)
  let ?k = "of_nat (length os) :: usize"
  have u: "unat ?k = length os" using few_inputs assms(2) by (simp add: unat_of_nat_less)
  have "(?k, ls ! length os) \<in> set (numbered 0 ls)"
    using numbered_member [OF few_inputs, of ?k "ls ! length os"] u assms(2) by simp
  moreover have "jobs_ok E ls [] os ({#}, snd (contents c1))"
    using ok by (metis client_ok_def prod.collapse)
  ultimately have "snd (contents c1) ?k \<noteq> None"
    using jobs_okD(4) u by (fastforce simp: to_insert_def)
  then obtain out where o: "finished (outputs (cl_shared c1)) (cl_counter c1) = Some out"
    using ok(1) by (auto simp: contents_def held_remote_def client_ok_def)
  obtain e outs where g: "Client_Outputs_get M (outputs (cl_shared c1)) (cl_counter c1) = (e, outs)"
    by (metis surj_pair)
  with finished_get [OF g] o have e: "e = Some out" by simp
  let ?c2 = "c1\<lparr>cl_shared := (cl_shared c1)\<lparr>outputs := outs\<rparr>,
         cl_fds := show_output verb (cl_counter c1) out (cl_fds c1),
         cl_counter := cl_counter c1 + 1, cl_main := LoopTest\<rparr>"
  have "solo c1 (Some out) ?c2" using get_output [OF c1(3) g [unfolded e]] by (simp add: solo_def)
  from trace_run.trace_move [OF c1(1) this] have "trace_run solo c [out] ?c2" by simp
  moreover have "settled (os @ [out]) ?c2"
    using client_ok_get [OF ok(1) c1(3) g [unfolded e]] ok(2,3)
    by (simp add: settled_def contents_def held_remote_def)
  ultimately show ?thesis by (intro exI [of _ out] exI [of _ ?c2]) simp
qed

lemma show_rest:
  assumes "settled os c" "length os \<le> length ls"
  shows "\<exists>os' c'. trace_run solo c os' c' \<and> length (os @ os') = length ls \<and> settled (os @ os') c'
    \<and> (os' = [] \<and> c' = c \<or> cl_main c' = LoopTest)"
  using assms
proof (induction "length ls - length os" arbitrary: os c)
  case 0
  then show ?case using trace_run.trace_stay [of solo c] by (intro exI [of _ "[]"] exI [of _ c]) simp
next
  case (Suc n)
  then have "length os < length ls" by simp
  from show_one [OF Suc.prems(1) this] obtain out c1 where
    c1: "trace_run solo c [out] c1" "settled (os @ [out]) c1" "cl_main c1 = LoopTest" by blast
  have "n = length ls - length (os @ [out])" "length (os @ [out]) \<le> length ls"
    using Suc.hyps(2) \<open>length os < length ls\<close> by simp_all
  from Suc.hyps(1) [OF this(1) c1(2) this(2)] obtain os' c' where
    "trace_run solo c1 os' c'" "length ((os @ [out]) @ os') = length ls" "settled ((os @ [out]) @ os') c'"
    "cl_main c' = LoopTest" using c1(3) by blast
  with trace_append [OF this(1) c1(1)] show ?case
    by (intro exI [of _ "out # os'"] exI [of _ c']) simp
qed

text \<open>At the end no job is left, and the slots can leave.\<close>

lemma none_left:
  assumes "client_ok os c" "at_end (cl_main c)"
  shows "fst (contents c) = {#}" "cl_source c = []"
proof -
  have j: "jobs_ok E ls (cl_source c) os (fst (contents c), snd (contents c))" "length os = length ls" "cl_finished c"
    using assms by (simp_all add: client_ok_def)
  from j(3) assms(1) show "cl_source c = []" by (auto simp: client_ok_def dest: source_ok_fin)
  show "fst (contents c) = {#}"
  proof (rule ccontr)
    assume "fst (contents c) \<noteq> {#}"
    then obtain jid input b where b: "fst (contents c) = add_mset (jid, input) b"
      by (metis multi_nonempty_split surj_pair)
    with jobs_ok_member [of E ls "cl_source c" os jid input b, OF _ few_inputs] jobs_okD(5) [OF j(1), of jid input] j(1,2)
    show False by simp
  qed
qed

lemma locals_leave:
  assumes "kill (cl_shared c)" "\<forall>line. \<exists>r. sh line r"
  shows "\<exists>ts s. trace_run solo c [] (c\<lparr>cl_local := ts, cl_shared := s\<rparr>) \<and> (\<forall>pc \<in> set ts. pc = Parked)"
proof -
  from pool_parks [OF assms] obtain ts s where
    "(pool_step Client_get_job (Client_Outputs_insert M) sh sid cmd)\<^sup>*\<^sup>* (cl_local c, cl_shared c) (ts, s)"
    "num_parked ts = length ts" by blast
  with slots_run [of c "(ts, s)"] show ?thesis by (auto simp: num_parked_all)
qed

text \<open>Unless the main loop waits for an output behind the last one, it then ends.\<close>

lemma loop_ends:
  assumes "settled os c" "length os = length ls" "cl_main c \<noteq> Getting"
  shows "trace_run solo c [] (c\<lparr>cl_main := Killing\<rparr>)"
proof -
  from assms have s: "cl_finished c" "cl_counter c = cl_total c"
    by (auto simp: settled_def client_ok_def source_ok_def)
  have total: "trace_run solo d [] (d\<lparr>cl_main := Killing\<rparr>)"
    if "cl_main d = TotalTest" "cl_counter d = cl_total d" for d
    using test_total [OF that(1)] that(2) by (intro solo_one) (simp add: solo_def)
  show ?thesis
  proof (cases "cl_main c")
    case LoopTest
    from test_finished [OF this] s(1) have "solo c None (c\<lparr>cl_main := TotalTest\<rparr>)" by (simp add: solo_def)
    from trace_quiet [where step = solo, OF this total] s(2) show ?thesis by simp
  next
    case TotalTest
    with total s(2) show ?thesis by blast
  qed (use assms in \<open>simp_all add: settled_def\<close>)
qed

lemma show_to_end:
  assumes "settled os c" "length os \<le> length ls" "cl_main c = Getting \<Longrightarrow> length os \<noteq> length ls"
  shows "\<exists>os' c'. trace_run solo c os' c' \<and> length (os @ os') = length ls \<and> cl_main c' = Killing
    \<and> fst (contents c') = {#}"
proof -
  from show_rest [OF assms(1,2)] obtain os' c' where r: "trace_run solo c os' c'" "length (os @ os') = length ls"
    "settled (os @ os') c'" "os' = [] \<and> c' = c \<or> cl_main c' = LoopTest" by blast
  with assms(3) have "cl_main c' \<noteq> Getting" by auto
  from trace_append [OF loop_ends [OF r(3,2) this] r(1)] r(2,3) show ?thesis
    by (intro exI [of _ "os' @ []"] exI [of _ "c'\<lparr>cl_main := Killing\<rparr>"])
      (simp add: settled_def contents_def held_remote_def)
qed

end

end
