(* ===== verification/Lone_Client.thy ===== *)
theory Lone_Client
  imports Client_System
begin

text \<open>
  A client that is its only node: it exits after exactly one output for each input, each the
  outcome of its own command line, and as long as it has not exited it can still show every
  output that is missing.
\<close>

lemma no_remote_step: "\<not> remote_step M F dial cid ([], s) l y"
  by (auto elim: remote_step.cases)

text \<open>The outcomes possible for a job: those of its command line on some slot of the client.\<close>

definition local_output ::
  "(rstr \<Rightarrow> spawned \<Rightarrow> bool) \<Rightarrow> (nat \<Rightarrow> usize) \<Rightarrow> Tokens \<Rightarrow> nat \<Rightarrow> usize \<Rightarrow> rstr \<Rightarrow> job_output \<Rightarrow> bool" where
  "local_output sh sid cmd locals k input out \<longleftrightarrow>
     (\<exists>i < locals. \<exists>r. sh (render cmd (sid i) k input) r \<and> out = internal_output (collect r))"

locale lone_client = output_table M lookup
  for M :: "('m, job_output) map_ops" and lookup :: "'m \<Rightarrow> usize \<Rightarrow> job_output option" +
  fixes F :: "('f, rstr) map_ops" and sh :: "rstr \<Rightarrow> spawned \<Rightarrow> bool" and sid :: "nat \<Rightarrow> usize"
    and cmd :: Tokens and dial :: "nat \<Rightarrow> (io_error + stream) run \<Rightarrow> bool" and cid :: "nat \<Rightarrow> usize"
    and verb :: bool and locals :: nat and ls :: "rstr list"
  assumes length_inputs: "length ls < 2 ^ 64"
begin

sublocale client_core M lookup F sh sid cmd dial cid verb locals ls "local_output sh sid cmd locals"
  by unfold_locales (rule length_inputs, auto simp: local_output_def)

definition lone_ok :: "job_output list \<Rightarrow> ('m, 'f) client \<Rightarrow> bool" where
  "lone_ok os c \<longleftrightarrow> client_ok os c \<and> cl_remote c = [] \<and> errors (cl_shared c) = []"

lemma lone_ok_init: "lone_ok [] (client_init M F locals 0 (program_of ls))"
  using client_ok_init [of 0] by (simp add: lone_ok_def client_init_def)

lemma lone_ok_step:
  assumes "steps_to c l c'" "lone_ok os c"
  shows "lone_ok (os @ (case l of None \<Rightarrow> [] | Some out \<Rightarrow> [out])) c'"
proof -
  from assms(2) have c: "client_ok os c" "cl_remote c = []" "errors (cl_shared c) = []"
    by (simp_all add: lone_ok_def)
  from assms(1) c(2,3) have "cl_remote c' = [] \<and> errors (cl_shared c') = []"
    by cases (auto simp: no_remote_step pool_step_frame_client)
  with client_ok_solo [OF assms(1) c(1)] c(2) show ?thesis by (simp add: lone_ok_def no_remote_step)
qed

lemma lone_ok_run: "runs_to c os' c' \<Longrightarrow> lone_ok os c \<Longrightarrow> lone_ok (os @ os') c'"
  using trace_invariant [where P = lone_ok and step = "client_step M F sh sid cmd dial cid verb"]
    lone_ok_step by blast

lemma solo_runs: "trace_run solo c os c' \<Longrightarrow> runs_to c os c'"
  using trace_lift [where f = "\<lambda>c. c" and step = solo] by (simp add: solo_def)

text \<open>The slots can finish every job,\<close>

lemma slots_to_end:
  assumes "lone_ok os c" "\<not> at_end (cl_main c)" "0 < locals" "\<forall>line. \<exists>r. sh line r"
  shows "\<exists>c'. trace_run solo c [] c' \<and> cl_source c' = cl_source c \<and> cl_main c' = cl_main c
    \<and> fst (contents c') = {#}"
proof -
  have "local_slots.alive (cl_local c) (cl_shared c)"
    using assms(1-3) by (auto simp: lone_ok_def client_ok_def local_slots.alive_def)
  from local_slots.drain [OF this assms(4)] obtain ts s where
    d: "(pool_step Client_get_job (Client_Outputs_insert M) sh sid cmd)\<^sup>*\<^sup>* (cl_local c, cl_shared c) (ts, s)"
    "local_slots.held ts s = {#}" by blast
  let ?c = "c\<lparr>cl_local := ts, cl_shared := s\<rparr>"
  have r: "trace_run solo c [] ?c" using slots_run [OF d(1)] by simp
  from lone_ok_run [OF solo_runs [OF r] assms(1)] have "cl_remote ?c = []" "errors (cl_shared ?c) = []"
    by (simp_all add: lone_ok_def)
  then show ?thesis using r d(2)
    by (intro exI [of _ ?c])
      (simp add: contents_def local_slots.held_def queue_jobs_def held_remote_def at_slots_def)
qed

lemma shows_all:
  assumes "lone_ok os c" "0 < locals" "\<forall>line. \<exists>r. sh line r"
  shows "\<exists>os' c'. runs_to c os' c' \<and> length (os @ os') = length ls"
proof (cases "at_end (cl_main c)")
  case True
  with assms(1) trace_run.trace_stay [of "client_step M F sh sid cmd dial cid verb" c] show ?thesis
    by (intro exI [of _ "[]"] exI [of _ c]) (simp add: lone_ok_def client_ok_def)
next
  case False
  from source_to_end obtain c1 where c1: "trace_run solo c [] c1" "cl_source c1 = []"
    "cl_main c1 = cl_main c" by blast
  have ok1: "lone_ok os c1" using lone_ok_run [OF solo_runs [OF c1(1)] assms(1)] by simp
  from slots_to_end [OF ok1 _ assms(2,3)] False c1 obtain c2 where
    c2: "trace_run solo c1 [] c2" "cl_source c2 = []" "cl_main c2 = cl_main c" "fst (contents c2) = {#}"
    by auto
  have ok2: "client_ok os c2" using lone_ok_run [OF solo_runs [OF c2(1)] ok1] by (simp add: lone_ok_def)
  then have "settled os c2" using c2 False by (simp add: settled_def)
  moreover have "length os \<le> length ls"
    using ok2 shown_bound [OF _ few_inputs] unfolding client_ok_def by blast
  ultimately obtain os' c' where "trace_run solo c2 os' c'" "length (os @ os') = length ls"
    using show_rest by blast
  with trace_quiet_runs [OF c1(1) trace_quiet_runs [OF c2(1)]] solo_runs show ?thesis by blast
qed

end

text \<open>The properties of the client, from the contract of the hash map.\<close>

lemma lone_clientI: "chashmap M lookup \<Longrightarrow> length ls < 2 ^ 64 \<Longrightarrow> lone_client M lookup ls"
  by (simp add: lone_client_def lone_client_axioms_def output_table_def)

lemma lone_run_ok:
  assumes "chashmap M lookup" "length ls < 2 ^ 64"
    and "client_run M F sh sid cmd dial cid verb (client_init M F locals 0 (program_of ls)) os c"
  shows "lone_client.lone_ok lookup sh sid cmd locals ls os c"
  using lone_client.lone_ok_run [OF lone_clientI [OF assms(1,2)] assms(3)
      lone_client.lone_ok_init [OF lone_clientI [OF assms(1,2)]]] by simp

text \<open>
  C7. A client without nodes exits only when its work is done: once its main loop has ended,
  it has shown exactly one output for each input, in order, and each is the outcome of
  running the command on that input, with its job ID and the number of some slot.
\<close>

theorem exit_complete:
  assumes "chashmap M lookup" "length ls < 2 ^ 64"
    and "client_run M F sh sid cmd dial cid verb (client_init M F locals 0 (program_of ls)) os c"
    and "cl_main c \<in> {Killing, Joining, Exited}"
  shows "length os = length ls \<and> list_all2 (\<lambda>(k, input) out. \<exists>i < locals. \<exists>r.
      sh (render cmd (sid i) k input) r \<and> out = internal_output (collect r))
    (zip (map of_nat [0..<length ls]) ls) os"
proof -
  note L = lone_clientI [OF assms(1,2)]
  have core: "client_core M lookup sh sid cmd locals ls (local_output sh sid cmd locals)"
    using assms(1,2) by (simp add: client_core_def client_core_axioms_def output_table_def local_output_def)
      blast
  from lone_run_ok [OF assms(1-3)] assms(4)
  have len: "length os = length ls"
    and ok: "\<forall>k < length os. right_output (local_output sh sid cmd locals) ls (of_nat k) (os ! k)"
    by (auto simp: lone_client.lone_ok_def [OF L] client_core.client_ok_def [OF core] jobs_ok_def at_end_def)
  have "\<exists>i < locals. \<exists>r. sh (render cmd (sid i) (of_nat k) (ls ! k)) r \<and> os ! k = internal_output (collect r)"
    if "k < length ls" for k
  proof -
    have "unat (of_nat k :: usize) = k" using that assms(2) by (simp add: unat_of_nat_less)
    with ok len that show ?thesis by (fastforce simp: right_output_def local_output_def)
  qed
  with len show ?thesis by (simp add: list_all2_conv_all_nth)
qed

text \<open>
  No output is out of reach: from every state that a client without nodes reaches, as
  long as it has a slot and the shell ends every command, some continuation shows the
  outputs of all inputs.
\<close>

theorem outputs_reachable:
  assumes "chashmap M lookup" "length ls < 2 ^ 64" "0 < locals" "\<forall>line. \<exists>r. sh line r"
    and "client_run M F sh sid cmd dial cid verb (client_init M F locals 0 (program_of ls)) os c"
  shows "\<exists>os' c'. client_run M F sh sid cmd dial cid verb c os' c' \<and> length (os @ os') = length ls"
  by (rule lone_client.shows_all [OF lone_clientI [OF assms(1,2)] lone_run_ok [OF assms(1,2,5)] assms(3,4)])

end
