(* ===== verification/Client_Runs.thy ===== *)
theory Client_Runs
  imports Lone_Client
begin

text \<open>
  Concrete runs of the client: one slot, one input. The first shows its output and ends.
  The second takes the output before the input thread has published the end of the inputs,
  and then waits for ever; it applies the properties of the theories on the client too.
\<close>

section \<open>A client with one slot\<close>

definition echo_sh :: "rstr \<Rightarrow> spawned \<Rightarrow> bool" where
  "echo_sh line r \<longleftrightarrow> r = Child (Some (Some 0)) (as_bytes line) []"

definition echo_cmd :: Tokens where
  "echo_cmd = \<lparr>tokens = [Text (lit ''x ''), Placeholder]\<rparr>"

definition echo_out :: job_output where
  "echo_out = Outcome 0 (Internal (as_bytes (lit ''x a'')) [])"

type_synonym demo_lone = "(usize \<rightharpoonup> job_output, usize \<rightharpoonup> rstr) client"

definition lone :: "source_op list \<Rightarrow> slot_pc \<Rightarrow> (usize \<times> rstr) list \<Rightarrow> (usize \<rightharpoonup> job_output)
   \<Rightarrow> usize \<Rightarrow> bool \<Rightarrow> main_pc \<Rightarrow> usize \<Rightarrow> byte list \<Rightarrow> demo_lone" where
  "lone ops pc q m tot fin mpc counter fd =
     \<lparr>cl_shared = \<lparr>inputs = \<lparr>queue = q\<rparr>, outputs = \<lparr>outputs_map = m\<rparr>, kill = False, parked = 0,
        errors = [], failed = (\<lambda>_. None)\<rparr>,
      cl_source = ops, cl_local = [pc], cl_remote = [], cl_total = tot, cl_finished = fin,
      cl_main = mpc, cl_counter = counter, cl_fds = (fd, [])\<rparr>"

abbreviation lone_step :: "demo_lone \<Rightarrow> job_output option \<Rightarrow> demo_lone \<Rightarrow> bool" where
  "lone_step \<equiv> client_step fun_map fun_map echo_sh (\<lambda>_. 0) echo_cmd (\<lambda>_ _. False) (\<lambda>_. 0) False"

abbreviation lone_run :: "demo_lone \<Rightarrow> job_output list \<Rightarrow> demo_lone \<Rightarrow> bool" where
  "lone_run \<equiv> client_run fun_map fun_map echo_sh (\<lambda>_. 0) echo_cmd (\<lambda>_ _. False) (\<lambda>_. 0) False"

interpretation demo_client: lone_client fun_map "\<lambda>m. m" fun_map echo_sh "\<lambda>_. 0" echo_cmd
  "\<lambda>_ _. False" "\<lambda>_. 0" False 1 "[lit ''a'']"
  by unfold_locales simp

lemma lone_init: "client_init fun_map fun_map 1 0 (program_of [lit ''a''])
    = lone [Insert 0 (lit ''a''), StoreTotal 1, StoreFinished] Check [] (\<lambda>_. None) 0 False LoopTest 0 []"
  by (simp add: client_init_def lone_def program_of_def fun_map_def)

lemma lone_source:
  "lone_step (lone (Insert j i # ops) pc q m tot fin mpc k fd) None
     (lone ops pc (q @ [(j, i)]) m tot fin mpc k fd)"
  "lone_step (lone (StoreTotal n # ops) pc q m tot fin mpc k fd) None
     (lone ops pc q m n fin mpc k fd)"
  "lone_step (lone (StoreFinished # ops) pc q m tot fin mpc k fd) None
     (lone ops pc q m tot True mpc k fd)"
proof -
  let ?c = "\<lambda>op. lone (op # ops) pc q m tot fin mpc k fd"
  have "cl_source (?c op) = op # ops" for op by (simp add: lone_def)
  from source_insert [OF this] source_total [OF this] source_finished [OF this] show
    "lone_step (?c (Insert j i)) None (lone ops pc (q @ [(j, i)]) m tot fin mpc k fd)"
    "lone_step (?c (StoreTotal n)) None (lone ops pc q m n fin mpc k fd)"
    "lone_step (?c StoreFinished) None (lone ops pc q m tot True mpc k fd)"
    by (fastforce simp: lone_def Client_insert_job_def)+
qed

lemma lone_slot:
  assumes "slot_event Client_get_job (Client_Outputs_insert fun_map) echo_sh 0 echo_cmd
    (pc, cl_shared (lone ops pc q m tot fin mpc k fd)) (pc', cl_shared (lone ops pc q' m' tot fin mpc k fd))"
  shows "lone_step (lone ops pc q m tot fin mpc k fd) None (lone ops pc' q' m' tot fin mpc k fd)"
proof -
  let ?c = "lone ops pc q m tot fin mpc k fd" and ?c' = "lone ops pc q' m' tot fin mpc k fd"
  have "pool_step Client_get_job (Client_Outputs_insert fun_map) echo_sh (\<lambda>_. 0) echo_cmd
      (cl_local ?c, cl_shared ?c) ((cl_local ?c)[0 := pc'], cl_shared ?c')"
    using assms by (intro pool_step.thread) (simp_all add: lone_def)
  from local_slot [OF this] show ?thesis by (simp add: lone_def)
qed

lemma lone_slot_steps:
  "lone_step (lone ops Check q m tot fin mpc k fd) None (lone ops Poll q m tot fin mpc k fd)"
  "lone_step (lone ops Poll ((j, i) # q) m tot fin mpc k fd) None
     (lone ops (Running j i) q m tot fin mpc k fd)"
  "lone_step (lone ops (Running 0 (lit ''a'')) q m tot fin mpc k fd) None
     (lone ops Check q (m(0 \<mapsto> echo_out)) tot fin mpc k fd)"
proof -
  show "lone_step (lone ops Check q m tot fin mpc k fd) None (lone ops Poll q m tot fin mpc k fd)"
    by (rule lone_slot) (simp add: lone_def slot_event.enter)
  let ?s = "cl_shared (lone ops Poll ((j, i) # q) m tot fin mpc k fd)"
  have "Client_get_job (inputs ?s) = (Some (j, i), \<lparr>queue = q\<rparr>)"
    by (simp add: lone_def Client_get_job_def)
  from slot_event.grab [where s = ?s and get_job = Client_get_job, OF this]
  show "lone_step (lone ops Poll ((j, i) # q) m tot fin mpc k fd) None
     (lone ops (Running j i) q m tot fin mpc k fd)"
    by (intro lone_slot) (simp add: lone_def)
  let ?s = "cl_shared (lone ops (Running 0 (lit ''a'')) q m tot fin mpc k fd)"
  have "echo_sh (render echo_cmd 0 0 (lit ''a'')) (Child (Some (Some 0)) (as_bytes (lit ''x a'')) [])"
    by (simp add: echo_sh_def echo_cmd_def render_def lit_def)
  from slot_event.finish [where sh = echo_sh and cmd = echo_cmd and get_job = Client_get_job
      and insert = "Client_Outputs_insert fun_map" and s = ?s, OF this]
  show "lone_step (lone ops (Running 0 (lit ''a'')) q m tot fin mpc k fd) None
     (lone ops Check q (m(0 \<mapsto> echo_out)) tot fin mpc k fd)"
    by (intro lone_slot)
      (simp add: lone_def Client_Outputs_insert_def fun_map_def echo_out_def exit_status_def)
qed

lemma lone_main:
  "lone_step (lone ops pc q m tot fin LoopTest k fd) None
     (lone ops pc q m tot fin (if fin then TotalTest else Getting) k fd)"
  "lone_step (lone ops pc q m tot fin TotalTest k fd) None
     (lone ops pc q m tot fin (if k = tot then Killing else Getting) k fd)"
  "m k = Some echo_out \<Longrightarrow> lone_step (lone ops pc q m tot fin Getting k fd) (Some echo_out)
     (lone ops pc q (m(k := None)) tot fin LoopTest (k + 1) (fd @ as_bytes (lit ''x a'')))"
proof -
  show "lone_step (lone ops pc q m tot fin LoopTest k fd) None
     (lone ops pc q m tot fin (if fin then TotalTest else Getting) k fd)"
    using test_finished [of "lone ops pc q m tot fin LoopTest k fd"] by (fastforce simp: lone_def)
  show "lone_step (lone ops pc q m tot fin TotalTest k fd) None
     (lone ops pc q m tot fin (if k = tot then Killing else Getting) k fd)"
    using test_total [of "lone ops pc q m tot fin TotalTest k fd"] by (fastforce simp: lone_def)
  assume m: "m k = Some echo_out"
  let ?c = "lone ops pc q m tot fin Getting k fd"
  have "cl_main ?c = Getting" by (simp add: lone_def)
  moreover from m have "Client_Outputs_get fun_map (outputs (cl_shared ?c)) (cl_counter ?c)
      = (Some echo_out, \<lparr>outputs_map = m(k := None)\<rparr>)"
    by (simp add: lone_def Client_Outputs_get_def fun_map_def)
  ultimately have "lone_step ?c (Some echo_out)
      (?c\<lparr>cl_shared := (cl_shared ?c)\<lparr>outputs := \<lparr>outputs_map = m(k := None)\<rparr>\<rparr>,
         cl_fds := show_output False (cl_counter ?c) echo_out (cl_fds ?c),
         cl_counter := cl_counter ?c + 1, cl_main := LoopTest\<rparr>)"
    by (rule get_output)
  then show "lone_step ?c (Some echo_out)
     (lone ops pc q (m(k := None)) tot fin LoopTest (k + 1) (fd @ as_bytes (lit ''x a'')))"
    by (simp add: lone_def show_output_def echo_out_def write_source_def)
qed

lemma lone_quiet: "lone_run c os c1 \<Longrightarrow> lone_step c1 None c2 \<Longrightarrow> lone_run c os c2"
  using trace_run.trace_move [of "client_step fun_map fun_map echo_sh (\<lambda>_. 0) echo_cmd (\<lambda>_ _. False) (\<lambda>_. 0) False" c os c1 None c2] by simp

lemma lone_shown: "lone_run c os c1 \<Longrightarrow> lone_step c1 (Some out) c2 \<Longrightarrow> lone_run c (os @ [out]) c2"
  using trace_run.trace_move [of "client_step fun_map fun_map echo_sh (\<lambda>_. 0) echo_cmd (\<lambda>_ _. False) (\<lambda>_. 0) False" c os c1 "Some out" c2] by simp

section \<open>A run to the end\<close>

lemma shown_first:
  "\<exists>c. lone_run (client_init fun_map fun_map 1 0 (program_of [lit ''a''])) [echo_out] c
    \<and> c = lone [StoreTotal 1, StoreFinished] Check [] (\<lambda>_. None) 0 False LoopTest 1 (as_bytes (lit ''x a''))"
proof -
  let ?start = "client_init fun_map fun_map 1 0 (program_of [lit ''a''])"
  let ?ops = "[StoreTotal 1, StoreFinished]"
  have "lone_run ?start [] (lone ?ops Check [(0, lit ''a'')] (\<lambda>_. None) 0 False LoopTest 0 [])"
    unfolding lone_init using lone_quiet [OF trace_run.trace_stay lone_source(1) [where q = "[]"]] by simp
  from lone_quiet [OF lone_quiet [OF lone_quiet [OF this lone_slot_steps(1)] lone_slot_steps(2)]
      lone_slot_steps(3)]
  have "lone_run ?start [] (lone ?ops Check [] [0 \<mapsto> echo_out] 0 False LoopTest 0 [])" .
  from lone_quiet [OF this lone_main(1)]
  have "lone_run ?start [] (lone ?ops Check [] [0 \<mapsto> echo_out] 0 False Getting 0 [])" by simp
  from lone_shown [OF this lone_main(3)] show ?thesis by simp
qed

lemma shown_and_done:
  "\<exists>c. lone_run (client_init fun_map fun_map 1 0 (program_of [lit ''a''])) [echo_out] c
    \<and> cl_main c = Killing \<and> cl_counter c = 1 \<and> cl_fds c = (as_bytes (lit ''x a''), [])"
proof -
  let ?start = "client_init fun_map fun_map 1 0 (program_of [lit ''a''])"
  from shown_first have "lone_run ?start [echo_out]
    (lone [StoreTotal 1, StoreFinished] Check [] (\<lambda>_. None) 0 False LoopTest 1 (as_bytes (lit ''x a'')))"
    by simp
  from lone_quiet [OF lone_quiet [OF this lone_source(2)] lone_source(3)]
  have "lone_run ?start [echo_out] (lone [] Check [] (\<lambda>_. None) 1 True LoopTest 1 (as_bytes (lit ''x a'')))" .
  from lone_quiet [OF this lone_main(1)]
  have "lone_run ?start [echo_out] (lone [] Check [] (\<lambda>_. None) 1 True TotalTest 1 (as_bytes (lit ''x a'')))"
    by simp
  from lone_quiet [OF this lone_main(2)]
  have "lone_run ?start [echo_out] (lone [] Check [] (\<lambda>_. None) 1 True Killing 1 (as_bytes (lit ''x a'')))"
    by simp
  then show ?thesis by (intro exI conjI) (assumption, simp_all add: lone_def)
qed

theorem shown_in_order_witness:
  "\<exists>c1 c2 c. lone_run (client_init fun_map fun_map 1 0 (program_of [lit ''a''])) [] c1
    \<and> lone_step c1 (Some echo_out) c2 \<and> lone_run c2 [] c \<and> cl_main c = Killing
    \<and> outputs_map (outputs (cl_shared c1)) 0 = Some echo_out \<and> outputs_map (outputs (cl_shared c2)) 0 = None
    \<and> cl_counter c = 1 \<and> cl_fds c = show_output False 0 echo_out ([], [])"
proof -
  from shown_and_done obtain c where
    c: "lone_run (client_init fun_map fun_map 1 0 (program_of [lit ''a''])) [echo_out] c" "cl_main c = Killing"
    by blast
  from shown_in_order [OF fun_map.chashmap_axioms c(1)] c(2) show ?thesis by simp blast
qed

theorem exit_complete_witness:
  "\<exists>r. echo_sh (render echo_cmd 0 0 (lit ''a'')) r \<and> echo_out = internal_output (collect r)"
proof -
  from shown_and_done obtain c where
    c: "lone_run (client_init fun_map fun_map 1 0 (program_of [lit ''a''])) [echo_out] c" "cl_main c = Killing"
    by blast
  from exit_complete [OF fun_map.chashmap_axioms _ c(1)] c(2) show ?thesis by simp
qed

theorem outputs_reachable_witness:
  "\<exists>os' c'. lone_run (client_init fun_map fun_map 1 0 (program_of [lit ''a''])) os' c' \<and> length os' = 1"
proof -
  have "\<forall>line. \<exists>r. echo_sh line r" by (simp add: echo_sh_def)
  from outputs_reachable [OF fun_map.chashmap_axioms, of "[lit ''a'']" 1, OF _ _ this trace_run.trace_stay]
  show ?thesis by simp
qed

section \<open>A run that waits for ever\<close>

text \<open>
  The main loop waits for the output behind the last one; nothing is left to do for the
  slot, and the input thread has at most to publish that it has finished.
\<close>

definition waits :: "demo_lone \<Rightarrow> bool" where
  "waits c \<longleftrightarrow> (\<exists>ops pc tot fin fd. c = lone ops pc [] (\<lambda>_. None) tot fin Getting 1 fd
     \<and> (pc = Check \<or> pc = Poll) \<and> (\<forall>op \<in> set ops. \<forall>j i. op \<noteq> Insert j i))"

lemma waitsI:
  "(pc = Check \<or> pc = Poll) \<Longrightarrow> (\<forall>op \<in> set ops. \<forall>j i. op \<noteq> Insert j i) \<Longrightarrow>
     waits (lone ops pc [] (\<lambda>_. None) tot fin Getting 1 fd)"
  unfolding waits_def by blast

lemma waits_slot:
  assumes "waits c" "pool_step Client_get_job (Client_Outputs_insert fun_map) echo_sh (\<lambda>_. 0) echo_cmd
    (cl_local c, cl_shared c) (ts, s)"
  shows "waits (c\<lparr>cl_local := ts, cl_shared := s\<rparr>)"
proof -
  from assms(1) obtain ops pc tot fin fd where
    c: "c = lone ops pc [] (\<lambda>_. None) tot fin Getting 1 fd" "pc = Check \<or> pc = Poll"
      "\<forall>op \<in> set ops. \<forall>j i. op \<noteq> Insert j i"
    unfolding waits_def by blast
  from assms(2) c(1) obtain pc' where
    e: "slot_event Client_get_job (Client_Outputs_insert fun_map) echo_sh 0 echo_cmd (pc, cl_shared c) (pc', s)"
      "ts = [pc']"
    by (auto simp: pool_step_iff lone_def)
  have "(pc' = Check \<or> pc' = Poll) \<and> s = cl_shared c"
    using e(1) c(1,2) by cases (auto simp: lone_def Client_get_job_def)
  then have "c\<lparr>cl_local := ts, cl_shared := s\<rparr> = lone ops pc' [] (\<lambda>_. None) tot fin Getting 1 fd"
    "pc' = Check \<or> pc' = Poll" using e(2) c(1) by (simp_all add: lone_def)
  with waitsI c(3) show ?thesis by metis
qed

lemma waits_step:
  assumes "lone_step c l c'" "waits c"
  shows "waits c'"
proof -
  from assms(2) obtain ops pc tot fin fd where
    c: "c = lone ops pc [] (\<lambda>_. None) tot fin Getting 1 fd" "pc = Check \<or> pc = Poll"
      "\<forall>op \<in> set ops. \<forall>j i. op \<noteq> Insert j i"
    unfolding waits_def by blast
  from assms(1) show ?thesis
  proof cases
    case (local_slot ts s)
    with waits_slot [OF assms(2)] show ?thesis by simp
  next
    case (remote_slot q rs s)
    moreover have "cl_remote c = []" using c(1) by (simp add: lone_def)
    ultimately show ?thesis using no_remote_step by metis
  next
    case (source_insert j i ops')
    with c show ?thesis by (auto simp: lone_def)
  next
    case (source_total n ops')
    then have "c' = lone ops' pc [] (\<lambda>_. None) n fin Getting 1 fd" "set ops' \<subseteq> set ops"
      using c(1) by (auto simp: lone_def)
    with waitsI c(2,3) show ?thesis by blast
  next
    case (source_finished ops')
    then have "c' = lone ops' pc [] (\<lambda>_. None) tot True Getting 1 fd" "set ops' \<subseteq> set ops"
      using c(1) by (auto simp: lone_def)
    with waitsI c(2,3) show ?thesis by blast
  next
    case (get_nothing outs)
    then have "outs = \<lparr>outputs_map = (\<lambda>_. None)\<rparr>"
      using c(1) by (auto simp: lone_def Client_Outputs_get_def fun_map_def)
    with get_nothing c(1) have "c' = c" by (simp add: lone_def)
    with assms(2) show ?thesis by simp
  next
    case (get_output out outs)
    then show ?thesis using c(1) by (auto simp: lone_def Client_Outputs_get_def fun_map_def)
  qed (use c(1) in \<open>simp_all add: lone_def\<close>)
qed

lemma waits_run: "lone_run c os c' \<Longrightarrow> waits c \<Longrightarrow> waits c'"
  by (induction rule: trace_run.induct) (auto dest: waits_step)

text \<open>
  C32. The client can wait for ever with all its work done: there is a run that has shown the
  output of its only input, from which no continuation shows anything more or leaves the
  wait for an output. The main loop has looked at the end flag before the input thread set
  it, and the wait for the next output looks at it no more.
\<close>

theorem main_loop_can_hang:
  "\<exists>c. client_run fun_map fun_map echo_sh (\<lambda>_. 0) echo_cmd (\<lambda>_ _. False) (\<lambda>_. 0) False
       (client_init fun_map fun_map 1 0 (program_of [lit ''a''])) [echo_out] c
    \<and> (\<nexists>os c'. client_run fun_map fun_map echo_sh (\<lambda>_. 0) echo_cmd (\<lambda>_ _. False) (\<lambda>_. 0) False c os c'
          \<and> cl_main c' \<noteq> Getting)"
proof -
  let ?start = "client_init fun_map fun_map 1 0 (program_of [lit ''a''])"
  let ?c = "lone [StoreTotal 1, StoreFinished] Check [] (\<lambda>_. None) 0 False Getting 1 (as_bytes (lit ''x a''))"
  from shown_first have "lone_run ?start [echo_out]
    (lone [StoreTotal 1, StoreFinished] Check [] (\<lambda>_. None) 0 False LoopTest 1 (as_bytes (lit ''x a'')))"
    by simp
  from lone_quiet [OF this lone_main(1)] have "lone_run ?start [echo_out] ?c" by simp
  moreover have "waits ?c" by (rule waitsI) simp_all
  then have "cl_main c' = Getting" if "lone_run ?c os c'" for os c'
    using waits_run [OF that] by (auto simp: waits_def lone_def)
  ultimately show ?thesis by blast
qed

end
