(* ===== verification/Codec.thy ===== *)
theory Codec
  imports Events
begin

text \<open>
  The line codec of the server, \<^verbatim>\<open>src/server/service/codec.rs\<close>. The receive buffer is a
  \<^verbatim>\<open>BytesMut\<close> of the crate \<^verbatim>\<open>bytes\<close>: the model sees it as the byte list it
  dereferences to, and takes its \<^verbatim>\<open>split_to\<close>, the one operation of the crate that the
  decoder relies on, as an argument with its documented law \<open>split_to_law\<close>. An outer
  \<open>None\<close> is a panic.
\<close>

type_synonym split_to = "byte list \<Rightarrow> nat \<Rightarrow> (byte list \<times> byte list) option"

text \<open>\<^verbatim>\<open>split_to(at)\<close> returns the first \<open>at\<close> bytes and leaves the others.\<close>

definition split_to_law :: "split_to \<Rightarrow> bool" where
  "split_to_law split_to \<longleftrightarrow>
     (\<forall>buf n. n \<le> length buf \<longrightarrow> split_to buf n = Some (take n buf, drop n buf))"

section \<open>The code\<close>

text \<open>
  The \<^verbatim>\<open>match\<close> on the first three bytes of a frame; \<open>None\<close> is a slice that panics.
\<close>

definition dispatch :: "byte list \<Rightarrow> job_event option io_result option" where [eval_defs]:
  "dispatch argument =
     (if length argument < 5 then Some (Inl (Other ''invalid call''))
      else Option.bind (array_to argument 3) (\<lambda>word.
        if word = bytes ''com'' then map_option get_command (array_from argument 4)
        else if word = bytes ''inp'' then Option.bind (array_from argument 4) get_input
        else if word = bytes ''get'' then map_option get_option (array_from argument 4)
        else if word = bytes ''del'' then map_option del_command (array_from argument 4)
        else Some (Inl (Other ''invalid instruction''))))"

text \<open>
  \<^verbatim>\<open>decode\<close>: the result and the buffer it leaves. Each of its four fallible steps may
  panic: the subtraction \<^verbatim>\<open>i - 1\<close>, the two splits and the slices of the match. (Without
  overflow checks the subtraction wraps to an index past the end, and the split panics.)
\<close>

definition decode ::
  "split_to \<Rightarrow> byte list \<Rightarrow> (job_event option io_result \<times> byte list) option" where [eval_defs]:
  "decode split_to buf =
     (case position (\<lambda>b. b = byte_of c_nl) buf of
        Some i \<Rightarrow>
          Option.bind (checked_sub i 1) (\<lambda>at.
          Option.bind (split_to buf at) (\<lambda>(argument, buf).
          Option.bind (split_to buf 2) (\<lambda>(_, buf).
            map_option (\<lambda>result. (result, buf)) (dispatch argument))))
      | None \<Rightarrow> Some (Inr None, buf))"

text \<open>\<^verbatim>\<open>encode\<close> appends the printed response and a newline to the send buffer.\<close>

definition encode :: "response_event \<Rightarrow> byte list \<Rightarrow> byte list option" where [eval_defs]:
  "encode msg buf = map_option (\<lambda>s. buf @ as_bytes s @ bytes [CHR 0x0A]) (fmt_response msg)"

section \<open>Framing\<close>

text \<open>The guard on the length keeps every slice of the match in range.\<close>

lemma dispatch_no_panic: "dispatch argument \<noteq> None"
  using get_input_no_panic by (simp add: dispatch_def array_slices)

lemma decode_at:
  assumes "split_to_law split_to" "position (\<lambda>b. b = byte_of c_nl) buf = Some (Suc k)"
  shows "decode split_to buf
    = map_option (\<lambda>result. (result, drop (Suc (Suc k)) buf)) (dispatch (take k buf))"
proof -
  from assms(2) have "Suc k < length buf" by (auto dest: position_SomeD)
  then have "split_to buf k = Some (take k buf, drop k buf)"
    "split_to (drop k buf) 2 = Some (take 2 (drop k buf), drop 2 (drop k buf))"
    using assms(1) by (auto simp: split_to_law_def)
  with assms(2) show ?thesis by (simp add: decode_def checked_sub_def)
qed

lemma decode_frame:
  assumes "split_to_law split_to" "byte_of c_nl \<notin> set argument" "b \<noteq> byte_of c_nl"
  shows "decode split_to (argument @ b # byte_of c_nl # rest)
    = map_option (\<lambda>result. (result, rest)) (dispatch argument)"
proof -
  have "position (\<lambda>b. b = byte_of c_nl) ((argument @ [b]) @ byte_of c_nl # rest)
      = Some (length (argument @ [b]))"
    using assms(2,3) by (intro position_append_hit) auto
  then have "position (\<lambda>b. b = byte_of c_nl) (argument @ b # byte_of c_nl # rest)
      = Some (Suc (length argument))" by simp
  from decode_at [OF assms(1) this] show ?thesis by simp
qed

lemma decode_incomplete:
  "byte_of c_nl \<notin> set buf \<Longrightarrow> decode split_to buf = Some (Inr None, buf)"
proof -
  assume "byte_of c_nl \<notin> set buf"
  then have "position (\<lambda>b. b = byte_of c_nl) buf = None" by (auto simp: position_None)
  then show ?thesis by (simp add: decode_def)
qed

text \<open>
  The decoder frames by lines: from a buffer whose first line is \<open>argument\<close>, closed by
  one more byte (the carriage return) and a newline, it decodes exactly that line and
  leaves exactly the bytes behind it; without a newline it waits and keeps the buffer.
\<close>

lemma decode_lines:
  assumes "split_to_law split_to"
  shows "decode split_to buf =
    (case position (\<lambda>b. b = byte_of c_nl) buf of
       None \<Rightarrow> Some (Inr None, buf)
     | Some 0 \<Rightarrow> None
     | Some (Suc k) \<Rightarrow> map_option (\<lambda>result. (result, drop (k + 2) buf)) (dispatch (take k buf)))"
  using decode_at [OF assms] by (auto simp: decode_def checked_sub_def split: option.split nat.split)

text \<open>
  Decoding is independent of how the bytes arrive: once a line is complete, bytes that come
  later change neither its event nor what was consumed.
\<close>

lemma decode_more:
  assumes "split_to_law split_to" "decode split_to buf = Some (r, rest)"
    and "byte_of c_nl \<in> set buf"
  shows "decode split_to (buf @ later) = Some (r, rest @ later)"
proof -
  from assms(3) obtain i where i: "position (\<lambda>b. b = byte_of c_nl) buf = Some i"
    by (cases "position (\<lambda>b. b = byte_of c_nl) buf") (auto simp: position_None)
  with assms(2) obtain k where k: "i = Suc k" by (cases i) (auto simp: decode_def checked_sub_def)
  from i k have "Suc k < length buf" by (auto dest: position_SomeD)
  moreover have "position (\<lambda>b. b = byte_of c_nl) (buf @ later) = Some (Suc k)"
    using i k by (simp add: position_append_Some)
  ultimately show ?thesis
    using decode_at [OF assms(1)] i k assms(2) by auto
qed

text \<open>
  \<open>frames\<close> is what the transport makes of a decoder: it decodes until the decoder asks for
  more bytes, and gives the events and the bytes left; an error or a panic ends it.
\<close>

fun frames :: "split_to \<Rightarrow> nat \<Rightarrow> byte list \<Rightarrow> (job_event list \<times> byte list) option" where
  "frames split_to 0 buf = None"
| "frames split_to (Suc n) buf =
     (case decode split_to buf of
        Some (Inr None, rest) \<Rightarrow> Some ([], rest)
      | Some (Inr (Some ev), rest) \<Rightarrow>
          map_option (\<lambda>(evs, rest). (ev # evs, rest)) (frames split_to n rest)
      | _ \<Rightarrow> None)"

section \<open>Instructions\<close>

text \<open>The four kinds of line that a client sends, without the line end.\<close>

fun instruction :: "job_event \<Rightarrow> rstr" where
  "instruction (Command cmd) = lit ''com '' @ cmd"
| "instruction (Input cid jid input) =
     lit ''inp '' @ to_string cid @ lit '' '' @ to_string jid @ lit '' '' @ input"
| "instruction GetCommands = lit ''get comms''"
| "instruction GetCores = lit ''get cores''"
| "instruction (StopJob i) = lit ''del '' @ to_string i"

text \<open>What the protocol can carry: no newline in the text and a command that is not empty.\<close>

fun sendable :: "job_event \<Rightarrow> bool" where
  "sendable (Command cmd) = (valid_str cmd \<and> c_nl \<notin> set cmd \<and> cmd \<noteq> [])"
| "sendable (Input cid jid input) = (valid_str input \<and> c_nl \<notin> set input)"
| "sendable ev = True"

definition line_bytes :: "job_event \<Rightarrow> byte list" where
  "line_bytes ev = as_bytes (instruction ev) @ bytes [CHR 0x0D, CHR 0x0A]"

lemma as_bytes_lit: "(\<forall>c \<in> set s. of_char c < (128 :: nat)) \<Longrightarrow> as_bytes (lit s) = map (\<lambda>c. byte_of (of_char c)) s"
  by (induction s) (auto simp: lit_def encode_char_ascii)

lemma bytes_space [simp]: "as_bytes (lit '' '') = [byte_of c_space]"
  by (simp add: as_bytes_lit)

lemma space_free: "byte_of c_space \<notin> set (as_bytes (to_string w))"
  using ascii_in_as_bytes [of "to_string w" c_space] by (auto dest: to_string_digit)

lemma parse_usize_to_string [simp]: "parse_usize (as_bytes (to_string w)) = Inr w"
  by (simp add: parse_usize_def)

lemma get_input_parts:
  "valid_str s \<Longrightarrow> get_input (as_bytes (to_string cid) @ byte_of c_space
      # as_bytes (to_string jid) @ byte_of c_space # as_bytes s) = Some (Inr (Some (Input cid jid s)))"
  by (simp add: get_input_def obtain_str_def position_first space_free array_slices
      del: length_as_bytes)

lemma bytes_word3:
  "bytes ''com'' = map byte_of [99, 111, 109]" "bytes ''inp'' = map byte_of [105, 110, 112]"
  "bytes ''get'' = map byte_of [103, 101, 116]" "bytes ''del'' = map byte_of [100, 101, 108]"
  by (simp_all add: bytes_def as_bytes_lit)

lemma as_bytes_word4:
  "as_bytes (lit ''com '') = map byte_of [99, 111, 109, 32]"
  "as_bytes (lit ''inp '') = map byte_of [105, 110, 112, 32]"
  "as_bytes (lit ''get comms'') = map byte_of [103, 101, 116, 32, 99, 111, 109, 109, 115]"
  "as_bytes (lit ''get cores'') = map byte_of [103, 101, 116, 32, 99, 111, 114, 101, 115]"
  "as_bytes (lit ''del '') = map byte_of [100, 101, 108, 32]"
  "bytes ''comms'' = map byte_of [99, 111, 109, 109, 115]"
  "bytes ''cores'' = map byte_of [99, 111, 114, 101, 115]"
  by (simp_all add: bytes_def as_bytes_lit)

lemma dispatch_instruction:
  assumes "sendable ev"
  shows "dispatch (as_bytes (instruction ev)) = Some (Inr (Some ev))"
proof (cases ev)
  case (Command cmd)
  with assms have "0 < str_len cmd" by (intro gr0I) simp
  with Command assms show ?thesis
    by (simp add: dispatch_def array_slices bytes_word3 as_bytes_word4 get_command_def obtain_str_def)
next
  case (Input cid jid s)
  with assms show ?thesis
    by (simp add: dispatch_def array_slices bytes_word3 as_bytes_word4 byte_of_eq_iff get_input_parts)
next
  case (StopJob i)
  moreover have "0 < str_len (to_string i)" by (metis gr0I str_len_0_iff(1) to_string_nonempty)
  ultimately show ?thesis
    by (simp add: dispatch_def array_slices bytes_word3 as_bytes_word4 byte_of_eq_iff del_command_def)
qed (simp_all add: dispatch_def array_slices bytes_word3 as_bytes_word4 byte_of_eq_iff get_option_def)

lemma valid_instruction: "sendable ev \<Longrightarrow> valid_str (instruction ev)"
  by (cases ev) auto

lemma instruction_no_nl: "sendable ev \<Longrightarrow> byte_of c_nl \<notin> set (as_bytes (instruction ev))"
  using ascii_in_as_bytes [OF valid_instruction, of ev c_nl]
  by (cases ev) (auto simp: lit_def dest: to_string_digit)

lemma line_end: "bytes [CHR 0x0D, CHR 0x0A] = [byte_of c_cr, byte_of c_nl]"
  by (simp add: bytes_def as_bytes_lit)

lemma decode_line:
  assumes "split_to_law split_to" "sendable ev"
  shows "decode split_to (line_bytes ev @ rest) = Some (Inr (Some ev), rest)"
  using decode_frame [OF assms(1) instruction_no_nl [OF assms(2)], of "byte_of c_cr" rest]
  by (simp add: line_bytes_def line_end dispatch_instruction [OF assms(2)] byte_of_eq_iff)

definition list_split_to :: split_to where [eval_defs]:
  "list_split_to buf n = (if n \<le> length buf then Some (take n buf, drop n buf) else None)"

lemma list_split_to_law [simp]: "split_to_law list_split_to"
  by (simp add: split_to_law_def list_split_to_def)

lemma decode_lines_witness:
  "decode list_split_to (bytes ''hello'') = Some (Inr None, bytes ''hello'')"
  using decode_lines [OF list_split_to_law, of "bytes ''hello''"]
  by (simp add: bytes_def as_bytes_lit byte_of_eq_iff)

lemma frames_lines:
  assumes "split_to_law split_to" "list_all sendable evs" "byte_of c_nl \<notin> set tail"
    and "length evs < n"
  shows "frames split_to n (concat (map line_bytes evs) @ tail) = Some (evs, tail)"
  using assms(2,4)
proof (induction evs arbitrary: n)
  case Nil
  then obtain m where "n = Suc m" by (cases n) auto
  with assms(3) show ?case by (simp add: decode_incomplete)
next
  case (Cons ev evs)
  then obtain m where "n = Suc m" by (cases n) auto
  with Cons show ?case by (simp add: decode_line [OF assms(1)])
qed

text \<open>
  C21. Every instruction a client can send arrives: a stream that holds the lines of the
  events \<open>evs\<close> one after the other, followed by the beginning of a further line, decodes
  to exactly these events in this order, and what is left is that beginning.
\<close>

theorem instructions_arrive:
  assumes "split_to_law split_to" "list_all sendable evs" "byte_of c_nl \<notin> set tail"
    and "length evs < n"
  shows "frames split_to n (concat (map line_bytes evs) @ tail) = Some (evs, tail)"
  by (rule frames_lines [OF assms])

theorem instructions_arrive_witness:
  "frames list_split_to 3
     (concat (map line_bytes [Command (lit ''ls''), Input 0 7 (lit ''a b'')]) @ bytes ''del'')
   = Some ([Command (lit ''ls''), Input 0 7 (lit ''a b'')], bytes ''del'')"
  by (rule instructions_arrive) (simp_all add: lit_def scalar_def bytes_word3 byte_of_eq_iff)

text \<open>
  C22. Decoding does not depend on how the bytes arrive: once the buffer holds a complete
  line, later bytes change neither the result nor what it consumed, and what it consumed
  is exactly the first line.
\<close>

theorem decode_chunks:
  assumes "split_to_law split_to" "decode split_to buf = Some (r, rest)"
    and "byte_of c_nl \<in> set buf"
  shows "decode split_to (buf @ later) = Some (r, rest @ later)
    \<and> (\<exists>line. buf = line @ byte_of c_nl # rest \<and> byte_of c_nl \<notin> set line)"
proof -
  from assms(3) obtain i where i: "position (\<lambda>b. b = byte_of c_nl) buf = Some i"
    by (cases "position (\<lambda>b. b = byte_of c_nl) buf") (auto simp: position_eq_None)
  with assms(2) obtain k where k: "i = Suc k" by (cases i) (auto simp: decode_def checked_sub_def)
  from position_split [OF i] position_SomeD [OF i]
  have "buf = take i buf @ byte_of c_nl # drop (Suc i) buf" "byte_of c_nl \<notin> set (take i buf)"
    by auto
  with decode_at [OF assms(1)] i k assms(2) decode_more [OF assms, of later]
  show ?thesis by auto
qed

theorem decode_chunks_witness:
  "decode list_split_to (line_bytes GetCores @ bytes ''x'') = Some (Inr (Some GetCores), bytes ''x'')"
  using decode_chunks [OF list_split_to_law, of "line_bytes GetCores" "Inr (Some GetCores)" "[]"
      "bytes ''x''"] decode_line [OF list_split_to_law, of GetCores "[]"]
  by (simp add: line_bytes_def line_end)

text \<open>
  C23. The decoder panics on exactly one kind of buffer, one that begins with a newline:
  there is no byte before it that could be the carriage return, and \<^verbatim>\<open>i - 1\<close> overflows.
  Every other buffer is decoded, reported as an error or left for more bytes: neither the
  splits nor the slices of the match and of \<^verbatim>\<open>get_input\<close> go out of range.
\<close>

theorem decode_panics:
  assumes "split_to_law split_to"
  shows "decode split_to buf = None \<longleftrightarrow> (\<exists>rest. buf = byte_of c_nl # rest)"
proof (cases "position (\<lambda>b. b = byte_of c_nl) buf")
  case None
  then have nl: "byte_of c_nl \<notin> set buf" by (simp add: position_eq_None)
  with decode_incomplete [of buf split_to] show ?thesis by auto
next
  case (Some i)
  show ?thesis
  proof (cases i)
    case 0
    with Some show ?thesis by (cases buf) (auto simp: decode_def checked_sub_def split: if_splits)
  next
    case (Suc k)
    with Some have "decode split_to buf \<noteq> None" 
      using decode_at [OF assms, of buf k] dispatch_no_panic [of "take k buf"] by simp
    moreover from Some Suc have "\<nexists>rest. buf = byte_of c_nl # rest" by auto
    ultimately show ?thesis by simp
  qed
qed

theorem decode_panics_witness: "decode list_split_to (byte_of c_nl # bytes ''get cores'') = None"
  using decode_panics [OF list_split_to_law] by blast

text \<open>
  What the protocol cannot carry: an empty command is refused as too short, and a newline
  inside an input ends the line there, with the character before it taken for the carriage
  return.
\<close>

lemma empty_command_refused:
  "decode list_split_to (line_bytes (Command [])) = Some (Inl (Other ''invalid call''), [])"
  using decode_frame [OF list_split_to_law, of "as_bytes (instruction (Command []))" "byte_of c_cr" "[]"]
  by (simp add: line_bytes_def line_end as_bytes_word4 byte_of_eq_iff dispatch_def)

lemma newline_splits_input:
  "decode list_split_to (line_bytes (Input 0 1 (lit [CHR ''a'', CHR ''b'', CHR 0x0A, CHR ''c''])))
     = Some (Inr (Some (Input 0 1 (lit ''a''))), bytes [CHR ''c'', CHR 0x0D, CHR 0x0A])"
proof -
  have "line_bytes (Input 0 1 (lit [CHR ''a'', CHR ''b'', CHR 0x0A, CHR ''c'']))
      = as_bytes (instruction (Input 0 1 (lit ''a''))) @ byte_of 98 # byte_of c_nl
        # bytes [CHR ''c'', CHR 0x0D, CHR 0x0A]"
    by (simp add: line_bytes_def line_end lit_def bytes_def encode_char_ascii)
  moreover have "sendable (Input 0 1 (lit ''a''))" by (simp add: lit_def scalar_def)
  ultimately show ?thesis
    using decode_frame [OF list_split_to_law instruction_no_nl, of "Input 0 1 (lit ''a'')"
        "byte_of 98" "bytes [CHR ''c'', CHR 0x0D, CHR 0x0A]"]
    by (simp only: dispatch_instruction) (simp add: byte_of_eq_iff)
qed

end
