(* ===== verification/Protocol.thy ===== *)
theory Protocol
  imports Remote_Slots Codec
begin

text \<open>
  Client and server together: the instructions that the client's connections and slots
  write are those that the server's codec decodes, and the responses that the codec encodes
  are what the client's slots read, whatever the chunks in which the bytes arrive.
\<close>

section \<open>One session of a connection\<close>

lemma as_bytes_Nil [simp]: "as_bytes s = [] \<longleftrightarrow> s = []" "[] = as_bytes s \<longleftrightarrow> s = []"
  by (cases s; simp)+

lemma parse_answer_number [simp]:
  "parse_answer message (to_string w @ [c_nl]) = Some (Inr w)"
proof -
  have "slice_to (to_string w @ [c_nl]) (str_len (to_string w)) = Some (to_string w)"
    by simp
  then show ?thesis by (simp add: parse_answer_def len_utf8_def)
qed

lemma encode_info: "encode (Info s) buf = Some (buf @ as_bytes s @ [byte_of c_nl])"
  by (simp add: encode_def fmt_response_def bytes_def lit_def encode_char_ascii)

text \<open>A number asked for and answered in one line.\<close>

lemma ask_number_answered:
  assumes "write_answers s = []" "incoming s = map Inr cs @ later"
    and "arrives (as_bytes (to_string w) @ [byte_of c_nl]) cs"
  shows "ask_number message s bs = (Some (Inr w), s\<lparr>sent := sent s @ bs, incoming := later\<rparr>)"
proof -
  from assms(3) have "[] @ concat cs = as_bytes (to_string w) @ byte_of c_nl # []" "[] \<notin> set cs"
    by (simp_all add: arrives_def)
  from read_line_text [OF this, of "[]" later] obtain rest' cs' where
    "read_line [] ([], map Inr cs @ later) = (Inr (), to_string w @ [c_nl], rest', map Inr cs' @ later)"
    "rest' @ concat cs' = []" "[] \<notin> set cs'" by (auto simp: to_string_ascii)
  moreover from this have "cs' = []" by (cases cs') auto
  ultimately show ?thesis
    using assms(1,2) by (simp add: ask_number_def attempt_write_ok)
qed

lemma session_lines:
  "as_bytes (lit ''get cores'' @ [c_cr, c_nl]) = line_bytes GetCores"
  "as_bytes (lit ''com '' @ cmd @ [c_cr, c_nl]) = line_bytes (Command cmd)"
  "as_bytes (lit ''del '' @ to_string i @ [c_cr, c_nl]) = line_bytes (StopJob i)"
  by (simp_all add: line_bytes_def line_end encode_char_ascii)



section \<open>One exchange of a slot\<close>

lemma cache_line: "bytes ''inp '' @ as_bytes (to_string cid) @ [byte_of c_space] @ as_bytes (to_string jid)
    @ [byte_of c_space] @ as_bytes input @ [byte_of c_cr, byte_of c_nl] = line_bytes (Input cid jid input)"
  by (simp add: line_bytes_def line_end bytes_def lit_def encode_char_ascii)

text \<open>The three lines of a response, read through one reader.\<close>

lemma read_three_lines:
  assumes "concat cs = as_bytes l1 @ byte_of c_nl # as_bytes l2 @ byte_of c_nl # as_bytes l3 @ [byte_of c_nl]"
    and "[] \<notin> set cs" "valid_str l1" "valid_str l2" "valid_str l3"
    and "c_nl \<notin> set l1" "c_nl \<notin> set l2" "c_nl \<notin> set l3"
    and "incoming s = map Inr cs @ later"
  shows "read_from \<lparr>rc_instruction = b, rc_status = [], rc_stdout = [], rc_stderr = []\<rparr> s
    = (Inr (), \<lparr>rc_instruction = b, rc_status = l1, rc_stdout = l2, rc_stderr = l3\<rparr>, s\<lparr>incoming := later\<rparr>)"
proof -
  from read_line_text [of "[]" cs l1 _ "[]" later] assms obtain r1 cs1 where 1:
    "read_line [] ([], map Inr cs @ later) = (Inr (), l1 @ [c_nl], r1, map Inr cs1 @ later)"
    "r1 @ concat cs1 = as_bytes l2 @ byte_of c_nl # as_bytes l3 @ [byte_of c_nl]" "[] \<notin> set cs1" by auto
  from read_line_text [OF 1(2,3) assms(4,7), of "[]" later] obtain r2 cs2 where 2:
    "read_line [] (r1, map Inr cs1 @ later) = (Inr (), l2 @ [c_nl], r2, map Inr cs2 @ later)"
    "r2 @ concat cs2 = as_bytes l3 @ [byte_of c_nl]" "[] \<notin> set cs2" by auto
  from read_line_text [OF 2(2,3) assms(5,8), of "[]" later] obtain r3 cs3 where 3:
    "read_line [] (r2, map Inr cs2 @ later) = (Inr (), l3 @ [c_nl], r3, map Inr cs3 @ later)"
    "r3 @ concat cs3 = []" "[] \<notin> set cs3" by auto
  then have "cs3 = []" by (cases cs3) auto
  with 1 2 3 assms(9) show ?thesis by (simp add: read_from_def)
qed

lemma encode_output:
  "encode (Output jid st out err) [] = Some (as_bytes (to_string jid @ c_space # to_string st)
     @ byte_of c_nl # as_bytes (escaped_form out) @ byte_of c_nl # as_bytes (escaped_form err) @ [byte_of c_nl])"
  by (simp add: encode_def fmt_response_def escape_form bytes_def lit_def encode_char_ascii)

text \<open>
  On an open connection, reading the response to an input goes through when it is an output,
  and waits for ever when it is an error: an error is one line, and \<open>read_from\<close> asks for three.
\<close>

lemma output_goes_through:
  assumes "encode (Output jid st out err) [] = Some b" "arrives b cs" "valid_str out" "valid_str err"
    and "incoming s = map Inr cs"
  shows "\<not> read_blocks cache_new s"
proof -
  have sp: "c_nl \<notin> set (to_string jid @ c_space # to_string st)" "scalar c_space"
    by (simp_all add: to_string_ascii scalar_def)
  from assms(1,2) have "concat cs = as_bytes (to_string jid @ c_space # to_string st)
     @ byte_of c_nl # as_bytes (escaped_form out) @ byte_of c_nl # as_bytes (escaped_form err) @ [byte_of c_nl]"
    "[] \<notin> set cs" unfolding encode_output arrives_def by auto
  from read_three_lines [OF this, where s = "s\<lparr>incoming := incoming s @ [Inl (Os 11)]\<rparr>" and b = "[]"
      and later = "[Inl (Os 11)]"] assms(3-5) sp escaped_form_no_nl
  show ?thesis by (simp add: read_blocks_def cache_new_def)
qed

lemma error_blocks:
  assumes "encode (Error i out) [] = Some b" "arrives b cs" "valid_str out" "incoming s = map Inr cs"
  shows "read_blocks cache_new s"
proof -
  let ?l = "lit ''ERR '' @ to_string i @ lit '' '' @ escaped_form out"
  from assms(1) have b: "b = as_bytes ?l @ [byte_of c_nl]"
    by (simp add: encode_def fmt_response_def escape_form bytes_def lit_def encode_char_ascii)
  have l: "valid_str ?l" "c_nl \<notin> set ?l"
    using assms(3) escaped_form_no_nl by (auto simp: to_string_ascii lit_def scalar_def)
  from assms(2) have "[] @ concat cs = as_bytes ?l @ byte_of c_nl # []" "[] \<notin> set cs"
    unfolding b arrives_def by simp_all
  from read_line_text [OF this l, of "[]" "[Inl (Os 11)]"] obtain r1 cs1 where 1:
    "read_line [] ([], map Inr cs @ [Inl (Os 11)]) = (Inr (), ?l @ [c_nl], r1, map Inr cs1 @ [Inl (Os 11)])"
    "r1 @ concat cs1 = []" "[] \<notin> set cs1" by auto
  then have "cs1 = []" by (cases cs1) auto
  with 1 have 2: "read_line [] ([], map Inr cs @ [Inl (Os 11)]) = (Inr (), ?l @ [c_nl], [], [Inl (Os 11)])" by simp
  have "read_line [] ([], [Inl (Os 11)]) = (Inl (Os 11), [], [], [])"
    by (simp add: read_line_def read_until_nl.simps)
  with 2 assms(4) show ?thesis by (simp add: read_blocks_def read_from_def cache_new_def)
qed

lemma write_instruction_ok:
  assumes "write_answers s = []"
  shows "write_instruction cache_new s cid jid input
    = (Inr (), cache_new, s\<lparr>sent := sent s @ line_bytes (Input cid jid input)\<rparr>)"
  unfolding write_instruction_def cache_new_def
  using assms cache_line [of cid jid input] by (simp add: attempt_write_ok)

lemma exchange_response:
  assumes "write_answers s = []" "incoming s = map Inr cs @ later"
    and "encode (Output jid' st out err) [] = Some b" "arrives b cs" "valid_str out" "valid_str err"
  shows "exchange M cid jid input s outs cache_new = Some (Inr (),
      s\<lparr>sent := sent s @ line_bytes (Input cid jid input), incoming := later\<rparr>,
      push_external M outs jid' st (unescaped (escaped_form out)) (unescaped (escaped_form err)), cache_new)"
proof -
  let ?s = "s\<lparr>sent := sent s @ line_bytes (Input cid jid input)\<rparr>"
  note w = write_instruction_ok [OF assms(1), of cid jid input]
  have sp: "c_nl \<notin> set (to_string jid' @ c_space # to_string st)" "scalar c_space"
    by (simp_all add: to_string_ascii scalar_def)
  from assms(3,4) have "concat cs = as_bytes (to_string jid' @ c_space # to_string st)
     @ byte_of c_nl # as_bytes (escaped_form out) @ byte_of c_nl # as_bytes (escaped_form err) @ [byte_of c_nl]"
    "[] \<notin> set cs" unfolding encode_output arrives_def by auto
  from read_three_lines [OF this, where s = ?s and b = "[]" and later = later] assms(2,5,6) sp
    escaped_form_no_nl have r: "read_from cache_new ?s = (Inr (), \<lparr>rc_instruction = [],
      rc_status = to_string jid' @ c_space # to_string st, rc_stdout = escaped_form out,
      rc_stderr = escaped_form err\<rparr>, ?s\<lparr>incoming := later\<rparr>)"
    by (simp add: cache_new_def)
  show ?thesis
    by (simp add: exchange_def w read_results_def r parse_status_line unescape_form cache_clear_def)
      (simp add: cache_new_def)
qed

text \<open>
  C9. An exchange with the server delivers: for an input without a newline, when the server
  answers with an output whose texts have no ambiguous backslash, as it encodes it and in
  whatever chunks, the slot has written exactly the instruction that the server's decoder
  reads as that input, has entered the status and both texts under the job ID, and is left
  with a clean cache and nothing unread.
\<close>

theorem exchange_delivers:
  assumes "split_to_law split_to" "sendable (Input cid jid input)"
    and "write_answers s = []" "sent s = []" "incoming s = map Inr cs"
    and "encode (Output jid st out err) [] = Some b" "arrives b cs" "valid_str out" "valid_str err"
    and "\<not> ambiguous out" "\<not> ambiguous err"
  shows "\<exists>s'. exchange M cid jid input s outs cache_new
      = Some (Inr (), s', push_external M outs jid st out err, cache_new)
    \<and> incoming s' = [] \<and> decode split_to (sent s') = Some (Inr (Some (Input cid jid input)), [])"
proof -
  let ?s = "s\<lparr>sent := line_bytes (Input cid jid input), incoming := []\<rparr>"
  have "unescaped (escaped_form out) = out" "unescaped (escaped_form err) = err"
    using assms(10,11) by (simp_all add: unescaped_escaped)
  with exchange_response [OF assms(3) _ assms(6-9), where later = "[]"] assms(4,5)
  have "exchange M cid jid input s outs cache_new
      = Some (Inr (), ?s, push_external M outs jid st out err, cache_new)" by simp
  with decode_line [OF assms(1,2), of "[]"] show ?thesis
    by (intro exI [of _ ?s]) simp
qed

theorem exchange_delivers_witness:
  "\<exists>s' b. encode (Output 7 0 (lit ''a'' @ [c_nl]) []) [] = Some b
    \<and> exchange fun_map 3 7 (lit ''x'') \<lparr>incoming = [Inr b], write_answers = [], sent = []\<rparr>
        \<lparr>outputs_map = (\<lambda>_. None)\<rparr> cache_new
      = Some (Inr (), s', push_external fun_map \<lparr>outputs_map = (\<lambda>_. None)\<rparr> 7 0 (lit ''a'' @ [c_nl]) [], cache_new)
    \<and> decode list_split_to (sent s') = Some (Inr (Some (Input 3 7 (lit ''x''))), [])"
proof -
  obtain b where b: "encode (Output 7 0 (lit ''a'' @ [c_nl]) []) [] = Some b" "b \<noteq> []"
    by (simp add: encode_output)
  have "sendable (Input 3 7 (lit ''x''))" by (simp add: lit_def scalar_def)
  moreover have "valid_str (lit ''a'' @ [c_nl])" "\<not> ambiguous (lit ''a'' @ [c_nl])"
    by (simp_all add: lit_def scalar_def)
  ultimately show ?thesis
    using exchange_delivers [OF list_split_to_law, of 3 7 "lit ''x''"
        "\<lparr>incoming = [Inr b], write_answers = [], sent = []\<rparr>" "[b]" 0 "lit ''a'' @ [c_nl]" "[]" b fun_map
        "\<lparr>outputs_map = (\<lambda>_. None)\<rparr>"] b arrives_one [OF b(2)]
    by auto
qed

section \<open>The lines of a response\<close>

lemma count_nl_bytes:
  "valid_str s \<Longrightarrow> count_list (as_bytes s) (byte_of c_nl) = count_list s c_nl"
proof (induction s)
  case (Cons c s)
  have "count_list (encode_char c) (byte_of c_nl) = (if c = c_nl then 1 else 0)"
  proof (cases "c < 0x80")
    case True
    then show ?thesis by (simp add: encode_char_ascii byte_of_eq_iff)
  next
    case False
    with Cons.prems have "byte_of c_nl \<notin> set (encode_char c)"
      by (auto dest!: encode_char_high [of c])
    with False show ?thesis by (auto simp: count_notin)
  qed
  with Cons show ?case by simp
qed simp

lemma encode_line_count:
  assumes "case msg of Error i out \<Rightarrow> valid_str out | Output jid st out err \<Rightarrow> valid_str out \<and> valid_str err
     | Info info \<Rightarrow> valid_str info"
  shows "map_option (\<lambda>bs. count_list bs (byte_of c_nl)) (encode msg []) =
    Some (case msg of Error i out \<Rightarrow> 1 | Output jid st out err \<Rightarrow> 3 | Info info \<Rightarrow> count_list info c_nl + 1)"
proof -
  have e: "count_list (escaped_form s) c_nl = 0" for s
    using escaped_form_no_nl by (simp add: count_notin)
  have n: "count_list (to_string w) c_nl = 0" for w :: "'a::len word"
    by (simp add: count_notin to_string_ascii)
  show ?thesis
  proof (cases msg)
    case (Error i out)
    with assms show ?thesis
      by (simp add: encode_def fmt_response_def escape_form bytes_def count_nl_bytes e n)
        (simp add: lit_def byte_of_eq_iff)
  next
    case (Output jid st out err)
    with assms show ?thesis
      by (simp add: encode_output count_nl_bytes e n) (simp add: encode_char_ascii byte_of_eq_iff)
  next
    case (Info info)
    with assms show ?thesis by (simp add: encode_info count_nl_bytes)
  qed
qed

text \<open>
  C39. The number of lines of a response depends on its kind: the outputs of a job are three
  lines, as the client's slots expect of every response, but an error is one line, and an
  information has one line more than its text has newlines.
\<close>

theorem response_line_count:
  assumes "case msg of Error i out \<Rightarrow> valid_str out | Output jid st out err \<Rightarrow> valid_str out \<and> valid_str err
     | Info info \<Rightarrow> valid_str info"
  shows "map_option (\<lambda>bs. count_list bs (byte_of c_nl)) (encode msg []) =
    Some (case msg of Error i out \<Rightarrow> 1 | Output jid st out err \<Rightarrow> 3 | Info info \<Rightarrow> count_list info c_nl + 1)"
  using assms by (rule encode_line_count)

theorem response_line_count_witness:
  "map_option (\<lambda>bs. count_list bs (byte_of c_nl)) (encode (Error 0 (lit ''no such command'')) []) = Some 1"
  using response_line_count [of "Error 0 (lit ''no such command'')"] by simp

section \<open>A newline in an input\<close>

text \<open>
  C34. An input is not checked for newlines: when it contains the end of a line, what the
  slot writes is read by the server as two instructions, the first with the input up to
  there, the second being whatever the rest of the input spells, such as the deletion of
  a command of another client.
\<close>

theorem newline_injects:
  assumes "split_to_law split_to" "sendable (Input cid jid a)" "sendable ev"
    and "write_answers s = []" "sent s = []"
    and "write_instruction cache_new s cid jid (a @ [c_cr, c_nl] @ instruction ev) = (r, cache, s')"
  shows "r = Inr () \<and> frames split_to 3 (sent s') = Some ([Input cid jid a, ev], [])"
proof -
  have "line_bytes (Input cid jid (a @ [c_cr, c_nl] @ instruction ev)) = line_bytes (Input cid jid a) @ line_bytes ev"
    by (simp add: line_bytes_def bytes_def lit_def)
  then have "r = Inr () \<and> sent s' = line_bytes (Input cid jid a) @ line_bytes ev"
    using assms(5,6) write_instruction_ok [OF assms(4)] by auto
  with frames_lines [OF assms(1), of "[Input cid jid a, ev]" "[]" 3] assms(2,3) show ?thesis by simp
qed

theorem newline_injects_witness:
  "\<exists>r cache s'. write_instruction cache_new \<lparr>incoming = [], write_answers = [], sent = []\<rparr> 3 7
       (lit ''a'' @ [c_cr, c_nl] @ lit ''get cores'') = (r, cache, s')
    \<and> frames list_split_to 3 (sent s') = Some ([Input 3 7 (lit ''a''), GetCores], [])"
proof -
  let ?s = "\<lparr>incoming = [], write_answers = [], sent = []\<rparr>"
  obtain r cache s' where w: "write_instruction cache_new ?s 3 7 (lit ''a'' @ [c_cr, c_nl] @ instruction GetCores) = (r, cache, s')"
    by (metis prod_cases3)
  from newline_injects [OF list_split_to_law _ _ _ _ this] w show ?thesis by (auto simp: lit_def scalar_def)
qed

end
