(* ===== verification/Server_Queues.thy ===== *)
theory Server_Queues
  imports Codec Crates
begin

text \<open>
  The two queues of the server, \<^verbatim>\<open>src/server/service/inputs.rs\<close> and \<^verbatim>\<open>outputs.rs\<close>.
  They wrap a \<^verbatim>\<open>coco::Stack\<close> and a \<^verbatim>\<open>chashmap::CHashMap\<close>, the parameters of the theory
  \<open>Crates\<close>; the lemmas are proved from the contracts of the crates.
\<close>

section \<open>The code\<close>

record 's Inputs =
  stack :: 's

definition Inputs_get_job :: "'s stack_ops \<Rightarrow> 's Inputs \<Rightarrow> (usize \<times> rstr) option \<times> 's Inputs" where
  "Inputs_get_job S self = (let (j, s) = s_pop S (stack self) in (j, self\<lparr>stack := s\<rparr>))"

definition Inputs_insert_job :: "'s stack_ops \<Rightarrow> 's Inputs \<Rightarrow> usize \<Rightarrow> rstr \<Rightarrow> 's Inputs" where
  "Inputs_insert_job S self i job = self\<lparr>stack := s_push S (stack self) (i, job)\<rparr>"

record 'm Outputs =
  out_map :: 'm

text \<open>
  One turn of the loop of \<^verbatim>\<open>Outputs::remove\<close>: \<open>None\<close> when there is no element yet and
  the loop sleeps and tries again, the element otherwise.
\<close>

definition Outputs_remove ::
  "('m, outcome) map_ops \<Rightarrow> 'm Outputs \<Rightarrow> usize \<Rightarrow> outcome option \<times> 'm Outputs" where
  "Outputs_remove M self i =
     (let (e, m) = m_remove M (out_map self) i in (e, self\<lparr>out_map := m\<rparr>))"

definition Outputs_insert ::
  "('m, outcome) map_ops \<Rightarrow> 'm Outputs \<Rightarrow> usize \<Rightarrow> outcome \<Rightarrow> 'm Outputs" where
  "Outputs_insert M self i result = self\<lparr>out_map := m_insert M (out_map self) i result\<rparr>"

section \<open>The traits, from the contracts of the crates\<close>

context coco_stack
begin

definition stack_jobs :: "'s Inputs \<Rightarrow> (usize \<times> rstr) multiset" where
  "stack_jobs q = mset (items (stack q))"

sublocale inp: insert_job "Inputs_get_job S" "Inputs_insert_job S" stack_jobs
proof
  fix q :: "'s Inputs" and i s
  show "stack_jobs (Inputs_insert_job S q i s) = add_mset (i, s) (stack_jobs q)"
    by (simp add: stack_jobs_def Inputs_insert_job_def items_push)
next
  fix q q'
  assume "Inputs_get_job S q = (None, q')"
  then obtain s where s: "s_pop S (stack q) = (None, s)" "q' = q\<lparr>stack := s\<rparr>"
    by (auto simp: Inputs_get_job_def split: prod.splits)
  then show "stack_jobs q = {#} \<and> stack_jobs q' = {#}"
    using pop_nil [OF _ s(1)] pop_cons [OF _ s(1)]
    by (cases "items (stack q)") (auto simp: stack_jobs_def)
next
  fix q j q'
  assume "Inputs_get_job S q = (Some j, q')"
  then obtain s where s: "s_pop S (stack q) = (Some j, s)" "q' = q\<lparr>stack := s\<rparr>"
    by (auto simp: Inputs_get_job_def split: prod.splits)
  then show "stack_jobs q = add_mset j (stack_jobs q')"
    using pop_nil [OF _ s(1)] pop_cons [OF _ s(1)]
    by (cases "items (stack q)") (auto simp: stack_jobs_def)
qed

text \<open>The newest job comes out first.\<close>

lemma get_newest: "Inputs_get_job S (Inputs_insert_job S q i s) = (r, q') \<Longrightarrow>
    r = Some (i, s) \<and> items (stack q') = items (stack q)"
  using pop_cons [OF items_push]
  by (fastforce simp: Inputs_get_job_def Inputs_insert_job_def split: prod.splits)

end

locale server_queues = coco_stack S items + chashmap M lookup
  for S :: "'s stack_ops" and items and M :: "('m, outcome) map_ops" and lookup
begin

definition results :: "'m Outputs \<Rightarrow> usize \<Rightarrow> outcome option" where
  "results m = lookup (out_map m)"

lemma results_insert: "results (Outputs_insert M m i r) = (results m)(i \<mapsto> r)"
  by (simp add: results_def Outputs_insert_def lookup_insert)

lemma Outputs_remove_results:
  "Outputs_remove M m i = (e, m') \<Longrightarrow> e = results m i \<and> results m' = (results m)(i := None)"
  by (auto simp: Outputs_remove_def results_def dest!: remove split: prod.splits)

sublocale slot_pool "Inputs_get_job S" "Inputs_insert_job S" stack_jobs
  "Outputs_insert M" results "\<lambda>r. r"
  by unfold_locales (rule results_insert)

end

section \<open>The contracts on concrete containers\<close>

interpretation list_queue: server_queues list_stack "\<lambda>q. q" fun_map "\<lambda>m. m"
  by unfold_locales (auto simp: list_stack_def fun_map_def split: list.splits)

end
