(* ===== verification/Service.thy ===== *)
theory Service
  imports Server_Queues
begin

text \<open>
  The job server, \<^verbatim>\<open>src/server/service/mod.rs\<close>: the handler of each request over the
  pool of commands, and the step relation of the whole server, in which connection
  handlers and slot threads interleave. The pool stands behind a \<^verbatim>\<open>RwLock\<close>; an input
  holds it for reading until its result has come, a stop holds it for writing until the
  slots have parked.
\<close>

section \<open>Units\<close>

text \<open>
  A command in the pool: its \<^verbatim>\<open>Job\<close>, and the threads spawned for it. \<^verbatim>\<open>num_cpus::get()\<close>
  is the parameter \<open>ncores\<close>.
\<close>

record ('q, 'o) job_unit = "('q, 'o) job" +
  threads :: "slot_pc list"

type_synonym ('s, 'm) sunit = "('s Inputs, 'm Outputs) job_unit"

definition new_unit ::
  "'s stack_ops \<Rightarrow> ('m, outcome) map_ops \<Rightarrow> usize \<Rightarrow> Tokens \<Rightarrow> ('s, 'm) sunit" where [eval_defs]:
  "new_unit S M ncores cmd =
     \<lparr>inputs = \<lparr>stack = s_new S\<rparr>, outputs = \<lparr>out_map = m_new M\<rparr>, kill = False, parked = 0,
      slots = ncores, command = cmd, threads = replicate (unat ncores) Check\<rparr>"

text \<open>
  The loop that stores a new command in the first free position and counts the position
  in \<open>i\<close>, the ID of the command; past the end it is pushed.
\<close>

fun store :: "'u \<Rightarrow> nat \<Rightarrow> 'u option list \<Rightarrow> 'u option list \<times> nat" where
  "store u i [] = ([Some u], i)"
| "store u i (None # cs) = (Some u # cs, i)"
| "store u i (Some v # cs) = (let (cs', k) = store u (i + 1) cs in (Some v # cs', k))"

text \<open>\<^verbatim>\<open>JobEvent::Command\<close>; \<open>None\<close> would be a panic in the tokenizer.\<close>

definition call_command ::
  "'s stack_ops \<Rightarrow> ('m, outcome) map_ops \<Rightarrow> usize \<Rightarrow> rstr \<Rightarrow> ('s, 'm) sunit option list
   \<Rightarrow> (('s, 'm) sunit option list \<times> response_event) option" where [eval_defs]:
  "call_command S M ncores cmd commands =
     map_option (\<lambda>toks. let (cs, i) = store (new_unit S M ncores toks) 0 commands
                         in (cs, Info (digits i)))
       (Tokens_new cmd)"

text \<open>\<^verbatim>\<open>JobEvent::GetCommands\<close>: the loop to the first live command, then the \<^verbatim>\<open>for\<close>.\<close>

fun list_rest :: "nat \<Rightarrow> ('q, 'o, 'z) job_scheme option list \<Rightarrow> rstr \<Rightarrow> rstr" where
  "list_rest i [] out = out"
| "list_rest i (None # cs) out = list_rest (i + 1) cs out"
| "list_rest i (Some u # cs) out =
     list_rest (i + 1) cs
       (out @ [c_nl] @ digits i @ lit '': '' @ Tokens_fmt (command u))"

fun list_commands :: "nat \<Rightarrow> ('q, 'o, 'z) job_scheme option list \<Rightarrow> rstr" where
  "list_commands i [] = lit ''no jobs available''"
| "list_commands i (None # cs) = list_commands (i + 1) cs"
| "list_commands i (Some u # cs) =
     list_rest (i + 1) cs (digits i @ lit '': '' @ Tokens_fmt (command u))"

text \<open>
  \<^verbatim>\<open>commands.get(cid)\<close> matched against \<^verbatim>\<open>Some(&Some(ref unit))\<close>: \<open>None\<close> for a
  position out of range or empty.
\<close>

definition get_unit :: "'u option list \<Rightarrow> usize \<Rightarrow> 'u option" where [eval_defs]:
  "get_unit commands cid = (if unat cid < length commands then commands ! unat cid else None)"

definition set_unit :: "'u option list \<Rightarrow> usize \<Rightarrow> 'u option \<Rightarrow> 'u option list" where [eval_defs]:
  "set_unit commands cid v = commands[unat cid := v]"

text \<open>
  \<^verbatim>\<open>JobEvent::Input\<close>: handing the input to the unit, one attempt to take its result out,
  and the response made from the result. \<^verbatim>\<open>read_to_string\<close> leaves the buffer empty when
  the output is not UTF-8, and its error is discarded.
\<close>

definition call_input :: "'s stack_ops \<Rightarrow> usize \<Rightarrow> rstr \<Rightarrow> ('s, 'm) sunit \<Rightarrow> ('s, 'm) sunit" where
  [eval_defs]: "call_input S jid input u = u\<lparr>inputs := Inputs_insert_job S (inputs u) jid input\<rparr>"

definition take_result ::
  "('m, outcome) map_ops \<Rightarrow> usize \<Rightarrow> ('s, 'm) sunit \<Rightarrow> (outcome \<times> ('s, 'm) sunit) option" where
  [eval_defs]: "take_result M jid u =
     (let (e, m) = Outputs_remove M (outputs u) jid
      in map_option (\<lambda>r. (r, u\<lparr>outputs := m\<rparr>)) e)"

definition file_text :: "file_t \<Rightarrow> rstr" where [eval_defs]:
  "file_text f = (case from_utf8 f of Some s \<Rightarrow> s | None \<Rightarrow> [])"

fun input_reply :: "usize \<Rightarrow> rstr \<Rightarrow> outcome \<Rightarrow> response_event" where
  "input_reply jid input (Some (status, stdout, stderr)) =
     Output jid status (file_text stdout) (file_text stderr)"
| "input_reply jid input None = Error jid input"

text \<open>\<^verbatim>\<open>JobEvent::StopJob\<close>: raising the kill flag, and the condition of the waiting loop.\<close>

definition signal_kill :: "('q, 'o, 'z) job_scheme \<Rightarrow> ('q, 'o, 'z) job_scheme" where [eval_defs]:
  "signal_kill u = u\<lparr>kill := True\<rparr>"

definition all_parked :: "('q, 'o, 'z) job_scheme \<Rightarrow> bool" where [eval_defs]:
  "all_parked u \<longleftrightarrow> parked u = slots u"

section \<open>The server\<close>

text \<open>
  A handler that has not answered yet: waiting for the result of an input, with its read
  guard, or for the slots of a stopped command, with the write guard. Handlers are
  numbered; the lock is the number of read guards and whether the write guard is out.
\<close>

datatype handler = Waiting usize usize rstr | Stopping usize

record ('s, 'm) server =
  commands :: "('s, 'm) sunit option list"
  readers :: nat
  writer :: bool
  handlers :: "nat \<rightharpoonup> handler"

definition server_init :: "('s, 'm) server" where [eval_defs]:
  "server_init = \<lparr>commands = [], readers = 0, writer = False, handlers = (\<lambda>_. None)\<rparr>"

text \<open>
  What a step shows: a request that starts to wait, a response to a request, or work of
  a slot.
\<close>

datatype action = Begin nat job_event | Reply nat job_event response_event | Work

inductive serve ::
  "'s stack_ops \<Rightarrow> ('m, outcome) map_ops \<Rightarrow> (rstr \<Rightarrow> spawned \<Rightarrow> bool) \<Rightarrow> usize
   \<Rightarrow> ('s, 'm) server \<Rightarrow> action \<Rightarrow> ('s, 'm) server \<Rightarrow> bool"
  for S M sh ncores where
  serve_command:
    "handlers s c = None \<Longrightarrow> \<not> writer s \<Longrightarrow> readers s = 0
     \<Longrightarrow> call_command S M ncores cmd (commands s) = Some (cs, r)
     \<Longrightarrow> serve S M sh ncores s (Reply c (Command cmd) r) (s\<lparr>commands := cs\<rparr>)"
| serve_cores:
    "handlers s c = None
     \<Longrightarrow> serve S M sh ncores s (Reply c GetCores (Info (to_string ncores))) s"
| serve_commands:
    "handlers s c = None \<Longrightarrow> \<not> writer s
     \<Longrightarrow> serve S M sh ncores s (Reply c GetCommands (Info (list_commands 0 (commands s)))) s"
| serve_input:
    "handlers s c = None \<Longrightarrow> \<not> writer s \<Longrightarrow> get_unit (commands s) cid = Some u
     \<Longrightarrow> serve S M sh ncores s (Begin c (Input cid jid input))
       (s\<lparr>commands := set_unit (commands s) cid (Some (call_input S jid input u)),
          readers := readers s + 1, handlers := (handlers s)(c \<mapsto> Waiting cid jid input)\<rparr>)"
| serve_input_unknown:
    "handlers s c = None \<Longrightarrow> \<not> writer s \<Longrightarrow> get_unit (commands s) cid = None
     \<Longrightarrow> serve S M sh ncores s (Reply c (Input cid jid input) (Error jid input)) s"
| serve_result:
    "handlers s c = Some (Waiting cid jid input) \<Longrightarrow> get_unit (commands s) cid = Some u
     \<Longrightarrow> take_result M jid u = Some (r, u')
     \<Longrightarrow> serve S M sh ncores s (Reply c (Input cid jid input) (input_reply jid input r))
       (s\<lparr>commands := set_unit (commands s) cid (Some u'),
          readers := readers s - 1, handlers := (handlers s)(c := None)\<rparr>)"
| serve_stop:
    "handlers s c = None \<Longrightarrow> \<not> writer s \<Longrightarrow> readers s = 0 \<Longrightarrow> get_unit (commands s) cid = Some u
     \<Longrightarrow> serve S M sh ncores s (Begin c (StopJob cid))
       (s\<lparr>commands := set_unit (commands s) cid (Some (signal_kill u)),
          writer := True, handlers := (handlers s)(c \<mapsto> Stopping cid)\<rparr>)"
| serve_stop_unknown:
    "handlers s c = None \<Longrightarrow> \<not> writer s \<Longrightarrow> readers s = 0 \<Longrightarrow> get_unit (commands s) cid = None
     \<Longrightarrow> serve S M sh ncores s (Reply c (StopJob cid) (Info (lit ''deleted job'')))
       (s\<lparr>commands := set_unit (commands s) cid None\<rparr>)"
| serve_stopped:
    "handlers s c = Some (Stopping cid) \<Longrightarrow> get_unit (commands s) cid = Some u \<Longrightarrow> all_parked u
     \<Longrightarrow> serve S M sh ncores s (Reply c (StopJob cid) (Info (lit ''deleted job'')))
       (s\<lparr>commands := set_unit (commands s) cid None,
          writer := False, handlers := (handlers s)(c := None)\<rparr>)"
| serve_slot:
    "get_unit (commands s) cid = Some u
     \<Longrightarrow> pool_step (Inputs_get_job S) (Outputs_insert M) sh of_nat (command u)
         (threads u, u) (ts, u')
     \<Longrightarrow> serve S M sh ncores s Work
       (s\<lparr>commands := set_unit (commands s) cid (Some (u'\<lparr>threads := ts\<rparr>))\<rparr>)"

section \<open>The pool of commands as a table\<close>

text \<open>The abstract view of the pool: a partial function from IDs to commands.\<close>

definition table :: "'u option list \<Rightarrow> nat \<Rightarrow> 'u option" where
  "table cs i = (if i < length cs then cs ! i else None)"

lemma get_unit_table: "get_unit cs cid = table cs (unat cid)"
  by (simp add: get_unit_def table_def)

lemma table_Nil [simp]: "table [] i = None"
  by (simp add: table_def)

lemma table_Cons: "table (x # cs) i = (case i of 0 \<Rightarrow> x | Suc k \<Rightarrow> table cs k)"
  by (auto simp: table_def split: nat.split)

lemma table_set_unit:
  "table cs (unat cid) \<noteq> None \<or> v = None \<Longrightarrow>
     table (set_unit cs cid v) = (table cs)(unat cid := v)"
  by (auto simp: table_def set_unit_def fun_eq_iff nth_list_update split: if_splits)

lemma store_table:
  "store u i cs = (cs', k) \<Longrightarrow> \<exists>j. k = i + j \<and> table cs' = (table cs)(j \<mapsto> u) \<and> table cs j = None
     \<and> (\<forall>l < j. table cs l \<noteq> None) \<and> length cs' = max (length cs) (Suc j)"
proof (induction u i cs arbitrary: cs' k rule: store.induct)
  case (1 u i)
  then show ?case by (auto simp: table_def fun_eq_iff)
next
  case (2 u i cs)
  then show ?case by (auto simp: table_def fun_eq_iff nth_Cons split: nat.splits)
next
  case (3 u i v cs)
  obtain cs1 k1 where st: "store u (i + 1) cs = (cs1, k1)" by (cases "store u (i + 1) cs")
  from "3.IH" [OF this] obtain j where j: "k1 = i + 1 + j" "table cs1 = (table cs)(j \<mapsto> u)"
    "table cs j = None" "\<forall>l < j. table cs l \<noteq> None" "length cs1 = max (length cs) (Suc j)"
    by blast
  from "3.prems" st have r: "cs' = Some v # cs1" "k = k1" by auto
  have "\<forall>l < Suc j. table (Some v # cs) l \<noteq> None"
    using j(4) by (auto simp: table_Cons split: nat.split)
  moreover have "table cs' = (table (Some v # cs))(Suc j \<mapsto> u)"
    using j(2) r by (auto simp: fun_eq_iff table_Cons split: nat.split)
  ultimately show ?case using j r by (intro exI [of _ "Suc j"]) (auto simp: table_Cons)
qed

lemma call_command_table:
  assumes "call_command S M n cmd cs = Some (cs', r)"
  shows "\<exists>toks k. Tokens_new cmd = Some toks \<and> r = Info (digits k)
    \<and> table cs' = (table cs)(k \<mapsto> new_unit S M n toks)
    \<and> table cs k = None \<and> (\<forall>l < k. table cs l \<noteq> None)"
proof -
  obtain toks where t: "Tokens_new cmd = Some toks" using Tokens_new_auto by blast
  obtain cs1 k where st: "store (new_unit S M n toks) 0 cs = (cs1, k)" by fastforce
  with assms t have "cs' = cs1" "r = Info (digits k)" by (auto simp: call_command_def)
  with store_table [OF st] t show ?thesis by auto
qed

lemma call_command_stored:
  "\<exists>cs' toks k. Tokens_new cmd = Some toks
     \<and> call_command S M n cmd cs = Some (cs', Info (digits k))
     \<and> table cs k = None \<and> {..<k} \<subseteq> dom (table cs)
     \<and> table cs' = (table cs)(k \<mapsto> new_unit S M n toks)"
proof -
  obtain toks where t: "Tokens_new cmd = Some toks" using Tokens_new_auto by blast
  obtain cs' k where st: "store (new_unit S M n toks) 0 cs = (cs', k)" by fastforce
  with t have "call_command S M n cmd cs = Some (cs', Info (digits k))"
    by (simp add: call_command_def)
  with store_table [OF st] t show ?thesis by auto
qed

text \<open>
  A command request always succeeds: the tokenizer does not panic, the command gets the
  least free ID, which is the one that the response tells, and no other command changes.
\<close>

theorem command_stored:
  "\<exists>cs' toks k. Tokens_new cmd = Some toks
     \<and> call_command S M n cmd cs = Some (cs', Info (digits k))
     \<and> table cs k = None \<and> {..<k} \<subseteq> dom (table cs)
     \<and> table cs' = (table cs)(k \<mapsto> new_unit S M n toks)"
  by (rule call_command_stored)

section \<open>Listing\<close>

text \<open>The live commands with their IDs, in order, and lines joined by newlines.\<close>

fun live_from :: "nat \<Rightarrow> 'u option list \<Rightarrow> (nat \<times> 'u) list" where
  "live_from i [] = []"
| "live_from i (None # cs) = live_from (i + 1) cs"
| "live_from i (Some u # cs) = (i, u) # live_from (i + 1) cs"

fun join_lines :: "rstr list \<Rightarrow> rstr" where
  "join_lines [] = []"
| "join_lines [l] = l"
| "join_lines (l # ls) = l @ [c_nl] @ join_lines ls"

definition command_line :: "nat \<times> ('q, 'o, 'z) job_scheme \<Rightarrow> rstr" where
  "command_line x = digits (fst x) @ lit '': '' @ Tokens_fmt (command (snd x))"

lemma table_shift:
  "(\<exists>j. k = i + j \<and> table (x # cs) j = Some u)
     \<longleftrightarrow> k = i \<and> x = Some u \<or> (\<exists>j. k = i + 1 + j \<and> table cs j = Some u)" (is "?L \<longleftrightarrow> ?R")
proof
  assume ?L
  then obtain j where "k = i + j" "table (x # cs) j = Some u" by blast
  then show ?R by (cases j) (simp_all add: table_Cons)
next
  assume ?R
  then show ?L
  proof
    assume "k = i \<and> x = Some u"
    then show ?L by (intro exI [of _ 0]) (simp add: table_Cons)
  next
    assume "\<exists>j. k = i + 1 + j \<and> table cs j = Some u"
    then obtain j where "k = i + 1 + j" "table cs j = Some u" by blast
    then show ?L by (intro exI [of _ "Suc j"]) (simp add: table_Cons)
  qed
qed

lemma live_from_table: "(k, u) \<in> set (live_from i cs) \<longleftrightarrow> (\<exists>j. k = i + j \<and> table cs j = Some u)"
  by (induction i cs rule: live_from.induct) (simp_all only: table_shift, auto)

lemma list_rest_lines:
  "list_rest i cs (join_lines (l # ls)) = join_lines (l # ls @ map command_line (live_from i cs))"
proof (induction i cs "join_lines (l # ls)" arbitrary: l ls rule: list_rest.induct)
  case (3 i u cs)
  have join: "join_lines (l # ls) @ [c_nl] @ m = join_lines (l # ls @ [m])" for m
    by (induction ls arbitrary: l) auto
  show ?case
    using "3.hyps" [of l "ls @ [command_line (i, u)]"] join [of "command_line (i, u)"]
    by (simp add: command_line_def)
qed simp_all

text \<open>
  C38. The answer to \<^verbatim>\<open>get comms\<close> has one line per live command, in the order of the
  IDs, with the ID and the command, and the fixed text when there is none.
\<close>

theorem commands_listed:
  "list_commands 0 cs = (if \<forall>i. table cs i = None then lit ''no jobs available''
     else join_lines (map command_line (live_from 0 cs)))
   \<and> set (live_from 0 cs) = {(i, u). table cs i = Some u}"
proof -
  have "list_commands i cs = (if live_from i cs = [] then lit ''no jobs available''
      else join_lines (map command_line (live_from i cs)))" for i
  proof (induction i cs rule: list_commands.induct)
    case (3 i u cs)
    show ?case using list_rest_lines [of "i + 1" cs "command_line (i, u)" "[]"]
      by (simp add: command_line_def)
  qed simp_all
  moreover have "set (live_from 0 cs) = {(i, u). table cs i = Some u}"
    by (auto simp: live_from_table)
  moreover have "live_from 0 cs = [] \<longleftrightarrow> (\<forall>i. table cs i = None)"
    using live_from_table [of _ _ 0 cs] by (cases "live_from 0 cs") (fastforce, fastforce)
  ultimately show ?thesis by simp
qed

end
