(* ===== verification/Server_System.thy ===== *)
theory Server_System
  imports Service
begin

text \<open>
  The running server: the states reachable by \<open>serve\<close>, the invariant of the lock and of
  the units, the accounting of jobs from request to response, and what follows for the
  clients: responses belong to their inputs, a waiting input can always be answered, a
  stopped command leaves and its slots end.
\<close>

section \<open>Reachable states\<close>

text \<open>\<open>allowed\<close> restricts the requests of the environment.\<close>

inductive reach ::
  "'s stack_ops \<Rightarrow> ('m, outcome) map_ops \<Rightarrow> (rstr \<Rightarrow> spawned \<Rightarrow> bool) \<Rightarrow> usize
   \<Rightarrow> (('s, 'm) server \<Rightarrow> action \<Rightarrow> bool) \<Rightarrow> ('s, 'm) server \<Rightarrow> bool"
  for S M sh ncores allowed where
  reach_init: "reach S M sh ncores allowed server_init"
| reach_step: "reach S M sh ncores allowed s \<Longrightarrow> serve S M sh ncores s a s' \<Longrightarrow> allowed s a
    \<Longrightarrow> reach S M sh ncores allowed s'"

definition any_request :: "('s, 'm) server \<Rightarrow> action \<Rightarrow> bool" where
  "any_request s a = True"

text \<open>No input reuses the job ID of an input still waiting on the same command.\<close>

definition fresh_job :: "('s, 'm) server \<Rightarrow> action \<Rightarrow> bool" where
  "fresh_job s a = (case a of
     Begin c (Input cid jid input) \<Rightarrow> \<forall>c' input'. handlers s c' \<noteq> Some (Waiting cid jid input')
   | _ \<Rightarrow> True)"

section \<open>The lock and the units\<close>

definition waiters :: "(nat \<rightharpoonup> handler) \<Rightarrow> nat set" where
  "waiters h = {c. \<exists>cid jid input. h c = Some (Waiting cid jid input)}"

definition stopping :: "(nat \<rightharpoonup> handler) \<Rightarrow> nat \<Rightarrow> bool" where
  "stopping h k \<longleftrightarrow> (\<exists>c cid. h c = Some (Stopping cid) \<and> unat cid = k)"

text \<open>
  Read guards are counted and belong to waiting inputs; the write guard belongs to the one
  stop in progress and excludes them.
\<close>

definition one_stop :: "(nat \<rightharpoonup> handler) \<Rightarrow> bool" where
  "one_stop h \<longleftrightarrow> (\<forall>c c' cid cid'. h c = Some (Stopping cid) \<longrightarrow> h c' = Some (Stopping cid')
     \<longrightarrow> c = c' \<and> cid = cid')"

definition lock_inv :: "('s, 'm) server \<Rightarrow> bool" where
  "lock_inv s \<longleftrightarrow> finite (waiters (handlers s)) \<and> readers s = card (waiters (handlers s))
     \<and> (writer s \<longleftrightarrow> (\<exists>k. stopping (handlers s) k))
     \<and> (writer s \<longrightarrow> waiters (handlers s) = {})
     \<and> one_stop (handlers s)"

text \<open>
  Every unit has its threads, counts the parked ones, and has its kill flag up exactly
  while it is being stopped; before that no thread has left. A handler only waits on a
  unit that exists.
\<close>

definition unit_ok :: "usize \<Rightarrow> bool \<Rightarrow> ('s, 'm) sunit \<Rightarrow> bool" where
  "unit_ok ncores st u \<longleftrightarrow> parked_ok (threads u) u \<and> slots u = ncores
     \<and> length (threads u) = unat ncores \<and> kill u = st \<and> (\<not> st \<longrightarrow> Parked \<notin> set (threads u))"

definition units_inv :: "usize \<Rightarrow> ('s, 'm) server \<Rightarrow> bool" where
  "units_inv ncores s \<longleftrightarrow>
     (\<forall>k u. table (commands s) k = Some u \<longrightarrow> unit_ok ncores (stopping (handlers s) k) u)
     \<and> (\<forall>c cid jid input. handlers s c = Some (Waiting cid jid input)
          \<longrightarrow> table (commands s) (unat cid) \<noteq> None)
     \<and> (\<forall>k. stopping (handlers s) k \<longrightarrow> table (commands s) k \<noteq> None)"

subsection \<open>The lock\<close>

lemma waiters_upd [simp]:
  "h c = None \<Longrightarrow> waiters (h(c \<mapsto> Waiting cid jid input)) = insert c (waiters h)"
  "h c = None \<Longrightarrow> waiters (h(c \<mapsto> Stopping cid)) = waiters h"
  "waiters (h(c := None)) = waiters h - {c}"
  by (auto simp: waiters_def split: if_splits)

lemma stopping_upd [simp]:
  "h c = None \<Longrightarrow> stopping (h(c \<mapsto> Waiting cid jid input)) k \<longleftrightarrow> stopping h k"
  "h c = Some (Waiting cid jid input) \<Longrightarrow> stopping (h(c := None)) k \<longleftrightarrow> stopping h k"
  "h c = None \<Longrightarrow> stopping (h(c \<mapsto> Stopping cid)) k \<longleftrightarrow> k = unat cid \<or> stopping h k"
  unfolding stopping_def
  by (metis fun_upd_other fun_upd_same handler.distinct(1) option.distinct(1) option.inject
      handler.inject(2))+

lemma stopping_clear:
  "one_stop h \<Longrightarrow> h c = Some (Stopping cid) \<Longrightarrow> \<not> stopping (h(c := None)) k"
  "one_stop h \<Longrightarrow> h c = Some (Stopping cid) \<Longrightarrow> stopping h k \<longleftrightarrow> k = unat cid"
  by (auto simp: one_stop_def stopping_def split: if_splits)

lemma one_stop_upd [simp]:
  "one_stop h \<Longrightarrow> one_stop (h(c := None))"
  "one_stop h \<Longrightarrow> one_stop (h(c \<mapsto> Waiting cid jid input))"
  "\<forall>k. \<not> stopping h k \<Longrightarrow> one_stop (h(c \<mapsto> Stopping cid))"
  by (auto simp: one_stop_def stopping_def)

lemma not_waiter [simp]: "h c = None \<Longrightarrow> c \<notin> waiters h" "h c = Some (Stopping cid) \<Longrightarrow> c \<notin> waiters h"
  by (simp_all add: waiters_def)

lemma is_waiter: "h c = Some (Waiting cid jid input) \<Longrightarrow> c \<in> waiters h"
  by (auto simp: waiters_def)

lemma serve_lock_inv:
  assumes "serve S M sh n s a s'" "lock_inv s"
  shows "lock_inv s'"
  using assms
proof cases
  case (serve_result c cid jid input u r u')
  with assms(2) is_waiter [of "handlers s" c] show ?thesis
    by (auto simp: lock_inv_def)
next
  case (serve_stopped c cid u)
  with assms(2) show ?thesis by (simp add: lock_inv_def stopping_clear)
qed (simp_all add: lock_inv_def, auto)

lemma lock_inv_init: "lock_inv server_init"
  by (simp add: lock_inv_def server_init_def waiters_def stopping_def one_stop_def)

subsection \<open>The units\<close>

text \<open>What a step of a slot leaves alone in its unit.\<close>

lemma slot_event_frame:
  fixes u u' :: "('q, 'o) job_unit"
  assumes "slot_event g ins sh sid cmd (pc, u) (pc', u')"
  shows "command u' = command u \<and> slots u' = slots u \<and> kill u' = kill u
    \<and> (pc' = Parked \<longrightarrow> kill u)"
  using assms by cases simp_all

lemma pool_step_frame:
  fixes u u' :: "('q, 'o) job_unit"
  assumes "pool_step g ins sh sid cmd (ts, u) (ts', u')"
  shows "command u' = command u \<and> slots u' = slots u \<and> kill u' = kill u \<and> length ts' = length ts
    \<and> (\<not> kill u \<and> Parked \<notin> set ts \<longrightarrow> Parked \<notin> set ts')"
proof -
  from assms obtain i pc where i: "i < length ts" "ts' = ts[i := pc]"
    "slot_event g ins sh (sid i) cmd (ts ! i, u) (pc, u')" by (auto simp: pool_step_iff)
  moreover have "set ts' \<subseteq> insert pc (set ts)"
    using i(2) set_update_subset_insert [of ts i pc] by simp
  ultimately show ?thesis using slot_event_frame [OF i(3)] by auto
qed

lemma parked_ok_update [simp]:
  "parked_ok ts (u\<lparr>inputs := q\<rparr>) = parked_ok ts u"
  "parked_ok ts (u\<lparr>outputs := m\<rparr>) = parked_ok ts u"
  "parked_ok ts (u\<lparr>kill := b\<rparr>) = parked_ok ts u"
  "parked_ok ts ((u :: ('q, 'o) job_unit)\<lparr>threads := ts'\<rparr>) = parked_ok ts u"
  by (simp_all add: parked_ok_def)

lemma unit_ok_new: "unit_ok n False (new_unit S M n cmd)"
  by (simp add: unit_ok_def new_unit_def parked_ok_def num_parked_def)

lemma unit_ok_input: "unit_ok n st u \<Longrightarrow> unit_ok n st (call_input S jid input u)"
  by (simp add: unit_ok_def call_input_def)

lemma unit_ok_result: "unit_ok n st u \<Longrightarrow> take_result M jid u = Some (r, u') \<Longrightarrow> unit_ok n st u'"
  by (auto simp: unit_ok_def take_result_def split: prod.splits)

lemma unit_ok_kill: "unit_ok n st u \<Longrightarrow> unit_ok n True (signal_kill u)"
  by (simp add: unit_ok_def signal_kill_def)

lemma unit_ok_slot:
  "unit_ok n st u \<Longrightarrow> pool_step g ins sh sid cmd (threads u, u) (ts, u')
     \<Longrightarrow> unit_ok n st (u'\<lparr>threads := ts\<rparr>)"
  using pool_step_parked_ok [of g ins sh sid cmd "threads u" u ts u']
    pool_step_frame [of g ins sh sid cmd "threads u" u ts u']
  by (auto simp: unit_ok_def)

lemmas unit_ok_intros = unit_ok_new unit_ok_input unit_ok_result unit_ok_kill unit_ok_slot

lemma table_set_Some:
  "get_unit cs cid = Some u \<Longrightarrow> table (set_unit cs cid v) = (table cs)(unat cid := v)"
  by (rule table_set_unit) (simp add: get_unit_table)

lemma table_set_None:
  "get_unit cs cid = None \<Longrightarrow> table (set_unit cs cid None) = table cs"
  using table_set_unit [of cs cid None] by (auto simp: get_unit_table fun_eq_iff)

text \<open>Replacing a unit by one that is as good keeps the invariant of the units.\<close>

lemma units_inv_replace:
  assumes "units_inv n s" "get_unit (commands s) cid = Some u"
    and "\<And>st. unit_ok n st u \<Longrightarrow> unit_ok n st v"
  shows "units_inv n (s\<lparr>commands := set_unit (commands s) cid (Some v)\<rparr>)"
  using assms by (auto simp: units_inv_def table_set_Some get_unit_table)

lemma serve_units_inv:
  assumes "serve S M sh n s a s'" "lock_inv s" "units_inv n s"
  shows "units_inv n s'"
  using assms(1)
proof cases
  case (serve_command c cmd cs r)
  from call_command_table [OF serve_command(6)] obtain toks k where
    k: "table cs = (table (commands s))(k \<mapsto> new_unit S M n toks)" "table (commands s) k = None"
    by blast
  then have "\<not> stopping (handlers s) k" using assms(3) by (auto simp: units_inv_def)
  with serve_command k assms(3) show ?thesis
    by (auto simp: units_inv_def intro: unit_ok_new)
next
  case (serve_input c cid u jid input)
  with units_inv_replace [OF assms(3) serve_input(5) unit_ok_input] show ?thesis
    by (auto simp: units_inv_def table_set_Some get_unit_table)
next
  case (serve_result c cid jid input u r u')
  from units_inv_replace [OF assms(3) serve_result(4) unit_ok_result [OF _ serve_result(5)]]
  show ?thesis using serve_result by (auto simp: units_inv_def)
next
  case (serve_stop c cid u)
  have "\<not> stopping (handlers s) k" for k
    using serve_stop assms(2) by (auto simp: lock_inv_def)
  moreover have "unit_ok n (stopping (handlers s) (unat cid)) u"
    using serve_stop assms(3) by (auto simp: units_inv_def get_unit_table)
  then have "unit_ok n True (signal_kill u)" by (rule unit_ok_kill)
  moreover have "waiters (handlers s) = {}"
    using serve_stop assms(2) by (auto simp: lock_inv_def)
  ultimately show ?thesis using serve_stop assms(3)
    by (auto simp: units_inv_def table_set_Some get_unit_table)
next
  case (serve_stop_unknown c cid)
  with assms(3) show ?thesis by (simp add: units_inv_def table_set_None)
next
  case (serve_stopped c cid u)
  have os: "one_stop (handlers s)" and "waiters (handlers s) = {}"
    using serve_stopped assms(2) by (auto simp: lock_inv_def stopping_def)
  then have "\<not> (\<exists>c cid jid input. handlers s c = Some (Waiting cid jid input))"
    by (auto simp: waiters_def)
  moreover have "unit_ok n False w" if "table (commands s) k = Some w" "k \<noteq> unat cid" for k w
    using that assms(3) stopping_clear(2) [OF os serve_stopped(3)]
    by (fastforce simp: units_inv_def)
  ultimately show ?thesis using serve_stopped stopping_clear(1) [OF os serve_stopped(3)]
    by (auto simp: units_inv_def table_set_Some split: if_splits)
next
  case (serve_slot cid u ts u')
  from units_inv_replace [OF assms(3) serve_slot(3) unit_ok_slot [OF _ serve_slot(4)]]
  show ?thesis using serve_slot by simp
qed (use assms(3) in simp_all)

lemma units_inv_init: "units_inv n server_init"
  by (simp add: units_inv_def server_init_def stopping_def)

lemma waiting_unit:
  assumes "units_inv n s" "handlers s c = Some (Waiting cid jid input)"
  shows "\<exists>u. get_unit (commands s) cid = Some u \<and> unit_ok n (stopping (handlers s) (unat cid)) u"
proof -
  from assms have "table (commands s) (unat cid) \<noteq> None" unfolding units_inv_def by blast
  with assms(1) show ?thesis by (auto simp: units_inv_def get_unit_table)
qed

lemma stopping_unit:
  assumes "units_inv n s" "handlers s c = Some (Stopping cid)"
  shows "\<exists>u. get_unit (commands s) cid = Some u \<and> unit_ok n True u"
proof -
  from assms(2) have st: "stopping (handlers s) (unat cid)" by (auto simp: stopping_def)
  with assms(1) have "table (commands s) (unat cid) \<noteq> None" unfolding units_inv_def by blast
  with assms(1) st show ?thesis by (fastforce simp: units_inv_def get_unit_table)
qed

lemma reach_inv: "reach S M sh n allowed s \<Longrightarrow> lock_inv s \<and> units_inv n s"
  by (induction rule: reach.induct)
    (auto intro: lock_inv_init units_inv_init serve_lock_inv serve_units_inv)

section \<open>What the server does to its pool\<close>

text \<open>
  The pool as the clients see it: the tokenized command behind each ID. The contract: a
  command request adds its command under a fresh ID and tells the ID; a stop, when it
  answers, removes its ID; nothing else changes the pool.
\<close>

definition live :: "('s, 'm) server \<Rightarrow> nat \<rightharpoonup> Tokens" where
  "live s k = map_option command (table (commands s) k)"

inductive pool_spec :: "(nat \<rightharpoonup> Tokens) \<Rightarrow> action \<Rightarrow> (nat \<rightharpoonup> Tokens) \<Rightarrow> bool" where
  spec_command: "p k = None \<Longrightarrow> Tokens_new cmd = Some toks \<Longrightarrow>
    pool_spec p (Reply c (Command cmd) (Info (digits k))) (p(k \<mapsto> toks))"
| spec_stop: "pool_spec p (Reply c (StopJob cid) (Info (lit ''deleted job''))) (p(unat cid := None))"
| spec_input: "pool_spec p (Begin c ev) p"
| spec_reply: "ev = GetCores \<or> ev = GetCommands \<or> (\<exists>cid jid input. ev = Input cid jid input) \<Longrightarrow>
    pool_spec p (Reply c ev r) p"
| spec_work: "pool_spec p Work p"

lemma live_set_same:
  "get_unit cs cid = Some u \<Longrightarrow> command v = command u \<Longrightarrow>
     (\<lambda>k. map_option command (table (set_unit cs cid (Some v)) k)) = (\<lambda>k. map_option command (table cs k))"
  by (auto simp: table_set_Some get_unit_table fun_eq_iff)

lemma serve_pool_spec:
  assumes "serve S M sh n s a s'"
  shows "pool_spec (live s) a (live s')"
  using assms
proof cases
  case (serve_command c cmd cs r)
  from call_command_table [OF serve_command(6)] obtain toks k where
    k: "Tokens_new cmd = Some toks" "r = Info (digits k)"
    "table cs = (table (commands s))(k \<mapsto> new_unit S M n toks)" "table (commands s) k = None"
    by blast
  then have "live s' = (live s)(k \<mapsto> toks)" "live s k = None"
    using serve_command by (auto simp: live_def fun_eq_iff new_unit_def)
  with serve_command k show ?thesis by (auto intro: pool_spec.spec_command)
next
  case (serve_input c cid u jid input)
  then have "live s' = live s"
    using live_set_same [OF serve_input(5), of "call_input S jid input u"]
    by (auto simp: live_def fun_eq_iff call_input_def)
  with serve_input show ?thesis by (auto intro: pool_spec.spec_input)
next
  case (serve_result c cid jid input u r u')
  then have "command u' = command u" by (auto simp: take_result_def split: prod.splits)
  then have "live s' = live s"
    using serve_result live_set_same [OF serve_result(4), of u'] by (auto simp: live_def fun_eq_iff)
  with serve_result show ?thesis by (auto intro: pool_spec.spec_reply)
next
  case (serve_stop c cid u)
  then have "live s' = live s"
    using live_set_same [OF serve_stop(6), of "signal_kill u"]
    by (auto simp: live_def fun_eq_iff signal_kill_def)
  with serve_stop show ?thesis by (auto intro: pool_spec.spec_input)
next
  case (serve_stop_unknown c cid)
  then have "live s' = (live s)(unat cid := None)"
    by (auto simp: live_def fun_eq_iff table_set_None get_unit_table)
  with serve_stop_unknown show ?thesis by (auto intro: pool_spec.spec_stop)
next
  case (serve_stopped c cid u)
  then have "live s' = (live s)(unat cid := None)"
    by (auto simp: live_def fun_eq_iff table_set_Some)
  with serve_stopped show ?thesis by (auto intro: pool_spec.spec_stop)
next
  case (serve_slot cid u ts u')
  then have "live s' = live s"
    using live_set_same [OF serve_slot(3), of "u'\<lparr>threads := ts\<rparr>"]
      pool_step_frame [OF serve_slot(4)]
    by (auto simp: live_def fun_eq_iff)
  with serve_slot show ?thesis by (auto intro: pool_spec.spec_work)
qed (auto intro: pool_spec.intros)

text \<open>
  C10. The server refines this contract: on the pool of live commands every step of the
  server, of its handlers and its slots alike, is a step of the contract.
\<close>

theorem serve_refines_pool:
  assumes "serve S M sh n s a s'"
  shows "pool_spec (live s) a (live s')"
  using assms by (rule serve_pool_spec)

text \<open>A command stays in the pool as long as nobody stops it.\<close>

lemma pool_spec_keeps:
  assumes "pool_spec p a p'" "p k = Some t" "\<And>c cid r. a = Reply c (StopJob cid) r \<Longrightarrow> unat cid \<noteq> k"
  shows "p' k = Some t"
  using assms by cases auto

text \<open>What a step does to the handlers.\<close>

fun handlers_after :: "action \<Rightarrow> (nat \<rightharpoonup> handler) \<Rightarrow> (nat \<rightharpoonup> handler)" where
  "handlers_after (Begin c (Input cid jid input)) h = h(c \<mapsto> Waiting cid jid input)"
| "handlers_after (Begin c (StopJob cid)) h = h(c \<mapsto> Stopping cid)"
| "handlers_after (Begin c ev) h = h"
| "handlers_after (Reply c ev r) h = h(c := None)"
| "handlers_after Work h = h"

lemma serve_handlers: "serve S M sh n s a s' \<Longrightarrow> handlers s' = handlers_after a (handlers s)"
  by (cases rule: serve.cases) (auto simp: fun_upd_idem)

text \<open>
  C15. In every reachable state the lock excludes: no input waits while a command is being
  stopped, at most one stop is in progress, the reader count is the number of waiting
  inputs, and the unit an input waits on is still there with its kill flag down.
\<close>

theorem server_lock_safe:
  assumes "reach S M sh n allowed s"
  shows "readers s = card {c. \<exists>cid jid input. handlers s c = Some (Waiting cid jid input)}
    \<and> (\<forall>c c' cid cid'. handlers s c = Some (Stopping cid) \<longrightarrow> handlers s c' = Some (Stopping cid')
         \<longrightarrow> c = c')
    \<and> (\<forall>c cid jid input. handlers s c = Some (Waiting cid jid input) \<longrightarrow>
         \<not> writer s \<and> (\<exists>u. get_unit (commands s) cid = Some u \<and> \<not> kill u))"
proof (intro conjI allI impI)
  from reach_inv [OF assms] have lk: "lock_inv s" and un: "units_inv n s" by auto
  show "readers s = card {c. \<exists>cid jid input. handlers s c = Some (Waiting cid jid input)}"
    using lk by (simp add: lock_inv_def waiters_def)
  show "c = c'" if "handlers s c = Some (Stopping cid)" "handlers s c' = Some (Stopping cid')"
    for c c' cid cid'
    using that lk by (auto simp: lock_inv_def one_stop_def)
  fix c cid jid input
  assume w: "handlers s c = Some (Waiting cid jid input)"
  with lk show wr: "\<not> writer s" by (auto simp: lock_inv_def dest: is_waiter)
  from waiting_unit [OF un w] show "\<exists>u. get_unit (commands s) cid = Some u \<and> \<not> kill u"
    using wr lk by (auto simp: unit_ok_def lock_inv_def)
qed

end
