(* ===== verification/Server_Accounting.thy ===== *)
theory Server_Accounting
  imports Server_System
begin

text \<open>
  The way of an input through the server: from the request into the stack, to a slot, into
  the result table and back to the handler that waits for it. As long as no two waiting
  inputs of a command share a job ID, every waiting input is in exactly one of these
  places, its result is the outcome of its own command line, and it can be answered.
\<close>

section \<open>Accounting for one command\<close>

text \<open>A result that the slots could have produced for an input.\<close>

definition genuine ::
  "(rstr \<Rightarrow> spawned \<Rightarrow> bool) \<Rightarrow> usize set \<Rightarrow> Tokens \<Rightarrow> usize \<Rightarrow> rstr \<Rightarrow> outcome \<Rightarrow> bool" where
  "genuine sh sids cmd jid input r \<longleftrightarrow>
     (\<exists>sid \<in> sids. \<exists>q. sh (render cmd sid jid input) q \<and> r = collect q)"

text \<open>
  \<open>W\<close> are the waiting inputs, \<open>H\<close> the jobs in the stack or at a slot, \<open>R\<close> the results.
\<close>

definition acct ::
  "(rstr \<Rightarrow> spawned \<Rightarrow> bool) \<Rightarrow> usize set \<Rightarrow> Tokens \<Rightarrow> (usize \<times> rstr) set
   \<Rightarrow> (usize \<times> rstr) multiset \<times> (usize \<rightharpoonup> outcome) \<Rightarrow> bool" where
  "acct sh sids cmd W b \<longleftrightarrow> inj_on fst W \<and> set_mset (fst b) \<subseteq> W \<and> (\<forall>j. count (fst b) j \<le> 1)
     \<and> (\<forall>jid r. snd b jid = Some r \<longrightarrow>
          (\<exists>input. (jid, input) \<in> W - set_mset (fst b) \<and> genuine sh sids cmd jid input r))
     \<and> (\<forall>(jid, input) \<in> W. (jid, input) \<in># fst b \<or> snd b jid \<noteq> None)"

lemma acct_empty: "acct sh sids cmd {} ({#}, \<lambda>_. None)"
  by (simp add: acct_def)

lemma acctI:
  assumes "inj_on fst W" "set_mset H \<subseteq> W" "\<And>j. count H j \<le> 1"
    and "\<And>jid r. R jid = Some r \<Longrightarrow>
      \<exists>input. (jid, input) \<in> W \<and> (jid, input) \<notin># H \<and> genuine sh sids cmd jid input r"
    and "\<And>jid input. (jid, input) \<in> W \<Longrightarrow> (jid, input) \<in># H \<or> R jid \<noteq> None"
  shows "acct sh sids cmd W (H, R)"
  using assms unfolding acct_def fst_conv snd_conv by blast

lemma acctD:
  assumes "acct sh sids cmd W (H, R)"
  shows "inj_on fst W" "set_mset H \<subseteq> W" "count H j \<le> 1"
    "R jid = Some r \<Longrightarrow>
      \<exists>input. (jid, input) \<in> W \<and> (jid, input) \<notin># H \<and> genuine sh sids cmd jid input r"
    "(jid, input) \<in> W \<Longrightarrow> (jid, input) \<in># H \<or> R jid \<noteq> None"
  using assms unfolding acct_def fst_conv snd_conv by blast+

lemma acct_insert:
  assumes "acct sh sids cmd W (H, R)" "\<forall>input'. (jid, input') \<notin> W"
  shows "acct sh sids cmd (insert (jid, input) W) (add_mset (jid, input) H, R)"
proof (rule acctI)
  note D = acctD [OF assms(1)]
  from assms(2) D(2) have "(jid, input) \<notin># H" by blast
  with D(3) show "count (add_mset (jid, input) H) j \<le> 1" for j
    by (auto simp: count_eq_zero_iff)
  show "inj_on fst (insert (jid, input) W)" using D(1) assms(2) by (auto simp: inj_on_def)
  show "set_mset (add_mset (jid, input) H) \<subseteq> insert (jid, input) W" using D(2) by auto
  show "\<exists>i. (k, i) \<in> insert (jid, input) W \<and> (k, i) \<notin># add_mset (jid, input) H
      \<and> genuine sh sids cmd k i r" if "R k = Some r" for k r
    using D(4) [OF that] assms(2) by auto
  show "(k, i) \<in># add_mset (jid, input) H \<or> R k \<noteq> None" if "(k, i) \<in> insert (jid, input) W" for k i
    using that D(5) [of k i] by auto
qed

lemma acct_bag_step:
  assumes "acct sh sids cmd W b" "bag_step (\<lambda>r. r) sh sids cmd b b'"
  shows "acct sh sids cmd W b'"
  using assms(2)
proof cases
  case (work sid jid input r H R)
  from assms(1) work(1) have a: "acct sh sids cmd W (add_mset (jid, input) H, R)" by simp
  note D = acctD [OF a]
  have nj: "(jid, input) \<notin># H"
    using D(3) [of "(jid, input)"] by (simp add: count_eq_zero_iff)
  have j: "(jid, input) \<in> W" "set_mset H \<subseteq> W" using D(2) by auto
  have "acct sh sids cmd W (H, R(jid \<mapsto> collect r))"
  proof (rule acctI)
    show "count H j \<le> 1" for j using D(3) [of j] by (auto split: if_splits)
    show "\<exists>i. (k, i) \<in> W \<and> (k, i) \<notin># H \<and> genuine sh sids cmd k i q"
      if "(R(jid \<mapsto> collect r)) k = Some q" for k q
    proof (cases "k = jid")
      case True
      with that work j nj show ?thesis by (auto simp: genuine_def)
    next
      case False
      with that D(4) [of k q] show ?thesis by auto
    qed
    show "(k, i) \<in># H \<or> (R(jid \<mapsto> collect r)) k \<noteq> None" if "(k, i) \<in> W" for k i
      using that D(5) [of k i] by auto
  qed (use D(1) j in auto)
  with work show ?thesis by simp
qed

lemma acct_remove:
  assumes "acct sh sids cmd W (H, R)" "R jid = Some r" "(jid, input) \<in> W"
  shows "acct sh sids cmd (W - {(jid, input)}) (H, R(jid := None))"
    and "genuine sh sids cmd jid input r"
proof -
  note D = acctD [OF assms(1)]
  have same: "i = input" if "(jid, i) \<in> W" for i
    using that assms(3) inj_onD [OF D(1), of "(jid, i)" "(jid, input)"] by simp
  from D(4) [OF assms(2)] same have g: "(jid, input) \<notin># H" "genuine sh sids cmd jid input r"
    by auto
  then show "genuine sh sids cmd jid input r" by simp
  show "acct sh sids cmd (W - {(jid, input)}) (H, R(jid := None))"
  proof (rule acctI)
    show "inj_on fst (W - {(jid, input)})" using D(1) by (rule inj_on_subset) auto
    show "set_mset H \<subseteq> W - {(jid, input)}" using D(2) g by auto
    show "\<exists>i. (k, i) \<in> W - {(jid, input)} \<and> (k, i) \<notin># H \<and> genuine sh sids cmd k i q"
      if "(R(jid := None)) k = Some q" for k q
      using that D(4) [of k q] by (auto split: if_splits)
    show "(k, i) \<in># H \<or> (R(jid := None)) k \<noteq> None" if "(k, i) \<in> W - {(jid, input)}" for k i
      using that D(5) [of k i] same [of i] by (auto split: if_splits)
  qed (rule D(3))
qed

section \<open>Accounting for the server\<close>

definition waiting_on :: "(nat \<rightharpoonup> handler) \<Rightarrow> usize \<Rightarrow> (usize \<times> rstr) set" where
  "waiting_on h cid = {(jid, input). \<exists>c. h c = Some (Waiting cid jid input)}"

definition one_waiter :: "(nat \<rightharpoonup> handler) \<Rightarrow> bool" where
  "one_waiter h \<longleftrightarrow> (\<forall>c c' cid jid input input'. h c = Some (Waiting cid jid input) \<longrightarrow>
     h c' = Some (Waiting cid jid input') \<longrightarrow> c = c')"

lemma waiting_on_iff: "(jid, input) \<in> waiting_on h cid \<longleftrightarrow> (\<exists>c. h c = Some (Waiting cid jid input))"
  by (simp add: waiting_on_def)

lemma waiting_on_upd [simp]:
  "h c = None \<Longrightarrow> waiting_on (h(c \<mapsto> Stopping k)) cid = waiting_on h cid"
  "h c = Some (Stopping k) \<Longrightarrow> waiting_on (h(c := None)) cid = waiting_on h cid"
  unfolding waiting_on_def ex_map_upd by (simp_all add: ex_map_other)

lemma waiting_on_add:
  assumes "h c = None"
  shows "waiting_on (h(c \<mapsto> Waiting k jid input)) cid
     = (if cid = k then insert (jid, input) (waiting_on h cid) else waiting_on h cid)"
proof -
  have "(j, i) \<in> waiting_on (h(c \<mapsto> Waiting k jid input)) cid
      \<longleftrightarrow> k = cid \<and> jid = j \<and> input = i \<or> (j, i) \<in> waiting_on h cid" for j i
    unfolding waiting_on_iff ex_map_upd using assms by (simp add: ex_map_other)
  then show ?thesis by auto
qed

lemma waiting_on_remove:
  assumes "one_waiter h" "h c = Some (Waiting k jid input)"
  shows "waiting_on (h(c := None)) cid
     = (if cid = k then waiting_on h cid - {(jid, input)} else waiting_on h cid)"
proof -
  have "(j, i) \<in> waiting_on (h(c := None)) cid
      \<longleftrightarrow> (j, i) \<in> waiting_on h cid \<and> \<not> (cid = k \<and> j = jid \<and> i = input)" for j i
  proof (cases "cid = k \<and> j = jid \<and> i = input")
    case True
    with assms have "\<not> (\<exists>x. x \<noteq> c \<and> h x = Some (Waiting cid j i))"
      by (auto simp: one_waiter_def)
    with True show ?thesis unfolding waiting_on_iff ex_map_upd by simp
  next
    case False
    with assms(2) have "h c \<noteq> Some (Waiting cid j i)" by auto
    with False show ?thesis unfolding waiting_on_iff ex_map_upd by (simp add: ex_map_other)
  qed
  then show ?thesis by auto
qed

lemma one_waiter_upd [simp]:
  "one_waiter h \<Longrightarrow> one_waiter (h(c := None))"
  "one_waiter h \<Longrightarrow> one_waiter (h(c \<mapsto> Stopping k))"
  "one_waiter h \<Longrightarrow> \<forall>c' input'. h c' \<noteq> Some (Waiting cid jid input') \<Longrightarrow>
     one_waiter (h(c \<mapsto> Waiting cid jid input))"
  by (auto simp: one_waiter_def)

lemma get_set_unit:
  "get_unit cs cid = Some u \<Longrightarrow> get_unit (set_unit cs cid v) cid' = (if cid' = cid then v else get_unit cs cid')"
  by (auto simp: get_unit_table table_set_Some word_unat_eq_iff)

lemma get_set_none:
  "get_unit cs cid = None \<Longrightarrow> get_unit (set_unit cs cid None) cid' = get_unit cs cid'"
  by (simp add: get_unit_table table_set_None)

context server_queues
begin

definition acct_inv :: "(rstr \<Rightarrow> spawned \<Rightarrow> bool) \<Rightarrow> usize \<Rightarrow> ('s, 'm) server \<Rightarrow> bool" where
  "acct_inv sh n s \<longleftrightarrow> one_waiter (handlers s) \<and>
     (\<forall>cid u. get_unit (commands s) cid = Some u \<longrightarrow>
        acct sh (of_nat ` {..<unat n}) (command u) (waiting_on (handlers s) cid)
          (pool_abs (threads u, u)))"

lemma acct_inv_init: "acct_inv sh n server_init"
  by (simp add: acct_inv_def server_init_def one_waiter_def get_unit_def)

lemma pool_abs_new: "pool_abs (threads (new_unit S M n cmd), new_unit S M n cmd) = ({#}, \<lambda>_. None)"
proof -
  have "running (replicate k Check) = {#}" for k by (induction k) (simp_all add: running_def)
  then show ?thesis
    by (simp add: pool_abs_def new_unit_def stack_jobs_def items_new results_def fun_eq_iff lookup_new)
qed

lemma pool_abs_input:
  "pool_abs (threads u, call_input S jid input u)
     = (add_mset (jid, input) (fst (pool_abs (threads u, u))), snd (pool_abs (threads u, u)))"
  by (simp add: pool_abs_def call_input_def inp.jobs_insert)

lemma pool_abs_result:
  assumes "take_result M jid u = Some (r, u')"
  shows "snd (pool_abs (threads u, u)) jid = Some r \<and> threads u' = threads u \<and> command u' = command u
    \<and> pool_abs (threads u', u')
        = (fst (pool_abs (threads u, u)), (snd (pool_abs (threads u, u)))(jid := None))"
proof -
  obtain e m where em: "Outputs_remove M (outputs u) jid = (e, m)" by fastforce
  with assms have "e = Some r" "u' = u\<lparr>outputs := m\<rparr>" by (auto simp: take_result_def)
  with Outputs_remove_results [OF em] show ?thesis by (simp add: pool_abs_def)
qed

lemma take_result_ready:
  assumes "snd (pool_abs (threads u, u)) jid = Some r"
  shows "\<exists>u'. take_result M jid u = Some (r, u')"
proof -
  obtain e m where em: "Outputs_remove M (outputs u) jid = (e, m)" by fastforce
  with Outputs_remove_results [OF em] assms show ?thesis by (simp add: take_result_def pool_abs_def)
qed

lemma acct_inv_replace:
  assumes "acct_inv sh n s" "get_unit (commands s) cid = Some u"
    and "\<And>W. acct sh (of_nat ` {..<unat n}) (command u) W (pool_abs (threads u, u)) \<Longrightarrow>
      acct sh (of_nat ` {..<unat n}) (command v) W (pool_abs (threads v, v))"
  shows "acct_inv sh n (s\<lparr>commands := set_unit (commands s) cid (Some v)\<rparr>)"
  using assms by (auto simp: acct_inv_def get_set_unit)

lemma serve_acct_inv:
  assumes "serve S M sh n s a s'" "fresh_job s a" "units_inv n s" "acct_inv sh n s"
  shows "acct_inv sh n s'"
  using assms(1)
proof cases
  case (serve_command c cmd cs r)
  from call_command_table [OF serve_command(6)] obtain toks k where
    k: "table cs = (table (commands s))(k \<mapsto> new_unit S M n toks)" "table (commands s) k = None"
    by blast
  have "waiting_on (handlers s) cid = {}" if "unat cid = k" for cid
    using k(2) that assms(3) by (fastforce simp: waiting_on_def units_inv_def)
  with serve_command k assms(4) acct_empty show ?thesis
    by (auto simp: acct_inv_def get_unit_table pool_abs_new)
next
  case (serve_input c cid u jid input)
  have fr: "\<forall>c' input'. handlers s c' \<noteq> Some (Waiting cid jid input')"
    using assms(2) serve_input(1) by (simp add: fresh_job_def)
  then have "\<forall>input'. (jid, input') \<notin> waiting_on (handlers s) cid" by (simp add: waiting_on_iff)
  moreover have "acct sh (of_nat ` {..<unat n}) (command u) (waiting_on (handlers s) cid)
      (pool_abs (threads u, u))"
    using assms(4) serve_input(5) by (simp add: acct_inv_def)
  ultimately have "acct sh (of_nat ` {..<unat n}) (command (call_input S jid input u))
      (insert (jid, input) (waiting_on (handlers s) cid))
      (pool_abs (threads (call_input S jid input u), call_input S jid input u))"
    using acct_insert [of _ _ _ _ "fst (pool_abs (threads u, u))" "snd (pool_abs (threads u, u))"]
      pool_abs_input [of u jid input] by (simp add: call_input_def)
  with serve_input assms(4) fr show ?thesis
    by (auto simp: acct_inv_def get_set_unit waiting_on_add)
next
  case (serve_result c cid jid input u r u')
  have ow: "one_waiter (handlers s)" and ac: "acct sh (of_nat ` {..<unat n}) (command u)
      (waiting_on (handlers s) cid) (pool_abs (threads u, u))"
    using assms(4) serve_result(4) by (auto simp: acct_inv_def)
  note pr = pool_abs_result [OF serve_result(5)]
  have "(jid, input) \<in> waiting_on (handlers s) cid"
    using serve_result(3) by (auto simp: waiting_on_iff)
  with acct_remove(1) [of _ _ _ _ "fst (pool_abs (threads u, u))" "snd (pool_abs (threads u, u))"]
    ac pr have "acct sh (of_nat ` {..<unat n}) (command u')
      (waiting_on (handlers s) cid - {(jid, input)}) (pool_abs (threads u', u'))" by auto
  with serve_result assms(4) ow show ?thesis
    by (auto simp: acct_inv_def get_set_unit waiting_on_remove)
next
  case (serve_stop c cid u)
  have "pool_abs (threads (signal_kill u), signal_kill u) = pool_abs (threads u, u)"
    "command (signal_kill u) = command u"
    by (simp_all add: pool_abs_def signal_kill_def)
  with serve_stop assms(4) show ?thesis by (auto simp: acct_inv_def get_set_unit)
next
  case (serve_stop_unknown c cid)
  with assms(4) show ?thesis by (simp add: acct_inv_def get_set_none)
next
  case (serve_stopped c cid u)
  with assms(4) show ?thesis by (auto simp: acct_inv_def get_set_unit)
next
  case (serve_slot cid u ts u')
  have len: "length (threads u) = unat n"
    using assms(3) serve_slot(3) by (auto simp: units_inv_def unit_ok_def get_unit_table)
  have "acct_inv sh n (s\<lparr>commands := set_unit (commands s) cid (Some (u'\<lparr>threads := ts\<rparr>))\<rparr>)"
  proof (rule acct_inv_replace [OF assms(4) serve_slot(3)])
    fix W
    assume "acct sh (of_nat ` {..<unat n}) (command u) W (pool_abs (threads u, u))"
    moreover have "pool_abs (ts, u') = pool_abs (threads u, u) \<or>
        bag_step (\<lambda>r. r) sh (of_nat ` {..<unat n}) (command u) (pool_abs (threads u, u)) (pool_abs (ts, u'))"
      using pool_refines [OF serve_slot(4)] len by simp
    ultimately have "acct sh (of_nat ` {..<unat n}) (command u) W (pool_abs (ts, u'))"
      using acct_bag_step by metis
    then show "acct sh (of_nat ` {..<unat n}) (command (u'\<lparr>threads := ts\<rparr>)) W
        (pool_abs (threads (u'\<lparr>threads := ts\<rparr>), u'\<lparr>threads := ts\<rparr>))"
      using pool_step_frame [OF serve_slot(4)] by (simp add: pool_abs_def)
  qed
  with serve_slot show ?thesis by simp
qed (use assms(4) in simp_all)

lemma reach_acct_inv: "reach S M sh n fresh_job s \<Longrightarrow> acct_inv sh n s"
proof (induction rule: reach.induct)
  case reach_init
  show ?case by (rule acct_inv_init)
next
  case (reach_step s a s')
  from reach_inv [OF reach_step(1)] serve_acct_inv [OF reach_step(2,3)] reach_step(4)
  show ?case by blast
qed

lemma acct_inv_unit:
  "acct_inv sh n s \<Longrightarrow> get_unit (commands s) cid = Some u \<Longrightarrow>
     acct sh (of_nat ` {..<unat n}) (command u) (waiting_on (handlers s) cid)
       (fst (pool_abs (threads u, u)), snd (pool_abs (threads u, u)))"
  by (simp add: acct_inv_def)

text \<open>Runs of the slots of one unit are runs of the server.\<close>

lemma threads_comm:
  fixes u :: "('q, 'o) job_unit"
  shows "u\<lparr>inputs := q\<rparr>\<lparr>threads := x\<rparr> = u\<lparr>threads := x\<rparr>\<lparr>inputs := q\<rparr>"
    and "u\<lparr>outputs := m\<rparr>\<lparr>threads := x\<rparr> = u\<lparr>threads := x\<rparr>\<lparr>outputs := m\<rparr>"
    and "u\<lparr>parked := p\<rparr>\<lparr>threads := x\<rparr> = u\<lparr>threads := x\<rparr>\<lparr>parked := p\<rparr>"
  by (cases u; simp)+

lemma slot_event_threads:
  fixes u u' :: "('q, 'o) job_unit"
  assumes "slot_event g ins sh sid cmd (pc, u) (pc', u')"
  shows "slot_event g ins sh sid cmd (pc, u\<lparr>threads := x\<rparr>) (pc', u'\<lparr>threads := x\<rparr>)"
  using assms
proof cases
  case enter
  then show ?thesis using slot_event.enter [of "u\<lparr>threads := x\<rparr>"] by (simp add: threads_comm)
next
  case leave
  then show ?thesis using slot_event.leave [of "u\<lparr>threads := x\<rparr>"] by (simp add: threads_comm)
next
  case (idle q)
  then show ?thesis using slot_event.idle [of g "u\<lparr>threads := x\<rparr>" q] by (simp add: threads_comm)
next
  case (grab jid input q)
  then show ?thesis using slot_event.grab [of g "u\<lparr>threads := x\<rparr>" jid input q] by (simp add: threads_comm)
next
  case (finish jid input r)
  then show ?thesis using slot_event.finish [of sh cmd sid jid input r g ins "u\<lparr>threads := x\<rparr>"] by (simp add: threads_comm)
qed

lemma pool_step_threads:
  fixes u u' :: "('q, 'o) job_unit"
  assumes "pool_step g ins sh sid cmd (ts, u) (ts', u')"
  shows "pool_step g ins sh sid cmd (ts, u\<lparr>threads := x\<rparr>) (ts', u'\<lparr>threads := x\<rparr>)"
  using assms by (auto simp: pool_step_iff intro: slot_event_threads)

definition work_steps :: "(rstr \<Rightarrow> spawned \<Rightarrow> bool) \<Rightarrow> usize \<Rightarrow> ('s, 'm) server \<Rightarrow> ('s, 'm) server \<Rightarrow> bool" where
  "work_steps sh n = (\<lambda>s s'. serve S M sh n s Work s')\<^sup>*\<^sup>*"

lemma set_unit_twice [simp]: "set_unit (set_unit cs cid v) cid w = set_unit cs cid w"
  by (simp add: set_unit_def)

lemma pool_run_work:
  assumes "(pool_step (Inputs_get_job S) (Outputs_insert M) sh of_nat (command u))\<^sup>*\<^sup>* (threads u, u) (ts, u')"
    and "get_unit (commands s) cid = Some u"
  shows "work_steps sh n s (s\<lparr>commands := set_unit (commands s) cid (Some (u'\<lparr>threads := ts\<rparr>))\<rparr>)
    \<and> command u' = command u"
  using assms(1)
proof (induction "(ts, u')" arbitrary: ts u' rule: rtranclp_induct)
  case base
  have "set_unit (commands s) cid (Some u) = commands s"
    using assms(2) by (auto simp: set_unit_def get_unit_def split: if_splits) (metis list_update_id)
  then show ?case by (simp add: work_steps_def)
next
  case (step y ts u')
  obtain ts1 u1 where y: "y = (ts1, u1)" by fastforce
  let ?u1 = "u1\<lparr>threads := ts1\<rparr>"
  let ?s1 = "s\<lparr>commands := set_unit (commands s) cid (Some ?u1)\<rparr>"
  from step(3) [OF y] have IH: "work_steps sh n s ?s1" "command u1 = command u" by auto
  have "pool_step (Inputs_get_job S) (Outputs_insert M) sh of_nat (command ?u1)
      (threads ?u1, ?u1) (ts, u'\<lparr>threads := ts1\<rparr>)"
    using pool_step_threads [of _ _ _ _ _ ts1 u1 ts u' ts1] step(2) y IH(2) by simp
  moreover have "get_unit (commands ?s1) cid = Some ?u1"
    using assms(2) by (simp add: get_set_unit)
  ultimately have "serve S M sh n ?s1 Work
      (?s1\<lparr>commands := set_unit (commands ?s1) cid (Some (u'\<lparr>threads := ts1\<rparr>\<lparr>threads := ts\<rparr>))\<rparr>)"
    by (rule serve_slot [rotated])
  with IH show ?case
    using pool_step_frame [of _ _ _ _ _ ts1 u1 ts u'] step(2) y
    by (auto simp: work_steps_def intro: rtranclp.rtrancl_into_rtrancl)
qed

lemma work_reach:
  "work_steps sh n s s' \<Longrightarrow> reach S M sh n fresh_job s \<Longrightarrow> reach S M sh n fresh_job s'"
  unfolding work_steps_def
  by (induction rule: rtranclp_induct) (auto intro: reach.reach_step simp: fresh_job_def)

lemma work_handlers: "work_steps sh n s s' \<Longrightarrow> handlers s' = handlers s"
  unfolding work_steps_def
  by (induction rule: rtranclp_induct) (auto elim: serve.cases)

text \<open>The slots can finish every job of a unit, so every waiting input can be answered.\<close>

lemma waiting_answered:
  assumes "reach S M sh n fresh_job s" "handlers s c = Some (Waiting cid jid input)"
    and "\<forall>line. \<exists>r. sh line r" "n \<noteq> 0"
  shows "\<exists>s' r s''. work_steps sh n s s' \<and> serve S M sh n s' (Reply c (Input cid jid input) r) s''"
proof -
  from reach_inv [OF assms(1)] have lk: "lock_inv s" and un: "units_inv n s" by auto
  from waiting_unit [OF un assms(2)] obtain u where u: "get_unit (commands s) cid = Some u"
    "unit_ok n (stopping (handlers s) (unat cid)) u" by blast
  have "\<not> stopping (handlers s) (unat cid)"
    using lk assms(2) by (auto simp: lock_inv_def dest: is_waiter)
  with u(2) assms(4) have "alive (threads u) u"
    by (auto simp: alive_def unit_ok_def unat_eq_0)
  from drain [OF this assms(3)] obtain ts u' where d:
    "(pool_step (Inputs_get_job S) (Outputs_insert M) sh of_nat (command u))\<^sup>*\<^sup>* (threads u, u) (ts, u')"
    "held ts u' = {#}" by blast
  let ?u = "u'\<lparr>threads := ts\<rparr>"
  let ?s = "s\<lparr>commands := set_unit (commands s) cid (Some ?u)\<rparr>"
  from pool_run_work [OF d(1) u(1)] have w: "work_steps sh n s ?s" by blast
  have gu: "get_unit (commands ?s) cid = Some ?u" using u(1) by (simp add: get_set_unit)
  note ac = acct_inv_unit [OF reach_acct_inv [OF work_reach [OF w assms(1)]] gu]
  have "(jid, input) \<in> waiting_on (handlers ?s) cid"
    using assms(2) by (auto simp: waiting_on_iff)
  moreover have "fst (pool_abs (threads ?u, ?u)) = {#}"
    using d(2) by (simp add: pool_abs_def held_def)
  ultimately obtain r where "snd (pool_abs (threads ?u, ?u)) jid = Some r"
    using acctD(5) [OF ac] by fastforce
  from take_result_ready [OF this] obtain u2 where "take_result M jid ?u = Some (r, u2)" by blast
  with gu assms(2) have "\<exists>s''. serve S M sh n ?s (Reply c (Input cid jid input) (input_reply jid input r)) s''"
    using serve_result [of ?s c cid jid input ?u M r u2] by fastforce
  with w show ?thesis by blast
qed

text \<open>A handler that has stopped a command gets its answer when all slots have left.\<close>

lemma pool_run_frame:
  fixes u u' :: "('q, 'o) job_unit"
  assumes "(pool_step g ins sh sid cmd)\<^sup>*\<^sup>* (ts, u) (ts', u')"
  shows "slots u' = slots u \<and> length ts' = length ts \<and> (parked_ok ts u \<longrightarrow> parked_ok ts' u')"
  using assms
proof (induction "(ts', u')" arbitrary: ts' u' rule: rtranclp_induct)
  case (step y ts' u')
  obtain ts1 u1 where "y = (ts1, u1)" by fastforce
  with step pool_step_frame [of g ins sh sid cmd ts1 u1 ts' u']
    pool_step_parked_ok [of g ins sh sid cmd ts1 u1 ts' u'] show ?case by auto
qed simp

lemma stopping_answered:
  assumes "reach S M sh n allowed s" "handlers s c = Some (Stopping cid)"
    and "\<forall>line. \<exists>r. sh line r"
  shows "\<exists>s' s''. work_steps sh n s s'
    \<and> serve S M sh n s' (Reply c (StopJob cid) (Info (lit ''deleted job''))) s''"
proof -
  from reach_inv [OF assms(1)] have un: "units_inv n s" by auto
  from stopping_unit [OF un assms(2)] obtain u where
    u: "get_unit (commands s) cid = Some u" "unit_ok n True u" by blast
  then have "kill u" by (simp add: unit_ok_def)
  from pool_parks [OF this assms(3)] obtain ts u' where d:
    "(pool_step (Inputs_get_job S) (Outputs_insert M) sh of_nat (command u))\<^sup>*\<^sup>* (threads u, u) (ts, u')"
    "num_parked ts = length ts" by blast
  let ?u = "u'\<lparr>threads := ts\<rparr>"
  let ?s = "s\<lparr>commands := set_unit (commands s) cid (Some ?u)\<rparr>"
  from pool_run_frame [OF d(1)] u(2) d(2) have "all_parked ?u"
    by (simp add: unit_ok_def all_parked_def parked_ok_def)
  moreover have "get_unit (commands ?s) cid = Some ?u" using u(1) by (simp add: get_set_unit)
  ultimately have "\<exists>s''. serve S M sh n ?s (Reply c (StopJob cid) (Info (lit ''deleted job''))) s''"
    using serve_stopped [of ?s c cid ?u] assms(2) by fastforce
  with pool_run_work [OF d(1) u(1)] show ?thesis by blast
qed

lemma reply_genuine:
  assumes "reach S M sh n fresh_job s" "serve S M sh n s (Reply c ev r) s'"
    and "handlers s c = Some (Waiting cid jid input)"
  shows "\<exists>cmd sid q. live s (unat cid) = Some cmd \<and> sid < n \<and> sh (render cmd sid jid input) q
    \<and> ev = Input cid jid input \<and> r = input_reply jid input (collect q)"
  using assms(2)
proof cases
  case (serve_result cid' jid' input' u r' u')
  with assms(3) have eq: "cid' = cid" "jid' = jid" "input' = input" by auto
  with serve_result have gu: "get_unit (commands s) cid = Some u"
    and tr: "take_result M jid u = Some (r', u')" by auto
  have "(jid, input) \<in> waiting_on (handlers s) cid"
    using assms(3) by (auto simp: waiting_on_iff)
  with acct_remove(2) [OF acct_inv_unit [OF reach_acct_inv [OF assms(1)] gu]] pool_abs_result [OF tr]
  have "genuine sh (of_nat ` {..<unat n}) (command u) jid input r'" by simp
  then obtain k q where k: "k < unat n" "sh (render (command u) (of_nat k) jid input) q" "r' = collect q"
    by (auto simp: genuine_def)
  have "(of_nat k :: usize) < n"
    using k(1) by (metis le_unat_uoi less_imp_le_nat word_less_nat_alt)
  moreover have "live s (unat cid) = Some (command u)"
    using gu by (simp add: live_def get_unit_table)
  ultimately show ?thesis using k serve_result(1,2) eq by blast
qed (use assms(3) in simp_all)

end

section \<open>A small run\<close>

text \<open>
  One core, a shell that prints its command line, and a command \<^verbatim>\<open>x\<close>: the states after
  the command, after an input has started to wait, and after a stop has.
\<close>

definition demo_sh :: "rstr \<Rightarrow> spawned \<Rightarrow> bool" where
  "demo_sh line r \<longleftrightarrow> r = Child (Some (Some 0)) (as_bytes line) []"

lemma demo_sh_total: "\<forall>line. \<exists>r. demo_sh line r"
  by (simp add: demo_sh_def)

type_synonym demo_server = "((usize \<times> rstr) list, usize \<rightharpoonup> outcome) server"

definition demo_unit :: "((usize \<times> rstr) list, usize \<rightharpoonup> outcome) sunit" where
  "demo_unit = new_unit list_stack fun_map 1 \<lparr>tokens = [Text (lit ''x ''), Placeholder]\<rparr>"

definition demo_idle :: demo_server where
  "demo_idle = server_init\<lparr>commands := [Some demo_unit]\<rparr>"

definition demo_waiting :: demo_server where
  "demo_waiting = demo_idle\<lparr>commands := [Some (call_input list_stack 7 (lit ''a'') demo_unit)],
     readers := 1, handlers := [0 \<mapsto> Waiting 0 7 (lit ''a'')]\<rparr>"

definition demo_stopping :: demo_server where
  "demo_stopping = demo_idle\<lparr>commands := [Some (signal_kill demo_unit)],
     writer := True, handlers := [0 \<mapsto> Stopping 0]\<rparr>"

lemma demo_command:
  "call_command list_stack fun_map 1 (lit ''x'') [] = Some ([Some demo_unit], Info (lit ''0''))"
  by (simp add: call_command_def Tokens_new_auto auto_tokens_def auto_init_def auto_step_def
      flush_def close_tokens_def append_placeholder_def demo_unit_def lit_def digits.simps)

lemma demo_registered:
  assumes "allowed server_init (Reply 0 (Command (lit ''x'')) (Info (lit ''0'')))"
  shows "reach list_stack fun_map sh 1 allowed demo_idle"
proof -
  have "serve list_stack fun_map sh 1 server_init (Reply 0 (Command (lit ''x'')) (Info (lit ''0''))) demo_idle"
    unfolding demo_idle_def
    by (rule serve_command) (simp_all add: server_init_def demo_command)
  from reach.reach_step [where allowed = allowed, OF reach.reach_init this assms] show ?thesis .
qed

lemma demo_idle_reach: "reach list_stack fun_map sh 1 fresh_job demo_idle"
  by (rule demo_registered) (simp add: fresh_job_def)

lemma demo_reach:
  "reach list_stack fun_map demo_sh 1 fresh_job demo_idle"
  "reach list_stack fun_map demo_sh 1 fresh_job demo_waiting"
  "reach list_stack fun_map demo_sh 1 fresh_job demo_stopping"
proof -
  show r: "reach list_stack fun_map demo_sh 1 fresh_job demo_idle" by (rule demo_idle_reach)
  have "serve list_stack fun_map demo_sh 1 demo_idle (Begin 0 (Input 0 7 (lit ''a''))) demo_waiting"
    using serve_input [of demo_idle 0 0 demo_unit list_stack fun_map demo_sh 1 7 "lit ''a''"]
    by (simp add: demo_idle_def demo_waiting_def server_init_def get_unit_def set_unit_def)
  from reach.reach_step [OF r this]
  show "reach list_stack fun_map demo_sh 1 fresh_job demo_waiting"
    by (simp add: fresh_job_def demo_idle_def server_init_def)
  have "serve list_stack fun_map demo_sh 1 demo_idle (Begin 0 (StopJob 0)) demo_stopping"
    using serve_stop [of demo_idle 0 0 demo_unit list_stack fun_map demo_sh 1]
    by (simp add: demo_idle_def demo_stopping_def server_init_def get_unit_def set_unit_def)
  from reach.reach_step [OF r this]
  show "reach list_stack fun_map demo_sh 1 fresh_job demo_stopping"
    by (simp add: fresh_job_def)
qed

lemma demo_handlers:
  "handlers demo_waiting 0 = Some (Waiting 0 7 (lit ''a''))"
  "handlers demo_stopping 0 = Some (Stopping 0)"
  by (simp_all add: demo_waiting_def demo_stopping_def)

section \<open>What clients get\<close>

text \<open>
  C3. A response to a waiting input is its own, as long as no two inputs that wait on the same
  command have the same job ID: it carries the job ID of the input and the exit status,
  output and error output of a run of the command line that the input's command, job ID and
  text make with the number of one of the slots, or it is the error response when that run
  could not be spawned.
\<close>

theorem response_genuine:
  assumes "server_queues S items M lookup" "reach S M sh n fresh_job s"
    and "serve S M sh n s (Reply c ev r) s'" "handlers s c = Some (Waiting cid jid input)"
  shows "\<exists>cmd sid q. live s (unat cid) = Some cmd \<and> sid < n \<and> sh (render cmd sid jid input) q
    \<and> ev = Input cid jid input \<and> r = input_reply jid input (collect q)"
  using server_queues.reply_genuine [OF assms] .

theorem response_genuine_witness:
  "\<exists>s r s' cmd sid q. serve list_stack fun_map demo_sh 1 s (Reply 0 (Input 0 7 (lit ''a'')) r) s'
     \<and> live s (unat (0 :: usize)) = Some cmd \<and> sid < (1 :: usize)
     \<and> demo_sh (render cmd sid 7 (lit ''a'')) q \<and> r = input_reply 7 (lit ''a'') (collect q)"
proof -
  from list_queue.waiting_answered [OF demo_reach(2) demo_handlers(1) demo_sh_total]
  obtain s r s' where w: "list_queue.work_steps demo_sh 1 demo_waiting s"
    and st: "serve list_stack fun_map demo_sh 1 s (Reply 0 (Input 0 7 (lit ''a'')) r) s'" by auto
  from list_queue.work_handlers [OF w] demo_handlers(1)
  have "handlers s 0 = Some (Waiting 0 7 (lit ''a''))" by simp
  with response_genuine [OF list_queue.server_queues_axioms
      list_queue.work_reach [OF w demo_reach(2)] st] st
  show ?thesis by blast
qed





text \<open>The lock and the pool contract on the same run.\<close>

theorem server_lock_safe_witness:
  "readers demo_waiting = card {c. \<exists>cid jid input. handlers demo_waiting c = Some (Waiting cid jid input)}
   \<and> \<not> writer demo_waiting \<and> (\<exists>u. get_unit (commands demo_waiting) 0 = Some u \<and> \<not> kill u)"
  using server_lock_safe [OF demo_reach(2)] demo_handlers(1) by blast

theorem serve_refines_pool_witness:
  "pool_spec (live (server_init :: demo_server)) (Reply 0 (Command (lit ''x'')) (Info (lit ''0'')))
     (live demo_idle)"
proof (rule serve_refines_pool)
  show "serve list_stack fun_map demo_sh 1 server_init
      (Reply 0 (Command (lit ''x'')) (Info (lit ''0''))) demo_idle"
    unfolding demo_idle_def by (rule serve_command) (simp_all add: server_init_def demo_command)
qed

end
