(* ===== verification/Cluster.thy ===== *)
theory Cluster
  imports Lone_Client Protocol Server_Accounting
begin

text \<open>
  The client together with the nodes that serve it. Each slot of a node has a connection of
  its own to a server of the theory \<open>Service\<close>; what it writes for an input is decoded there,
  handled among the requests of other clients, and the encoded response is what the slot
  reads. Connections are reliable: they may be refused, but do not break. The result: the
  client shows, for every input, an output of the command line on that input, from a slot
  of its own or of a node.
\<close>

section \<open>Clients, nodes and connections\<close>

text \<open>
  A deployment: the containers of the crates, the shell, the slot numbers and the command of
  the client, the node that each remote slot is connected to, and for each node its shell,
  its number of cores and the ID of the client's command.
\<close>

record ('m, 'f, 's, 'n) deployment =
  d_outputs :: "('m, job_output) map_ops"
  d_failed :: "('f, rstr) map_ops"
  d_stack :: "'s stack_ops"
  d_results :: "('n, outcome) map_ops"
  d_split :: split_to
  d_shell :: "rstr \<Rightarrow> spawned \<Rightarrow> bool"
  d_number :: "nat \<Rightarrow> usize"
  d_command :: Tokens
  d_verbose :: bool
  d_home :: "nat \<Rightarrow> nat"
  d_node_shell :: "nat \<Rightarrow> rstr \<Rightarrow> spawned \<Rightarrow> bool"
  d_cores :: "nat \<Rightarrow> usize"
  d_node_id :: "nat \<Rightarrow> usize"

definition d_id :: "('m, 'f, 's, 'n, 'z) deployment_scheme \<Rightarrow> nat \<Rightarrow> usize" where
  "d_id D i = d_node_id D (d_home D i)"

text \<open>
  The connection of a slot, from the slot's write to its read: a request under way, a request
  that a handler of the node works on, a response under way.
\<close>

datatype link = Silent | Request "byte list" | Handled | Response "byte list"

record ('m, 'f, 's, 'n) cluster =
  cu_client :: "('m, 'f) client"
  cu_nodes :: "nat \<Rightarrow> ('s, 'n) server"
  cu_links :: "nat \<Rightarrow> link"

text \<open>
  A stream of a reliable connection: every write succeeds, and nothing is there to be read
  before the node has answered. Connecting may fail any number of times.
\<close>

definition idle_stream :: "stream \<Rightarrow> bool" where
  "idle_stream st \<longleftrightarrow> incoming st = [] \<and> write_answers st = []"

definition reliable_dial :: "nat \<Rightarrow> (io_error + stream) run \<Rightarrow> bool" where
  "reliable_dial i r \<longleftrightarrow> (\<exists>why. r = Done (Inl why)) \<or> (\<exists>st. r = Done (Inr st) \<and> idle_stream st)"

text \<open>
  Requests of other clients: their handlers are not those of the \<open>n\<close> connections of this
  client, and they keep to their own commands, so they do not name the ID \<open>k\<close>.
\<close>

fun names_command :: "usize \<Rightarrow> job_event \<Rightarrow> bool" where
  "names_command k (Input cid jid input) = (cid = k)"
| "names_command k (StopJob cid) = (cid = k)"
| "names_command k ev = False"

fun foreign :: "nat \<Rightarrow> usize \<Rightarrow> action \<Rightarrow> bool" where
  "foreign n k (Begin c ev) = (n \<le> c \<and> \<not> names_command k ev)"
| "foreign n k (Reply c ev r) = (n \<le> c \<and> \<not> names_command k ev)"
| "foreign n k Work = True"

text \<open>
  One step: of a thread of the client other than the exchanges, of a node, or of a
  connection. A slot goes on with its exchange when \<open>read_from\<close> does not wait any more for what
  the node has not sent: the connection stays open.
\<close>

inductive cluster_step ::
  "('m, 'f, 's, 'n) deployment \<Rightarrow> ('m, 'f, 's, 'n) cluster \<Rightarrow> job_output option
   \<Rightarrow> ('m, 'f, 's, 'n) cluster \<Rightarrow> bool"
  for D where
  cluster_client:
    "client_step (d_outputs D) (d_failed D) (d_shell D) (d_number D) (d_command D) reliable_dial (d_id D)
       (d_verbose D) (cu_client x) l c
     \<Longrightarrow> cl_remote c = cl_remote (cu_client x)
     \<Longrightarrow> cluster_step D x l (x\<lparr>cu_client := c\<rparr>)"
| cluster_remote:
    "remote_step (d_outputs D) (d_failed D) reliable_dial (d_id D)
       (cl_remote (cu_client x), cl_shared (cu_client x)) Quiet (rs, s)
     \<Longrightarrow> cluster_step D x None (x\<lparr>cu_client := (cu_client x)\<lparr>cl_remote := rs, cl_shared := s\<rparr>\<rparr>)"
| cluster_send:
    "i < length (cl_remote (cu_client x))
     \<Longrightarrow> cl_remote (cu_client x) ! i = Exchanging st cache jid input tries \<Longrightarrow> cu_links x i = Silent
     \<Longrightarrow> write_instruction cache st (d_id D i) jid input = (Inr (), cache', st') \<Longrightarrow> sent st' = sent st @ bs
     \<Longrightarrow> cluster_step D x None (x\<lparr>cu_links := (cu_links x)(i := Request bs)\<rparr>)"
| cluster_begin:
    "cu_links x i = Request bs \<Longrightarrow> decode (d_split D) bs = Some (Inr (Some ev), [])
     \<Longrightarrow> serve (d_stack D) (d_results D) (d_node_shell D (d_home D i)) (d_cores D (d_home D i))
           (cu_nodes x (d_home D i)) (Begin i ev) s
     \<Longrightarrow> cluster_step D x None
       (x\<lparr>cu_nodes := (cu_nodes x)(d_home D i := s), cu_links := (cu_links x)(i := Handled)\<rparr>)"
| cluster_answer:
    "cu_links x i = Request bs \<Longrightarrow> decode (d_split D) bs = Some (Inr (Some ev), [])
     \<Longrightarrow> serve (d_stack D) (d_results D) (d_node_shell D (d_home D i)) (d_cores D (d_home D i))
           (cu_nodes x (d_home D i)) (Reply i ev r) s
     \<Longrightarrow> encode r [] = Some b
     \<Longrightarrow> cluster_step D x None
       (x\<lparr>cu_nodes := (cu_nodes x)(d_home D i := s), cu_links := (cu_links x)(i := Response b)\<rparr>)"
| cluster_reply:
    "cu_links x i = Handled
     \<Longrightarrow> serve (d_stack D) (d_results D) (d_node_shell D (d_home D i)) (d_cores D (d_home D i))
           (cu_nodes x (d_home D i)) (Reply i ev r) s
     \<Longrightarrow> encode r [] = Some b
     \<Longrightarrow> cluster_step D x None
       (x\<lparr>cu_nodes := (cu_nodes x)(d_home D i := s), cu_links := (cu_links x)(i := Response b)\<rparr>)"
| cluster_node:
    "serve (d_stack D) (d_results D) (d_node_shell D k) (d_cores D k) (cu_nodes x k) a s
     \<Longrightarrow> foreign (length (cl_remote (cu_client x))) (d_node_id D k) a \<Longrightarrow> fresh_job (cu_nodes x k) a
     \<Longrightarrow> cluster_step D x None (x\<lparr>cu_nodes := (cu_nodes x)(k := s)\<rparr>)"
| cluster_receive:
    "i < length (cl_remote (cu_client x))
     \<Longrightarrow> cl_remote (cu_client x) ! i = Exchanging st cache jid input tries \<Longrightarrow> cu_links x i = Response b
     \<Longrightarrow> arrives b chunks \<Longrightarrow> \<not> read_blocks cache (st\<lparr>incoming := map Inr chunks\<rparr>)
     \<Longrightarrow> slot_spawn (d_outputs D) (d_failed D) (reliable_dial i) (d_id D i)
           (Exchanging (st\<lparr>incoming := map Inr chunks\<rparr>) cache jid input tries, cl_shared (cu_client x))
           Exchanged (pc, s)
     \<Longrightarrow> cluster_step D x None
       (x\<lparr>cu_client := (cu_client x)\<lparr>cl_remote := (cl_remote (cu_client x))[i := pc], cl_shared := s\<rparr>,
          cu_links := (cu_links x)(i := Silent)\<rparr>)"

abbreviation cluster_run ::
  "('m, 'f, 's, 'n) deployment \<Rightarrow> ('m, 'f, 's, 'n) cluster \<Rightarrow> job_output list
   \<Rightarrow> ('m, 'f, 's, 'n) cluster \<Rightarrow> bool" where
  "cluster_run D \<equiv> trace_run (cluster_step D)"

text \<open>
  The start: the client's, with the command registered on each node that serves it, and
  handlers for the client's connections that have nothing to do.
\<close>

definition node_ready :: "('m, 'f, 's, 'n) deployment \<Rightarrow> nat \<Rightarrow> nat \<Rightarrow> ('s, 'n) server \<Rightarrow> bool" where
  "node_ready D remotes k s \<longleftrightarrow>
     reach (d_stack D) (d_results D) (d_node_shell D k) (d_cores D k) fresh_job s
     \<and> live s (unat (d_node_id D k)) = Some (d_command D)
     \<and> (\<forall>i < remotes. handlers s i = None)
     \<and> (\<forall>c jid input. handlers s c \<noteq> Some (Waiting (d_node_id D k) jid input)
          \<and> handlers s c \<noteq> Some (Stopping (d_node_id D k)))"

definition cluster_init :: "('m, 'f, 's, 'n) deployment \<Rightarrow> nat \<Rightarrow> nat \<Rightarrow> rstr list \<Rightarrow> ('m, 'f, 's, 'n) cluster \<Rightarrow> bool" where
  "cluster_init D locals remotes ls x \<longleftrightarrow>
     cu_client x = client_init (d_outputs D) (d_failed D) locals remotes (program_of ls)
     \<and> cu_links x = (\<lambda>_. Silent) \<and> (\<forall>i < remotes. node_ready D remotes (d_home D i) (cu_nodes x (d_home D i)))"

end
