(* ===== verification/Cluster_System.thy ===== *)
theory Cluster_System
  imports Cluster
begin

text \<open>
  What holds in every run of a client with its nodes: each connection is in step with its
  slot and with its handler at the node, and the accounting of the theory
  \<open>Client_System\<close> goes through, with the outputs of the nodes.
\<close>

section \<open>The outputs of a cluster\<close>

text \<open>What the client shows of a text that a node sends.\<close>

definition shown_text :: "file_t \<Rightarrow> rstr" where
  "shown_text f = unescaped (escaped_form (file_text f))"

text \<open>An output of a job from the node of slot \<open>i\<close>, and from any slot.\<close>

definition node_output ::
  "('m, 'f, 's, 'n) deployment \<Rightarrow> nat \<Rightarrow> usize \<Rightarrow> rstr \<Rightarrow> job_output \<Rightarrow> bool" where
  "node_output D i k input out \<longleftrightarrow>
     (\<exists>slot < d_cores D (d_home D i). \<exists>w pout perr.
        d_node_shell D (d_home D i) (render (d_command D) slot k input) (Child w pout perr)
        \<and> out = Outcome (exit_status w) (External (shown_text pout) (shown_text perr)))"

definition cluster_output ::
  "('m, 'f, 's, 'n) deployment \<Rightarrow> nat \<Rightarrow> nat \<Rightarrow> usize \<Rightarrow> rstr \<Rightarrow> job_output \<Rightarrow> bool" where
  "cluster_output D locals remotes k input out \<longleftrightarrow>
     local_output (d_shell D) (d_number D) (d_command D) locals k input out
     \<or> (\<exists>i < remotes. node_output D i k input out)"

section \<open>Connections in step\<close>

text \<open>The slot, the connection and the handler of the node agree on the input under way.\<close>

fun link_ok :: "('m, 'f, 's, 'n) deployment \<Rightarrow> nat \<Rightarrow> remote_pc \<Rightarrow> link \<Rightarrow> handler option \<Rightarrow> bool" where
  "link_ok D i (Exchanging st cache jid input tries) lk h \<longleftrightarrow>
     idle_stream st \<and> cache = cache_new \<and> (case lk of
       Silent \<Rightarrow> h = None
     | Request bs \<Rightarrow> h = None \<and> bs = line_bytes (Input (d_id D i) jid input)
     | Handled \<Rightarrow> h = Some (Waiting (d_id D i) jid input)
     | Response b \<Rightarrow> h = None \<and> (\<exists>slot < d_cores D (d_home D i). \<exists>q.
         d_node_shell D (d_home D i) (render (d_command D) slot jid input) q
         \<and> encode (input_reply jid input (collect q)) [] = Some b))"
| "link_ok D i (Looping st cache) lk h \<longleftrightarrow> idle_stream st \<and> cache = cache_new \<and> lk = Silent \<and> h = None"
| "link_ok D i (NextInput st cache) lk h \<longleftrightarrow> idle_stream st \<and> cache = cache_new \<and> lk = Silent \<and> h = None"
| "link_ok D i (NextError st cache) lk h \<longleftrightarrow> idle_stream st \<and> cache = cache_new \<and> lk = Silent \<and> h = None"
| "link_ok D i Connecting lk h \<longleftrightarrow> lk = Silent \<and> h = None"
| "link_ok D i Returned lk h \<longleftrightarrow> lk = Silent \<and> h = None"
| "link_ok D i Ended lk h \<longleftrightarrow> False"

text \<open>
  A node keeps the command, only the client's own connections wait on it, and stops are those
  of other clients.
\<close>

definition node_ok :: "('m, 'f, 's, 'n) deployment \<Rightarrow> nat \<Rightarrow> nat \<Rightarrow> ('s, 'n) server \<Rightarrow> bool" where
  "node_ok D remotes k s \<longleftrightarrow>
     reach (d_stack D) (d_results D) (d_node_shell D k) (d_cores D k) fresh_job s
     \<and> live s (unat (d_node_id D k)) = Some (d_command D)
     \<and> (\<forall>c cid. handlers s c = Some (Stopping cid) \<longrightarrow> remotes \<le> c \<and> cid \<noteq> d_node_id D k)
     \<and> (\<forall>c jid input. handlers s c = Some (Waiting (d_node_id D k) jid input) \<longrightarrow> c < remotes \<and> d_home D c = k)"

lemma node_okD:
  assumes "node_ok D remotes k s"
  shows "reach (d_stack D) (d_results D) (d_node_shell D k) (d_cores D k) fresh_job s"
    and "live s (unat (d_node_id D k)) = Some (d_command D)"
    and "handlers s c = Some (Stopping cid) \<Longrightarrow> remotes \<le> c \<and> cid \<noteq> d_node_id D k"
    and "handlers s c = Some (Waiting (d_node_id D k) jid input) \<Longrightarrow> c < remotes \<and> d_home D c = k"
  using assms unfolding node_ok_def by blast+

lemma node_ok_ready: "node_ready D remotes k s \<Longrightarrow> node_ok D remotes k s"
  unfolding node_ready_def node_ok_def by (metis not_less option.distinct(1))

lemma node_ok_serve:
  assumes "node_ok D remotes k s" "serve (d_stack D) (d_results D) (d_node_shell D k) (d_cores D k) s a s'"
    and "fresh_job s a"
    and "\<And>c ev. a = Begin c ev \<Longrightarrow> names_command (d_node_id D k) ev \<Longrightarrow>
      c < remotes \<and> d_home D c = k \<and> (\<exists>cid jid input. ev = Input cid jid input)"
    and "\<And>c cid. a = Begin c (StopJob cid) \<Longrightarrow> remotes \<le> c"
    and "\<And>c cid r. a = Reply c (StopJob cid) r \<Longrightarrow> cid \<noteq> d_node_id D k"
  shows "node_ok D remotes k s'"
proof -
  have "live s' (unat (d_node_id D k)) = Some (d_command D)"
    using pool_spec_keeps [OF serve_pool_spec [OF assms(2)]] assms(1,6)
    by (auto simp: node_ok_def word_unat_eq_iff)
  moreover have "reach (d_stack D) (d_results D) (d_node_shell D k) (d_cores D k) fresh_job s'"
    using assms(1-3) by (auto simp: node_ok_def intro: reach.reach_step)
  moreover have "(handlers s' c = Some (Stopping cid) \<longrightarrow> remotes \<le> c \<and> cid \<noteq> d_node_id D k)
      \<and> (handlers s' c = Some (Waiting (d_node_id D k) jid input) \<longrightarrow> c < remotes \<and> d_home D c = k)" for c cid jid input
    using assms(1,4,5) serve_handlers [OF assms(2)]
    by (cases "(a, handlers s)" rule: handlers_after.cases) (fastforce simp: node_ok_def split: if_splits)+
  ultimately show ?thesis by (simp add: node_ok_def)
qed

lemma foreign_handler: "foreign n k a \<Longrightarrow> c < n \<Longrightarrow> handlers_after a h c = h c"
  by (cases "(a, h)" rule: handlers_after.cases) auto

lemma foreign_command:
  assumes "foreign n k a"
  shows "a = Begin c ev \<Longrightarrow> \<not> names_command k ev \<and> n \<le> c" "a = Reply c (StopJob cid) r \<Longrightarrow> cid \<noteq> k"
  using assms by auto

section \<open>The invariant\<close>

locale distributed = output_table "d_outputs D" lookup + node: server_queues "d_stack D" items "d_results D" nlookup
  for D :: "('m, 'f, 's, 'n) deployment" and lookup :: "'m \<Rightarrow> usize \<Rightarrow> job_output option"
    and items :: "'s \<Rightarrow> (usize \<times> rstr) list" and nlookup :: "'n \<Rightarrow> usize \<Rightarrow> outcome option" +
  fixes locals remotes :: nat and ls :: "rstr list"
  assumes length_inputs: "length ls < 2 ^ 64"
    and splits: "split_to_law (d_split D)"
    and text_inputs: "\<forall>l \<in> set ls. valid_str l \<and> c_nl \<notin> set l"
begin

sublocale client_core "d_outputs D" lookup "d_failed D" "d_shell D" "d_number D" "d_command D"
  reliable_dial "d_id D" "d_verbose D" locals ls "cluster_output D locals remotes"
  by unfold_locales (rule length_inputs, auto simp: cluster_output_def local_output_def)

definition links_ok :: "('m, 'f, 's, 'n) cluster \<Rightarrow> bool" where
  "links_ok x \<longleftrightarrow> length (cl_remote (cu_client x)) = remotes
     \<and> (\<forall>i < remotes. link_ok D i (cl_remote (cu_client x) ! i) (cu_links x i) (handlers (cu_nodes x (d_home D i)) i))
     \<and> (\<forall>i \<ge> remotes. cu_links x i = Silent)"

definition nodes_ok :: "('m, 'f, 's, 'n) cluster \<Rightarrow> bool" where
  "nodes_ok x \<longleftrightarrow> (\<forall>i < remotes. node_ok D remotes (d_home D i) (cu_nodes x (d_home D i)))"

definition cluster_ok :: "job_output list \<Rightarrow> ('m, 'f, 's, 'n) cluster \<Rightarrow> bool" where
  "cluster_ok os x \<longleftrightarrow> client_ok os (cu_client x) \<and> errors (cl_shared (cu_client x)) = []
     \<and> links_ok x \<and> nodes_ok x \<and> (\<not> kill (cl_shared (cu_client x)) \<longrightarrow> Returned \<notin> set (cl_remote (cu_client x)))"

lemma cluster_ok_init:
  assumes "cluster_init D locals remotes ls x"
  shows "cluster_ok [] x"
proof -
  have "errors (cl_shared (cu_client x)) = []" "client_ok [] (cu_client x)"
    "cl_remote (cu_client x) = replicate remotes Connecting"
    using assms client_ok_init [of remotes]
    by (simp_all add: cluster_init_def) (simp_all add: client_init_def)
  with assms show ?thesis
    by (auto simp: cluster_ok_def links_ok_def nodes_ok_def cluster_init_def node_ok_ready)
      (auto simp: node_ready_def)
qed

text \<open>The jobs that are being exchanged are part of the contents.\<close>

lemma exchanging_contents:
  assumes "i < length rs" "rs ! i = Exchanging st cache jid input tries" "cl_remote c = rs"
  shows "\<exists>b. fst (contents c) = add_mset (jid, input) b"
proof -
  have "at_slots rs = add_mset (jid, input, tries) (at_slots (rs[i := Returned]))"
    using at_slots_update [OF assms(1), of Returned] assms(2) by simp
  then show ?thesis using assms(3) by (simp add: contents_def held_remote_def)
qed

lemma two_exchanging:
  assumes "i < length rs" "j < length rs" "i \<noteq> j" "cl_remote c = rs"
    and "rs ! i = Exchanging st cache jid input tries" "rs ! j = Exchanging st' cache' jid' input' tries'"
  shows "{#(jid, input), (jid', input')#} \<subseteq># fst (contents c)"
proof -
  have "at_slots rs = add_mset (jid, input, tries) (at_slots (rs[i := Returned]))"
    using at_slots_update [OF assms(1), of Returned] assms(5) by simp
  also have "at_slots (rs[i := Returned])
      = add_mset (jid', input', tries') (at_slots (rs[i := Returned, j := Returned]))"
    using at_slots_update [of j "rs[i := Returned]" Returned] assms by simp
  finally show ?thesis using assms(4) by (simp add: contents_def held_remote_def)
qed

lemma exchanging_sendable:
  assumes "client_ok os c" "i < length (cl_remote c)" "cl_remote c ! i = Exchanging st cache jid input tries"
  shows "sendable (Input cid jid input)"
proof -
  from exchanging_contents [OF assms(2,3) refl] obtain b where "fst (contents c) = add_mset (jid, input) b"
    by blast
  with assms(1) have "jobs_ok (cluster_output D locals remotes) ls (cl_source c) os
      (add_mset (jid, input) b, snd (contents c))" by (metis client_ok_def prod.collapse)
  from jobs_ok_member [OF this few_inputs] text_inputs show ?thesis by simp
qed

lemma exchanging_ids:
  assumes "client_ok os c" "i < length (cl_remote c)" "j < length (cl_remote c)" "i \<noteq> j"
    and "cl_remote c ! i = Exchanging st cache jid input tries"
    and "cl_remote c ! j = Exchanging st' cache' jid' input' tries'"
  shows "jid \<noteq> jid'"
proof -
  have "jobs_ok (cluster_output D locals remotes) ls (cl_source c) os (fst (contents c), snd (contents c))"
    using assms(1) by (simp add: client_ok_def)
  from jobs_ok_once [OF this few_inputs two_exchanging [OF assms(2-4) refl assms(5,6)]] show ?thesis .
qed

subsection \<open>Steps of the client\<close>

lemma quiet_link:
  assumes "slot_spawn M F (reliable_dial i) k (pc, s) Quiet (pc', s')" "errors s = []" "link_ok D i pc lk h"
  shows "link_ok D i pc' lk h \<and> errors s' = [] \<and> (pc' = Returned \<longrightarrow> kill s')"
  using assms by cases (auto simp: reliable_dial_def)

lemma contents_quiet:
  assumes "remote_step (d_outputs D) (d_failed D) dial k (cl_remote c, cl_shared c) Quiet (rs, s)"
  shows "contents (c\<lparr>cl_remote := rs, cl_shared := s\<rparr>) = contents c"
proof -
  note q = remote_quiet [OF assms]
  have f: "fst (contents c) = image_mset (\<lambda>(jid, input, tries). (jid, input)) (pending (cl_remote c, cl_shared c))
      + running (cl_local c)" for c
    by (simp add: contents_def pending_held ac_simps)
  show ?thesis using q by (intro prod_eqI) (simp_all add: f, simp add: contents_def)
qed

lemma client_ok_quiet:
  assumes "client_ok os c" "remote_step (d_outputs D) (d_failed D) dial k (cl_remote c, cl_shared c) Quiet (rs, s)"
  shows "client_ok os (c\<lparr>cl_remote := rs, cl_shared := s\<rparr>)"
  using assms(1) contents_quiet [OF assms(2)] remote_quiet [OF assms(2)] by (auto simp: client_ok_def)

lemma cluster_ok_quiet:
  assumes "cluster_ok os x" "remote_step (d_outputs D) (d_failed D) reliable_dial (d_id D)
      (cl_remote (cu_client x), cl_shared (cu_client x)) Quiet (rs, s)"
  shows "cluster_ok os (x\<lparr>cu_client := (cu_client x)\<lparr>cl_remote := rs, cl_shared := s\<rparr>\<rparr>)"
proof -
  from assms(2) obtain i pc where i: "i < length (cl_remote (cu_client x))"
    "rs = (cl_remote (cu_client x))[i := pc]"
    "slot_spawn (d_outputs D) (d_failed D) (reliable_dial i) (d_id D i)
       (cl_remote (cu_client x) ! i, cl_shared (cu_client x)) Quiet (pc, s)"
    by (auto elim: remote_step.cases)
  have "link_ok D i pc (cu_links x i) (handlers (cu_nodes x (d_home D i)) i) \<and> errors s = []
      \<and> (pc = Returned \<longrightarrow> kill s)"
    using assms(1) i(1) by (intro quiet_link [OF i(3)]) (simp_all add: cluster_ok_def links_ok_def)
  moreover have "set rs \<subseteq> insert pc (set (cl_remote (cu_client x)))"
    using i(2) set_update_subset_insert by metis
  ultimately show ?thesis using assms i client_ok_quiet [OF _ assms(2)] remote_quiet [OF assms(2)]
    by (auto simp: cluster_ok_def links_ok_def nodes_ok_def nth_list_update)
qed

lemma exchange_moves:
  "slot_spawn M F dial k (pc, s) Exchanged (pc', s') \<Longrightarrow> pc' \<noteq> pc"
  by (auto elim: slot_spawn.cases)

lemma same_remote_quiet:
  assumes "remote_step M F dial k (ts, s) l (ts, s')"
  shows "l = Quiet"
proof (rule ccontr)
  assume "l \<noteq> Quiet"
  with assms obtain i pc s'' where "i < length ts" "ts = ts[i := pc]" "slot_spawn M F (dial i) (k i) (ts ! i, s) Exchanged (pc, s'')"
    by (cases l) (auto elim!: remote_step.cases)
  with exchange_moves show False by (metis nth_list_update_eq)
qed

lemma cluster_ok_client:
  assumes "cluster_ok os x" "solo (cu_client x) l c"
  shows "cluster_ok (os @ (case l of None \<Rightarrow> [] | Some out \<Rightarrow> [out])) (x\<lparr>cu_client := c\<rparr>)"
proof -
  let ?c = "cu_client x"
  from assms(2) have st: "steps_to ?c l c" and same: "cl_remote c = cl_remote ?c"
    by (simp_all add: solo_def)
  have ok: "client_ok os ?c" "errors (cl_shared ?c) = []" using assms(1) by (simp_all add: cluster_ok_def)
  have quiet: "q = Quiet" if "remote_step (d_outputs D) (d_failed D) reliable_dial (d_id D)
      (cl_remote ?c, cl_shared ?c) q (rs, s)" "c = ?c\<lparr>cl_remote := rs, cl_shared := s\<rparr>" for q rs s
    using that same same_remote_quiet by fastforce
  have "client_ok (os @ (case l of None \<Rightarrow> [] | Some out \<Rightarrow> [out])) c"
    using client_ok_solo [OF st ok(1)] quiet client_ok_quiet [OF ok(1)] by blast
  moreover have "errors (cl_shared c) = []"
    using st
  proof cases
    case (remote_slot q rs s)
    with quiet have "q = Quiet" by simp
    with cluster_ok_quiet [OF assms(1)] remote_slot show ?thesis by (auto simp: cluster_ok_def)
  qed (use ok(2) in \<open>auto dest: pool_step_frame_client\<close>)
  moreover have "\<not> kill (cl_shared ?c)" if "\<not> kill (cl_shared c)"
    using st
  proof cases
    case (remote_slot q rs s)
    with quiet have "q = Quiet" by simp
    with remote_quiet remote_slot that show ?thesis by fastforce
  qed (use that in \<open>auto dest: pool_step_kill\<close>)
  ultimately show ?thesis using assms(1) same
    by (simp add: cluster_ok_def links_ok_def nodes_ok_def)
qed

subsection \<open>Steps of the connections and the nodes\<close>

lemma cluster_ok_send:
  assumes "cluster_ok os x" "i < length (cl_remote (cu_client x))"
    and "cl_remote (cu_client x) ! i = Exchanging st cache jid input tries" "cu_links x i = Silent"
    and "write_instruction cache st (d_id D i) jid input = (Inr (), cache', st')" "sent st' = sent st @ bs"
  shows "cluster_ok os (x\<lparr>cu_links := (cu_links x)(i := Request bs)\<rparr>)"
proof -
  have l: "idle_stream st" "cache = cache_new" "handlers (cu_nodes x (d_home D i)) i = None" "i < remotes"
    using assms(1-4) by (auto simp: cluster_ok_def links_ok_def)
  with write_instruction_ok [of st "d_id D i" jid input] assms(5,6)
  have "bs = line_bytes (Input (d_id D i) jid input)" by (auto simp: idle_stream_def)
  with l assms(1,3) show ?thesis by (auto simp: cluster_ok_def links_ok_def nodes_ok_def)
qed

text \<open>A step of the node of slot \<open>i\<close> that concerns at most the handler of this slot.\<close>

lemma links_ok_serve:
  assumes "links_ok x" "i < remotes" "serve S N shn n (cu_nodes x (d_home D i)) a s"
    and "\<And>c. c < remotes \<Longrightarrow> c \<noteq> i \<Longrightarrow> handlers_after a (handlers (cu_nodes x (d_home D i))) c
      = handlers (cu_nodes x (d_home D i)) c"
    and "link_ok D i (cl_remote (cu_client x) ! i) lk (handlers s i)"
  shows "links_ok (x\<lparr>cu_nodes := (cu_nodes x)(d_home D i := s), cu_links := (cu_links x)(i := lk)\<rparr>)"
  using assms serve_handlers [OF assms(3)] by (auto simp: links_ok_def)

lemma cluster_ok_node_step:
  assumes "cluster_ok os x" "i < remotes"
    and "serve (d_stack D) (d_results D) (d_node_shell D (d_home D i)) (d_cores D (d_home D i))
           (cu_nodes x (d_home D i)) a s"
    and "fresh_job (cu_nodes x (d_home D i)) a"
    and "a = Begin i (Input (d_id D i) jid input) \<or> a = Reply i (Input (d_id D i) jid input) r"
    and "link_ok D i (cl_remote (cu_client x) ! i) lk (handlers s i)"
  shows "cluster_ok os (x\<lparr>cu_nodes := (cu_nodes x)(d_home D i := s), cu_links := (cu_links x)(i := lk)\<rparr>)"
proof -
  have "links_ok (x\<lparr>cu_nodes := (cu_nodes x)(d_home D i := s), cu_links := (cu_links x)(i := lk)\<rparr>)"
    using assms by (intro links_ok_serve) (auto simp: cluster_ok_def)
  moreover have "node_ok D remotes (d_home D i) s"
    using assms(1,2,5) by (intro node_ok_serve [OF _ assms(3,4)]) (auto simp: cluster_ok_def nodes_ok_def)
  ultimately show ?thesis using assms(1) by (auto simp: cluster_ok_def nodes_ok_def)
qed

lemma at_home:
  assumes "cluster_ok os x" "cu_links x i \<noteq> Silent"
  shows "i < remotes" "link_ok D i (cl_remote (cu_client x) ! i) (cu_links x i) (handlers (cu_nodes x (d_home D i)) i)"
    "node_ok D remotes (d_home D i) (cu_nodes x (d_home D i))" "length (cl_remote (cu_client x)) = remotes"
proof -
  show "i < remotes" using assms by (metis cluster_ok_def links_ok_def not_less)
  then show "link_ok D i (cl_remote (cu_client x) ! i) (cu_links x i) (handlers (cu_nodes x (d_home D i)) i)"
    "node_ok D remotes (d_home D i) (cu_nodes x (d_home D i))" "length (cl_remote (cu_client x)) = remotes"
    using assms(1) by (simp_all add: cluster_ok_def links_ok_def nodes_ok_def)
qed

lemma busy_slot:
  assumes "cluster_ok os x" "cu_links x i \<noteq> Silent"
  shows "\<exists>st jid input tries. cl_remote (cu_client x) ! i = Exchanging st cache_new jid input tries"
  using at_home(2) [OF assms] assms(2) by (cases "cl_remote (cu_client x) ! i") auto

lemma request_decoded:
  assumes "cluster_ok os x" "cu_links x i = Request bs" "decode (d_split D) bs = Some (Inr (Some ev), rest)"
  shows "\<exists>st jid input tries. cl_remote (cu_client x) ! i = Exchanging st cache_new jid input tries
    \<and> ev = Input (d_id D i) jid input \<and> handlers (cu_nodes x (d_home D i)) i = None"
proof -
  have ns: "cu_links x i \<noteq> Silent" using assms(2) by simp
  from busy_slot [OF assms(1) ns] obtain st jid input tries where
    e: "cl_remote (cu_client x) ! i = Exchanging st cache_new jid input tries" by blast
  have "i < length (cl_remote (cu_client x))" using at_home [OF assms(1) ns] by simp
  moreover have "client_ok os (cu_client x)" using assms(1) by (simp add: cluster_ok_def)
  ultimately have sd: "sendable (Input (d_id D i) jid input)" using exchanging_sendable e by blast
  from at_home(2) [OF assms(1) ns] e assms(2) have "bs = line_bytes (Input (d_id D i) jid input)"
    "handlers (cu_nodes x (d_home D i)) i = None" by simp_all
  with decode_line [OF splits sd, of "[]"] assms(3) e show ?thesis by simp
qed

text \<open>The job of a request is not waited for yet at the node.\<close>

lemma request_fresh:
  assumes "cluster_ok os x" "cu_links x i = Request bs"
    and "cl_remote (cu_client x) ! i = Exchanging st cache jid input tries"
  shows "fresh_job (cu_nodes x (d_home D i)) (Begin i (Input (d_id D i) jid input))"
proof -
  let ?k = "d_home D i"
  have ns: "cu_links x i \<noteq> Silent" using assms(2) by simp
  have False if w: "handlers (cu_nodes x ?k) c = Some (Waiting (d_id D i) jid input')" for c input'
  proof -
    from node_okD(4) [OF at_home(3) [OF assms(1) ns] w [unfolded d_id_def]]
    have c: "c < remotes" "d_home D c = ?k" by simp_all
    have "handlers (cu_nodes x ?k) i = None" using at_home(2) [OF assms(1) ns] assms(2,3) by simp
    with w have "c \<noteq> i" by (intro notI) simp
    have lc: "link_ok D c (cl_remote (cu_client x) ! c) (cu_links x c) (handlers (cu_nodes x ?k) c)"
      using assms(1) c by (auto simp: cluster_ok_def links_ok_def)
    then obtain st' cache' tries' where e: "cl_remote (cu_client x) ! c = Exchanging st' cache' jid input' tries'"
      using w by (cases "cl_remote (cu_client x) ! c") (auto split: link.splits)
    have "client_ok os (cu_client x)" using assms(1) by (simp add: cluster_ok_def)
    from exchanging_ids [OF this _ _ \<open>c \<noteq> i\<close> e assms(3)] c(1) at_home(1,4) [OF assms(1) ns]
    show False by simp
  qed
  then show ?thesis unfolding fresh_job_def by auto
qed

lemma cluster_ok_begin:
  assumes "cluster_ok os x" "cu_links x i = Request bs" "decode (d_split D) bs = Some (Inr (Some ev), [])"
    and "serve (d_stack D) (d_results D) (d_node_shell D (d_home D i)) (d_cores D (d_home D i))
           (cu_nodes x (d_home D i)) (Begin i ev) s"
  shows "cluster_ok os (x\<lparr>cu_nodes := (cu_nodes x)(d_home D i := s), cu_links := (cu_links x)(i := Handled)\<rparr>)"
proof -
  from request_decoded [OF assms(1-3)] obtain st jid input tries where
    e: "cl_remote (cu_client x) ! i = Exchanging st cache_new jid input tries" "ev = Input (d_id D i) jid input"
    by blast
  have ns: "cu_links x i \<noteq> Silent" using assms(2) by simp
  have "link_ok D i (cl_remote (cu_client x) ! i) Handled (handlers s i)"
    using at_home(2) [OF assms(1) ns] e serve_handlers [OF assms(4)] by simp
  with cluster_ok_node_step [OF assms(1) at_home(1) [OF assms(1) ns] assms(4)]
    request_fresh [OF assms(1,2) e(1)] e(2) show ?thesis by blast
qed

text \<open>The node knows the command, so that it does not answer at once.\<close>

lemma no_answer:
  assumes "cluster_ok os x" "cu_links x i = Request bs" "decode (d_split D) bs = Some (Inr (Some ev), [])"
  shows "\<not> serve (d_stack D) (d_results D) (d_node_shell D (d_home D i)) (d_cores D (d_home D i))
           (cu_nodes x (d_home D i)) (Reply i ev r) s"
proof
  assume st: "serve (d_stack D) (d_results D) (d_node_shell D (d_home D i)) (d_cores D (d_home D i))
           (cu_nodes x (d_home D i)) (Reply i ev r) s"
  have ns: "cu_links x i \<noteq> Silent" using assms(2) by simp
  from request_decoded [OF assms] obtain jid input where ev: "ev = Input (d_id D i) jid input"
    "handlers (cu_nodes x (d_home D i)) i = None" by blast
  have "get_unit (commands (cu_nodes x (d_home D i))) (d_id D i) \<noteq> None"
    using node_okD(2) [OF at_home(3) [OF assms(1) ns]] by (auto simp: live_def get_unit_table d_id_def)
  with st ev show False by cases simp_all
qed

lemma cluster_ok_reply:
  assumes "cluster_ok os x" "cu_links x i = Handled" "encode r [] = Some b"
    and "serve (d_stack D) (d_results D) (d_node_shell D (d_home D i)) (d_cores D (d_home D i))
           (cu_nodes x (d_home D i)) (Reply i ev r) s"
  shows "cluster_ok os (x\<lparr>cu_nodes := (cu_nodes x)(d_home D i := s), cu_links := (cu_links x)(i := Response b)\<rparr>)"
proof -
  have ns: "cu_links x i \<noteq> Silent" using assms(2) by simp
  from busy_slot [OF assms(1) ns] obtain st jid input tries where
    e: "cl_remote (cu_client x) ! i = Exchanging st cache_new jid input tries" by blast
  have w: "handlers (cu_nodes x (d_home D i)) i = Some (Waiting (d_id D i) jid input)" "idle_stream st"
    using at_home(2) [OF assms(1) ns] e assms(2) by simp_all
  have n: "reach (d_stack D) (d_results D) (d_node_shell D (d_home D i)) (d_cores D (d_home D i)) fresh_job
      (cu_nodes x (d_home D i))" "live (cu_nodes x (d_home D i)) (unat (d_id D i)) = Some (d_command D)"
    using node_okD(1,2) [OF at_home(3) [OF assms(1) ns]] by (simp_all add: d_id_def)
  from node.reply_genuine [OF n(1) assms(4) w(1)] n(2) obtain slot q where
    g: "slot < d_cores D (d_home D i)" "d_node_shell D (d_home D i) (render (d_command D) slot jid input) q"
      "ev = Input (d_id D i) jid input" "r = input_reply jid input (collect q)" by auto
  have "link_ok D i (cl_remote (cu_client x) ! i) (Response b) (handlers s i)"
    using e w(2) serve_handlers [OF assms(4)] g assms(3) by auto
  with cluster_ok_node_step [OF assms(1) at_home(1) [OF assms(1) ns] assms(4)] g(3)
  show ?thesis by (auto simp: fresh_job_def)
qed

lemma cluster_ok_foreign:
  assumes "cluster_ok os x" "serve (d_stack D) (d_results D) (d_node_shell D k) (d_cores D k) (cu_nodes x k) a s"
    and "foreign (length (cl_remote (cu_client x))) (d_node_id D k) a" "fresh_job (cu_nodes x k) a"
  shows "cluster_ok os (x\<lparr>cu_nodes := (cu_nodes x)(k := s)\<rparr>)"
proof -
  have len: "length (cl_remote (cu_client x)) = remotes" using assms(1) by (simp add: cluster_ok_def links_ok_def)
  have h: "handlers s i = handlers (cu_nodes x k) i" if "i < remotes" for i
    using serve_handlers [OF assms(2)] foreign_handler [OF assms(3)] that len by simp
  have "node_ok D remotes k s" if "node_ok D remotes k (cu_nodes x k)"
    using node_ok_serve [OF that assms(2,4)] foreign_command [OF assms(3)] len by blast
  with assms(1) h show ?thesis
    by (auto simp: cluster_ok_def links_ok_def nodes_ok_def)
qed

text \<open>A complete response to an input is its output, and reading it enters this output.\<close>

lemma response_exchange:
  assumes "cluster_ok os x" "cl_remote (cu_client x) ! i = Exchanging st cache jid input tries"
    and "cu_links x i = Response b" "arrives b chunks" "\<not> read_blocks cache (st\<lparr>incoming := map Inr chunks\<rparr>)"
  shows "\<exists>st' out. exchange (d_outputs D) (d_id D i) jid input (st\<lparr>incoming := map Inr chunks\<rparr>) outs cache
      = Some (Inr (), st', outs\<lparr>outputs_map := m_insert (d_outputs D) (outputs_map outs) jid out\<rparr>, cache_new)
    \<and> idle_stream st' \<and> node_output D i jid input out"
proof -
  let ?st = "st\<lparr>incoming := map Inr chunks\<rparr>"
  have ns: "cu_links x i \<noteq> Silent" using assms(3) by simp
  note home = at_home [OF assms(1) ns]
  from home(2) assms(2,3) obtain slot q where
    l: "idle_stream st" "cache = cache_new"
    and q: "slot < d_cores D (d_home D i)" "d_node_shell D (d_home D i) (render (d_command D) slot jid input) q"
    and b: "encode (input_reply jid input (collect q)) [] = Some b" by auto
  have "client_ok os (cu_client x)" "i < length (cl_remote (cu_client x))"
    using assms(1) home by (simp_all add: cluster_ok_def)
  from exchanging_sendable [OF this assms(2)] have "valid_str input" by simp
  with error_blocks [of jid input b chunks ?st] b l(2) assms(4,5) obtain w pout perr where
    cq: "q = Child w pout perr" by (cases q) auto
  have v: "valid_str (file_text f)" for f
    by (auto simp: file_text_def from_utf8_valid split: option.split)
  let ?out = "Outcome (exit_status w) (External (shown_text pout) (shown_text perr))"
  have "exchange (d_outputs D) (d_id D i) jid input ?st outs cache = Some (Inr (),
      ?st\<lparr>sent := sent ?st @ line_bytes (Input (d_id D i) jid input), incoming := []\<rparr>,
      outs\<lparr>outputs_map := m_insert (d_outputs D) (outputs_map outs) jid ?out\<rparr>, cache_new)"
    using exchange_response [of ?st chunks "[]" jid "exit_status w" "file_text pout" "file_text perr" b
        "d_outputs D" "d_id D i" jid input outs] l b cq assms(4) v
    by (simp add: idle_stream_def push_external_def shown_text_def)
  moreover have "node_output D i jid input ?out" using q cq unfolding node_output_def by blast
  ultimately show ?thesis using l by (intro exI conjI) (assumption, simp_all add: idle_stream_def)
qed

lemma answered_contents:
  assumes "i < length (cl_remote c)" "cl_remote c ! i = Exchanging st cache jid input tries"
  shows "fst (contents c) = add_mset (jid, input) (fst (contents (c\<lparr>cl_remote := (cl_remote c)[i := Looping st' cache'],
    cl_shared := (cl_shared c)\<lparr>outputs := outs\<rparr>\<rparr>)))"
proof -
  have "at_slots (cl_remote c) = add_mset (jid, input, tries) (at_slots ((cl_remote c)[i := Looping st' cache']))"
    using at_slots_update [OF assms(1), of "Looping st' cache'"] assms(2) by simp
  then show ?thesis by (simp add: contents_def held_remote_def)
qed

lemma cluster_ok_receive:
  assumes "cluster_ok os x" "cl_remote (cu_client x) ! i = Exchanging st cache jid input tries"
    and "cu_links x i = Response b" "arrives b chunks" "\<not> read_blocks cache (st\<lparr>incoming := map Inr chunks\<rparr>)"
    and "slot_spawn (d_outputs D) (d_failed D) (reliable_dial i) (d_id D i)
           (Exchanging (st\<lparr>incoming := map Inr chunks\<rparr>) cache jid input tries, cl_shared (cu_client x))
           Exchanged (pc, s)"
  shows "cluster_ok os
       (x\<lparr>cu_client := (cu_client x)\<lparr>cl_remote := (cl_remote (cu_client x))[i := pc], cl_shared := s\<rparr>,
          cu_links := (cu_links x)(i := Silent)\<rparr>)"
proof -
  let ?c = "cu_client x"
  have ns: "cu_links x i \<noteq> Silent" using assms(3) by simp
  note home = at_home [OF assms(1) ns]
  have ok: "client_ok os ?c" "errors (cl_shared ?c) = []" "i < length (cl_remote ?c)"
    using assms(1) home by (simp_all add: cluster_ok_def)
  let ?outs = "\<lambda>out. (outputs (cl_shared ?c))\<lparr>outputs_map :=
          m_insert (d_outputs D) (outputs_map (outputs (cl_shared ?c))) jid out\<rparr>"
  from response_exchange [OF assms(1-5)] obtain st' out where
    ex: "exchange (d_outputs D) (d_id D i) jid input (st\<lparr>incoming := map Inr chunks\<rparr>) (outputs (cl_shared ?c)) cache
      = Some (Inr (), st', ?outs out, cache_new)" "idle_stream st'" "node_output D i jid input out" by metis
  have pc: "pc = Looping st' cache_new" "s = (cl_shared ?c)\<lparr>outputs := ?outs out\<rparr>"
    using assms(6) ex(1) by (auto elim: spawn_ExchangingE)
  let ?c' = "?c\<lparr>cl_remote := (cl_remote ?c)[i := pc], cl_shared := s\<rparr>"
  have ct: "contents ?c = (add_mset (jid, input) (fst (contents ?c')), snd (contents ?c))"
    using answered_contents [OF ok(3) assms(2)] pc by (intro prod_eqI) simp_all
  have ct': "contents ?c' = (fst (contents ?c'), (snd (contents ?c))(jid \<mapsto> out))"
    using pc(2) by (simp add: contents_def finished_def lookup_insert)
  have "cluster_output D locals remotes jid input out"
    using home(1) ex(3) unfolding cluster_output_def by blast
  with jobs_ok_done [where E = "cluster_output D locals remotes" and jid = jid and input = input
      and b = "fst (contents ?c')" and m = "snd (contents ?c)", OF _ this few_inputs] ok(1) ct ct'
  have "client_ok os ?c'" using pc(2) unfolding client_ok_def by simp
  moreover have "errors s = []" using ok(2) pc(2) by simp
  moreover have "handlers (cu_nodes x (d_home D i)) i = None" using home(2) assms(2,3) by simp
  then have "links_ok (x\<lparr>cu_client := ?c', cu_links := (cu_links x)(i := Silent)\<rparr>)"
    using assms(1) pc(1) ex(2) ok(3) by (auto simp: cluster_ok_def links_ok_def nth_list_update)
  moreover have "set ((cl_remote ?c)[i := pc]) \<subseteq> insert pc (set (cl_remote ?c))" "kill s = kill (cl_shared ?c)"
    using pc(2) set_update_subset_insert by (metis, simp)
  then have "\<not> kill s \<longrightarrow> Returned \<notin> set ((cl_remote ?c)[i := pc])"
    using assms(1) pc(1) unfolding cluster_ok_def by auto
  ultimately show ?thesis using assms(1) by (simp add: cluster_ok_def nodes_ok_def)
qed

lemma cluster_ok_step:
  assumes "cluster_step D x l y" "cluster_ok os x"
  shows "cluster_ok (os @ (case l of None \<Rightarrow> [] | Some out \<Rightarrow> [out])) y"
  using assms(1)
proof cases
  case (cluster_client c)
  with cluster_ok_client [OF assms(2), of l c] show ?thesis by (simp add: solo_def)
next
  case (cluster_remote rs s)
  with cluster_ok_quiet [OF assms(2)] show ?thesis by simp
next
  case (cluster_send i st cache jid input tries cache' st' bs)
  with cluster_ok_send [OF assms(2)] show ?thesis by simp
next
  case (cluster_begin i bs ev s)
  with cluster_ok_begin [OF assms(2)] show ?thesis by simp
next
  case (cluster_answer i bs ev r s b)
  with no_answer [OF assms(2)] show ?thesis by blast
next
  case (cluster_reply i ev r s b)
  with cluster_ok_reply [OF assms(2)] show ?thesis by simp
next
  case (cluster_node k a s)
  with cluster_ok_foreign [OF assms(2)] show ?thesis by simp
next
  case (cluster_receive i st cache jid input tries b chunks pc s)
  with cluster_ok_receive [OF assms(2)] show ?thesis by simp
qed

lemma cluster_ok_run: "cluster_run D x os' y \<Longrightarrow> cluster_ok os x \<Longrightarrow> cluster_ok (os @ os') y"
  using trace_invariant [where P = cluster_ok and step = "cluster_step D"] cluster_ok_step by blast

end

end
