(* ===== verification/Cluster_Live.thy ===== *)
theory Cluster_Live
  imports Cluster_System
begin

text \<open>
  What the client and its nodes can always still do: a request under way can be handled,
  answered and read, so that every job can be brought to its end, and the main loop can
  then show all outputs.
\<close>

context distributed
begin

subsection \<open>One exchange\<close>

lemma quiet_move: "cluster_run D x [] y \<Longrightarrow> cluster_step D y None z \<Longrightarrow> cluster_run D x [] z"
  using trace_run.trace_move [of "cluster_step D" x "[]" y None z] by simp

text \<open>Work of a node's slots, and what its other handlers do, is work of the cluster.\<close>

lemma node_move:
  assumes "cluster_run D x [] (x\<lparr>cu_nodes := (cu_nodes x)(k := s)\<rparr>)"
    and "serve (d_stack D) (d_results D) (d_node_shell D k) (d_cores D k) s a s'"
    and "foreign (length (cl_remote (cu_client x))) (d_node_id D k) a" "fresh_job s a"
  shows "cluster_run D x [] (x\<lparr>cu_nodes := (cu_nodes x)(k := s')\<rparr>)"
proof -
  let ?x = "x\<lparr>cu_nodes := (cu_nodes x)(k := s)\<rparr>"
  have "cluster_step D ?x None (?x\<lparr>cu_nodes := (cu_nodes ?x)(k := s')\<rparr>)"
    using assms(2-4) by (intro cluster_node [where a = a]) simp_all
  moreover have "?x\<lparr>cu_nodes := (cu_nodes ?x)(k := s')\<rparr> = x\<lparr>cu_nodes := (cu_nodes x)(k := s')\<rparr>"
    by (cases x) simp
  ultimately show ?thesis using quiet_move [OF assms(1)] by metis
qed

lemma node_work:
  assumes "node.work_steps (d_node_shell D k) (d_cores D k) (cu_nodes x k) s"
  shows "cluster_run D x [] (x\<lparr>cu_nodes := (cu_nodes x)(k := s)\<rparr>)"
  using assms unfolding node.work_steps_def
proof (induction rule: rtranclp_induct)
  case base
  then show ?case using trace_run.trace_stay [of "cluster_step D" x] by simp
next
  case (step s s')
  show ?case by (rule node_move [OF step(3,2)]) (simp_all add: fresh_job_def)
qed

text \<open>A stop that holds the lock can be brought to its end.\<close>

lemma writer_leaves:
  assumes "cluster_ok os x" "i < remotes" "\<forall>line. \<exists>r. d_node_shell D (d_home D i) line r"
  shows "\<exists>s. cluster_run D x [] (x\<lparr>cu_nodes := (cu_nodes x)(d_home D i := s)\<rparr>) \<and> \<not> writer s"
proof -
  let ?k = "d_home D i" and ?sh = "d_node_shell D (d_home D i)" and ?n = "d_cores D (d_home D i)"
  let ?s = "cu_nodes x ?k"
  have nok: "node_ok D remotes ?k ?s" using assms(1,2) by (simp add: cluster_ok_def nodes_ok_def)
  note N = node_okD [OF nok]
  show ?thesis
  proof (cases "writer ?s")
    case False
    then show ?thesis using trace_run.trace_stay [of "cluster_step D" x]
      by (intro exI [of _ ?s]) simp
  next
    case True
    with reach_inv [OF N(1)] obtain c cid where c: "handlers ?s c = Some (Stopping cid)"
      by (auto simp: lock_inv_def stopping_def)
    from node.stopping_answered [OF N(1) c assms(3)] obtain s' s'' where
      w: "node.work_steps ?sh ?n ?s s'"
      and r: "serve (d_stack D) (d_results D) ?sh ?n s' (Reply c (StopJob cid) (Info (lit ''deleted job''))) s''"
      by blast
    have h: "handlers s' c = Some (Stopping cid)" using node.work_handlers [OF w] c by simp
    from r h have "\<not> writer s''" by cases simp_all
    moreover have "cluster_run D x [] (x\<lparr>cu_nodes := (cu_nodes x)(?k := s'')\<rparr>)"
      using N(3) [OF c] assms(1)
      by (intro node_move [OF node_work [OF w] r]) (simp_all add: cluster_ok_def links_ok_def fresh_job_def)
    ultimately show ?thesis by blast
  qed
qed

lemma request_handled:
  assumes "cluster_ok os x" "cu_links x i = Request bs" "\<forall>line. \<exists>r. d_node_shell D (d_home D i) line r"
  shows "\<exists>y. cluster_run D x [] y \<and> cu_client y = cu_client x \<and> cu_links y i = Handled"
proof -
  have "cu_links x i \<noteq> Silent" using assms(2) by simp
  from writer_leaves [OF assms(1) at_home(1) [OF assms(1) this] assms(3)] obtain s where
    s: "cluster_run D x [] (x\<lparr>cu_nodes := (cu_nodes x)(d_home D i := s)\<rparr>)" "\<not> writer s" by blast
  let ?x = "x\<lparr>cu_nodes := (cu_nodes x)(d_home D i := s)\<rparr>"
  have ok: "cluster_ok os ?x" using cluster_ok_run [OF s(1) assms(1)] by simp
  have ns: "cu_links ?x i \<noteq> Silent" using assms(2) by simp
  note home = at_home [OF ok ns]
  from busy_slot [OF ok ns] obtain st jid input tries where
    e: "cl_remote (cu_client ?x) ! i = Exchanging st cache_new jid input tries" by blast
  have cl: "client_ok os (cu_client ?x)" "i < length (cl_remote (cu_client ?x))"
    using ok home by (simp_all add: cluster_ok_def)
  have b: "bs = line_bytes (Input (d_id D i) jid input)" "handlers s i = None"
    using home(2) e assms(2) by simp_all
  from decode_line [OF splits exchanging_sendable [OF cl e], of "d_id D i" "[]"] b(1)
  have dec: "decode (d_split D) bs = Some (Inr (Some (Input (d_id D i) jid input)), [])" by simp
  from node_okD(2) [OF home(3)] obtain u where "get_unit (commands s) (d_id D i) = Some u"
    by (auto simp: live_def get_unit_table d_id_def)
  from serve_input [OF b(2) s(2) this] obtain s' where
    "serve (d_stack D) (d_results D) (d_node_shell D (d_home D i)) (d_cores D (d_home D i))
       (cu_nodes ?x (d_home D i)) (Begin i (Input (d_id D i) jid input)) s'" by fastforce
  from cluster_begin [OF _ dec this] assms(2) obtain y where
    "cluster_step D ?x None y" "cu_client y = cu_client x" "cu_links y i = Handled" by fastforce
  with quiet_move [OF s(1)] show ?thesis by blast
qed

lemma handled_answered:
  assumes "cluster_ok os x" "cu_links x i = Handled" "\<forall>line. \<exists>r. d_node_shell D (d_home D i) line r"
    and "d_cores D (d_home D i) \<noteq> 0"
  shows "\<exists>y b. cluster_run D x [] y \<and> cu_client y = cu_client x \<and> cu_links y i = Response b"
proof -
  let ?k = "d_home D i"
  have ns: "cu_links x i \<noteq> Silent" using assms(2) by simp
  from busy_slot [OF assms(1) ns] obtain st jid input tries where
    e: "cl_remote (cu_client x) ! i = Exchanging st cache_new jid input tries" by blast
  have h: "handlers (cu_nodes x ?k) i = Some (Waiting (d_id D i) jid input)"
    using at_home(2) [OF assms(1) ns] e assms(2) by simp
  note R = node_okD(1) [OF at_home(3) [OF assms(1) ns]]
  from node.waiting_answered [OF R h assms(3,4)] obtain s r s' where
    w: "node.work_steps (d_node_shell D ?k) (d_cores D ?k) (cu_nodes x ?k) s"
    and r: "serve (d_stack D) (d_results D) (d_node_shell D ?k) (d_cores D ?k) s
      (Reply i (Input (d_id D i) jid input) r) s'" by blast
  have "handlers s i = Some (Waiting (d_id D i) jid input)" using node.work_handlers [OF w] h by simp
  from node.reply_genuine [OF node.work_reach [OF w R] r this] obtain q where
    "r = input_reply jid input (collect q)" by blast
  moreover have "\<exists>b. encode (input_reply jid input (collect q)) [] = Some b" for q
    by (cases q) (simp_all add: encode_def fmt_response_def escape_form)
  ultimately obtain b where b: "encode r [] = Some b" by blast
  let ?x = "x\<lparr>cu_nodes := (cu_nodes x)(?k := s)\<rparr>"
  from r have "serve (d_stack D) (d_results D) (d_node_shell D ?k) (d_cores D ?k) (cu_nodes ?x ?k)
      (Reply i (Input (d_id D i) jid input) r) s'" by simp
  from cluster_reply [OF _ this b] assms(2) obtain y where
    "cluster_step D ?x None y" "cu_client y = cu_client x" "cu_links y i = Response b" by fastforce
  with quiet_move [OF node_work [OF w]] show ?thesis by blast
qed

text \<open>The nodes that this asks for: a shell that starts and ends every command, and a core.\<close>

definition nodes_able :: bool where
  "nodes_able \<longleftrightarrow> (\<forall>i < remotes. d_cores D (d_home D i) \<noteq> 0
     \<and> (\<forall>line. (\<exists>r. d_node_shell D (d_home D i) line r) \<and> \<not> d_node_shell D (d_home D i) line SpawnErr))"

lemma response_read:
  assumes "cluster_ok os x" "cu_links x i = Response b" nodes_able
  shows "\<exists>y. cluster_step D x None y \<and> fst (contents (cu_client y)) \<subset># fst (contents (cu_client x))
    \<and> cl_source (cu_client y) = cl_source (cu_client x) \<and> cl_main (cu_client y) = cl_main (cu_client x)"
proof -
  let ?c = "cu_client x"
  have ns: "cu_links x i \<noteq> Silent" using assms(2) by simp
  note home = at_home [OF assms(1) ns]
  from busy_slot [OF assms(1) ns] obtain st jid input tries where
    e: "cl_remote ?c ! i = Exchanging st cache_new jid input tries" by blast
  have i: "i < length (cl_remote ?c)" using home by simp
  from home(2) e assms(2) obtain line q where q: "d_node_shell D (d_home D i) line q"
    "encode (input_reply jid input (collect q)) [] = Some b" by auto
  with assms(3) home(1) obtain w pout perr where "q = Child w pout perr"
    unfolding nodes_able_def by (cases q) auto
  with q have en: "encode (Output jid (exit_status w) (file_text pout) (file_text perr)) [] = Some b" by simp
  have v: "valid_str (file_text f)" for f
    by (auto simp: file_text_def from_utf8_valid split: option.split)
  have "b \<noteq> []" using en unfolding encode_output by auto
  note ar = arrives_one [OF this]
  have n3: "\<not> read_blocks cache_new (st\<lparr>incoming := map Inr [b]\<rparr>)"
    by (rule output_goes_through [OF en ar v v]) simp
  from response_exchange [OF assms(1) e assms(2) ar n3, of "outputs (cl_shared ?c)"] obtain st' outs where
    ex: "exchange (d_outputs D) (d_id D i) jid input (st\<lparr>incoming := map Inr [b]\<rparr>) (outputs (cl_shared ?c)) cache_new
      = Some (Inr (), st', outs, cache_new)" by blast
  let ?y = "x\<lparr>cu_client := ?c\<lparr>cl_remote := (cl_remote ?c)[i := Looping st' cache_new],
      cl_shared := (cl_shared ?c)\<lparr>outputs := outs\<rparr>\<rparr>, cu_links := (cu_links x)(i := Silent)\<rparr>"
  have "cluster_step D x None ?y"
    by (rule cluster_receive [OF i e assms(2) ar n3 answered [OF ex]])
  then show ?thesis using answered_contents [OF i e, where st' = st' and cache' = cache_new and outs = outs]
    by (intro exI [of _ ?y]) simp
qed

lemma exchange_completes:
  assumes "cluster_ok os x" nodes_able "i < remotes" "cl_remote (cu_client x) ! i = Exchanging st cache jid input tries"
  shows "\<exists>y. cluster_run D x [] y \<and> fst (contents (cu_client y)) \<subset># fst (contents (cu_client x))
    \<and> cl_source (cu_client y) = cl_source (cu_client x) \<and> cl_main (cu_client y) = cl_main (cu_client x)"
proof -
  have able: "\<forall>line. \<exists>r. d_node_shell D (d_home D i) line r" "d_cores D (d_home D i) \<noteq> 0"
    using assms(2,3) by (auto simp: nodes_able_def)
  have len: "i < length (cl_remote (cu_client x))" and lk: "link_ok D i (cl_remote (cu_client x) ! i)
      (cu_links x i) (handlers (cu_nodes x (d_home D i)) i)"
    using assms(1,3) by (simp_all add: cluster_ok_def links_ok_def)
  let ?goal = "\<lambda>x'. \<exists>y. cluster_run D x' [] y \<and> fst (contents (cu_client y)) \<subset># fst (contents (cu_client x'))
    \<and> cl_source (cu_client y) = cl_source (cu_client x') \<and> cl_main (cu_client y) = cl_main (cu_client x')"
  have further: "?goal x1" if "cluster_run D x1 [] x2" "cu_client x2 = cu_client x1" "?goal x2" for x1 x2
    using that trace_quiet_runs [of "cluster_step D" x1 x2] by auto
  have response: "?goal x'" if "cluster_ok os x'" "cu_links x' i = Response b" for x' b
    using response_read [OF that assms(2)] quiet_move [OF trace_run.trace_stay] by blast
  have handled: "?goal x'" if "cluster_ok os x'" "cu_links x' i = Handled" for x'
    using handled_answered [OF that able] cluster_ok_run [OF _ that(1)] response further by fastforce
  have request: "?goal x'" if "cluster_ok os x'" "cu_links x' i = Request bs" for x' bs
    using request_handled [OF that able(1)] cluster_ok_run [OF _ that(1)] handled further by fastforce
  show ?thesis
  proof (cases "cu_links x i")
    case Silent
    have "idle_stream st" "cache = cache_new" using lk assms(4) Silent by simp_all
    with write_instruction_ok [of st "d_id D i" jid input] cluster_send [OF len assms(4) Silent]
    obtain y bs where y: "cluster_step D x None y" "cu_client y = cu_client x" "cu_links y i = Request bs"
      by (fastforce simp: idle_stream_def)
    have r: "cluster_run D x [] y" by (rule quiet_move [OF trace_run.trace_stay y(1)])
    with cluster_ok_run [OF r assms(1)] request y(2,3) further show ?thesis by fastforce
  qed (use request handled response assms(1) in blast)+
qed

subsection \<open>A slot takes an input\<close>

text \<open>A slot moved to another place, nothing else.\<close>

definition slot_at :: "nat \<Rightarrow> ('m, 'f, 's, 'n) cluster \<Rightarrow> remote_pc \<Rightarrow> ('m, 'f, 's, 'n) cluster" where
  "slot_at i x pc = x\<lparr>cu_client := (cu_client x)\<lparr>cl_remote := (cl_remote (cu_client x))[i := pc]\<rparr>\<rparr>"

lemma slot_at_simps [simp]:
  "cl_remote (cu_client (slot_at i x pc)) = (cl_remote (cu_client x))[i := pc]"
  "cl_shared (cu_client (slot_at i x pc)) = cl_shared (cu_client x)"
  "cl_source (cu_client (slot_at i x pc)) = cl_source (cu_client x)"
  "cl_main (cu_client (slot_at i x pc)) = cl_main (cu_client x)"
  "cl_local (cu_client (slot_at i x pc)) = cl_local (cu_client x)"
  "slot_at i (slot_at i x pc) pc' = slot_at i x pc'"
  by (simp_all add: slot_at_def)

lemma slot_at_same: "slot_at i x (cl_remote (cu_client x) ! i) = x"
  by (simp add: slot_at_def)

lemma slot_moves:
  assumes "i < length (cl_remote (cu_client x))"
    and "slot_spawn (d_outputs D) (d_failed D) (reliable_dial i) (d_id D i)
      (cl_remote (cu_client x) ! i, cl_shared (cu_client x)) Quiet (pc, s)"
  shows "cluster_step D x None (x\<lparr>cu_client := (cu_client x)\<lparr>cl_remote := (cl_remote (cu_client x))[i := pc],
      cl_shared := s\<rparr>\<rparr>)"
    and "contents ((cu_client x)\<lparr>cl_remote := (cl_remote (cu_client x))[i := pc], cl_shared := s\<rparr>)
      = contents (cu_client x)"
  using remote_thread [where dial = reliable_dial and cid = "d_id D", OF assms]
  by (rule cluster_remote, rule contents_quiet)

lemma slot_at_move:
  assumes "cluster_run D x [] (slot_at i x pc)" "i < length (cl_remote (cu_client x))"
    and "slot_spawn (d_outputs D) (d_failed D) (reliable_dial i) (d_id D i) (pc, cl_shared (cu_client x))
      Quiet (pc', cl_shared (cu_client x))"
  shows "cluster_run D x [] (slot_at i x pc')"
proof -
  have "cluster_step D (slot_at i x pc) None ((slot_at i x pc)\<lparr>cu_client := (cu_client (slot_at i x pc))
      \<lparr>cl_remote := (cl_remote (cu_client (slot_at i x pc)))[i := pc'], cl_shared := cl_shared (cu_client (slot_at i x pc))\<rparr>\<rparr>)"
    using assms(2,3) by (intro slot_moves(1)) simp_all
  moreover have "(slot_at i x pc)\<lparr>cu_client := (cu_client (slot_at i x pc))
      \<lparr>cl_remote := (cl_remote (cu_client (slot_at i x pc)))[i := pc'], cl_shared := cl_shared (cu_client (slot_at i x pc))\<rparr>\<rparr>
    = slot_at i x pc'"
    by (simp add: slot_at_def)
  ultimately show ?thesis using quiet_move [OF assms(1)] by metis
qed

lemma to_next_input:
  assumes "cluster_ok os x" "0 < remotes" "\<not> kill (cl_shared (cu_client x))"
    and "\<nexists>st cache jid input tries. cl_remote (cu_client x) ! 0 = Exchanging st cache jid input tries"
  shows "\<exists>st cache. cluster_run D x [] (slot_at 0 x (NextInput st cache))"
proof -
  let ?c = "cu_client x"
  have len: "0 < length (cl_remote ?c)" and er: "errors (cl_shared ?c) = []"
    using assms(1,2) by (simp_all add: cluster_ok_def links_ok_def)
  have stay: "cluster_run D x [] (slot_at 0 x (cl_remote ?c ! 0))"
    unfolding slot_at_same by (rule trace_run.trace_stay)
  have next_input: "cluster_run D x [] (slot_at 0 x (NextInput st cache))"
    if "cluster_run D x [] (slot_at 0 x (Looping st cache))" for st cache
    by (rule slot_at_move [OF that len looping [OF assms(3)]])
  have "Returned \<notin> set (cl_remote ?c)" using assms(1,3) by (simp add: cluster_ok_def)
  then have "cl_remote ?c ! 0 \<noteq> Returned" using nth_mem [OF len] by metis
  moreover have "link_ok D 0 (cl_remote ?c ! 0) (cu_links x 0) (handlers (cu_nodes x (d_home D 0)) 0)"
    using assms(1,2) by (simp add: cluster_ok_def links_ok_def)
  then have "cl_remote ?c ! 0 \<noteq> Ended" by (intro notI) simp
  ultimately consider "cl_remote ?c ! 0 = Connecting" | st cache where "cl_remote ?c ! 0 = Looping st cache"
    | st cache where "cl_remote ?c ! 0 = NextInput st cache" | st cache where "cl_remote ?c ! 0 = NextError st cache"
    using assms(4) by (cases "cl_remote ?c ! 0") auto
  then show ?thesis
  proof cases
    case 1
    let ?st = "\<lparr>incoming = [], write_answers = [], sent = []\<rparr>"
    have "reliable_dial 0 (Done (Inr ?st))" by (simp add: reliable_dial_def idle_stream_def)
    note connects = connected [where dial = "reliable_dial 0", OF this]
    from slot_at_move [OF stay [unfolded 1] len connects] next_input show ?thesis by blast
  next
    case (2 st cache)
    with stay next_input show ?thesis by metis
  next
    case (3 st cache)
    with stay show ?thesis by metis
  next
    case (4 st cache)
    from slot_at_move [OF stay [unfolded 4] len no_error [OF er]] next_input show ?thesis by blast
  qed
qed

lemma takes_input:
  assumes "cluster_ok os x" "0 < remotes" "\<not> kill (cl_shared (cu_client x))"
    and "\<nexists>st cache jid input tries. cl_remote (cu_client x) ! 0 = Exchanging st cache jid input tries"
    and "queue (inputs (cl_shared (cu_client x))) \<noteq> []" "pc_pending (cl_remote (cu_client x) ! 0) = {#}"
  shows "\<exists>y st cache jid input tries. cluster_run D x [] y \<and> contents (cu_client y) = contents (cu_client x)
    \<and> cl_source (cu_client y) = cl_source (cu_client x) \<and> cl_main (cu_client y) = cl_main (cu_client x)
    \<and> cl_remote (cu_client y) ! 0 = Exchanging st cache jid input tries"
proof -
  let ?c = "cu_client x"
  have len: "0 < length (cl_remote ?c)" using assms(1,2) by (simp add: cluster_ok_def links_ok_def)
  from to_next_input [OF assms(1-4)] obtain st cache where
    r: "cluster_run D x [] (slot_at 0 x (NextInput st cache))" by blast
  let ?x = "slot_at 0 x (NextInput st cache)"
  obtain jid input q where g: "Client_get_job (inputs (cl_shared (cu_client ?x))) = (Some (jid, input), q)"
    using assms(5) by (cases "queue (inputs (cl_shared ?c))") (auto simp: Client_get_job_def)
  have "contents (cu_client ?x) = contents ?c"
    using at_slots_update [OF len, of "NextInput st cache"] assms(6)
    by (simp add: contents_def held_remote_def)
  with slot_moves [of 0 ?x "Exchanging st cache jid input 0"] first_try [OF g] len
    quiet_move [OF r]
  show ?thesis
    by (intro exI [of _ "?x\<lparr>cu_client := (cu_client ?x)\<lparr>cl_remote := (cl_remote (cu_client ?x))[0 := Exchanging st cache jid input 0],
      cl_shared := (cl_shared (cu_client ?x))\<lparr>inputs := q\<rparr>\<rparr>\<rparr>"] exI [of _ st] exI [of _ cache] exI [of _ jid]
        exI [of _ input] exI [of _ 0]) simp
qed

subsection \<open>All jobs\<close>

lemma solo_cluster: "trace_run solo (cu_client x) os c \<Longrightarrow> cluster_run D x os (x\<lparr>cu_client := c\<rparr>)"
proof -
  assume r: "trace_run solo (cu_client x) os c"
  have "cluster_run D (x\<lparr>cu_client := cu_client x\<rparr>) os (x\<lparr>cu_client := c\<rparr>)"
  proof (rule trace_lift [where step = solo and f = "\<lambda>c. x\<lparr>cu_client := c\<rparr>", OF r])
    fix c l c'
    assume s: "solo c l c'"
    have "cluster_step D (x\<lparr>cu_client := c\<rparr>) l (x\<lparr>cu_client := c\<rparr>\<lparr>cu_client := c'\<rparr>)"
      using s by (intro cluster_client) (simp_all add: solo_def)
    then show "cluster_step D (x\<lparr>cu_client := c\<rparr>) l (x\<lparr>cu_client := c'\<rparr>)" by simp
  qed
  then show ?thesis by simp
qed

lemma at_slots_none: "(\<forall>pc \<in> set ts. pc_pending pc = {#}) \<Longrightarrow> at_slots ts = {#}"
  unfolding at_slots_def by (induction ts) auto

definition slots_able :: bool where
  "slots_able \<longleftrightarrow> nodes_able \<and> (\<forall>line. \<exists>r. d_shell D line r) \<and> 0 < locals + remotes"

lemma drain_one:
  assumes "cluster_ok os x" slots_able "\<not> at_end (cl_main (cu_client x))" "fst (contents (cu_client x)) \<noteq> {#}"
  shows "\<exists>y. cluster_run D x [] y \<and> fst (contents (cu_client y)) \<subset># fst (contents (cu_client x))
    \<and> cl_source (cu_client y) = cl_source (cu_client x) \<and> cl_main (cu_client y) = cl_main (cu_client x)"
proof (cases "\<exists>i st cache jid input tries. i < remotes \<and> cl_remote (cu_client x) ! i = Exchanging st cache jid input tries")
  case True
  with exchange_completes [OF assms(1)] assms(2) show ?thesis unfolding slots_able_def by blast
next
  case False
  let ?c = "cu_client x"
  have len: "length (cl_remote ?c) = remotes" and er: "errors (cl_shared ?c) = []" and ok: "client_ok os ?c"
    using assms(1) by (simp_all add: cluster_ok_def links_ok_def)
  have idle: "pc_pending (cl_remote ?c ! i) = {#}" if "i < remotes" for i
    using False that by (cases "cl_remote ?c ! i") auto
  then have "at_slots (cl_remote ?c) = {#}"
    using len by (intro at_slots_none) (auto simp: in_set_conv_nth)
  with er have h: "held_remote (cl_remote ?c) (cl_shared ?c) = {#}" by (simp add: held_remote_def)
  show ?thesis
  proof (cases "0 < locals")
    case True
    then have "local_slots.alive (cl_local ?c) (cl_shared ?c)"
      using ok assms(3) by (auto simp: client_ok_def local_slots.alive_def)
    from local_slots.drain [OF this] assms(2) obtain ts s where
      d: "(pool_step Client_get_job (Client_Outputs_insert (d_outputs D)) (d_shell D) (d_number D) (d_command D))\<^sup>*\<^sup>*
        (cl_local ?c, cl_shared ?c) (ts, s)" "local_slots.held ts s = {#}"
      unfolding slots_able_def by blast
    let ?y = "x\<lparr>cu_client := ?c\<lparr>cl_local := ts, cl_shared := s\<rparr>\<rparr>"
    have r: "cluster_run D x [] ?y" using solo_cluster [OF slots_run [OF d(1)]] by simp
    from cluster_ok_run [OF r assms(1)] have "errors s = []" by (simp add: cluster_ok_def)
    then have "held_remote (cl_remote ?c) s = {#}" using h by (simp add: held_remote_def)
    then have "fst (contents (cu_client ?y)) = {#}"
      using d(2) by (simp add: contents_def local_slots.held_def queue_jobs_def)
    with r assms(4) show ?thesis by (intro exI [of _ ?y]) (simp add: subset_mset.less_le)
  next
    case False
    then have rm: "0 < remotes" "cl_local ?c = []"
      using assms(2) ok unfolding slots_able_def client_ok_def by simp_all
    then have q: "queue (inputs (cl_shared ?c)) \<noteq> []"
      using assms(4) h by (auto simp: contents_def running_def)
    have k: "\<not> kill (cl_shared ?c)" using ok assms(3) by (simp add: client_ok_def)
    have "\<nexists>st cache jid input tries. cl_remote ?c ! 0 = Exchanging st cache jid input tries"
      using idle [OF rm(1)] by auto
    from takes_input [OF assms(1) rm(1) k this q idle [OF rm(1)]] obtain y st cache jid input tries where
      y: "cluster_run D x [] y" "contents (cu_client y) = contents ?c" "cl_source (cu_client y) = cl_source ?c"
        "cl_main (cu_client y) = cl_main ?c" "cl_remote (cu_client y) ! 0 = Exchanging st cache jid input tries"
      by blast
    have "cluster_ok os y" using cluster_ok_run [OF y(1) assms(1)] by simp
    from exchange_completes [OF this _ rm(1) y(5)] assms(2) obtain z where
      "cluster_run D y [] z" "fst (contents (cu_client z)) \<subset># fst (contents ?c)"
      "cl_source (cu_client z) = cl_source ?c" "cl_main (cu_client z) = cl_main ?c"
      unfolding slots_able_def using y(2-4) by auto
    with trace_quiet_runs [OF y(1)] show ?thesis by blast
  qed
qed

lemma drain_all:
  assumes "cluster_ok os x" slots_able "\<not> at_end (cl_main (cu_client x))"
  shows "\<exists>y. cluster_run D x [] y \<and> fst (contents (cu_client y)) = {#}
    \<and> cl_source (cu_client y) = cl_source (cu_client x) \<and> cl_main (cu_client y) = cl_main (cu_client x)"
  using assms(1,3)
proof (induction "size (fst (contents (cu_client x)))" arbitrary: x rule: less_induct)
  case less
  show ?case
  proof (cases "fst (contents (cu_client x)) = {#}")
    case True
    then show ?thesis using trace_run.trace_stay [of "cluster_step D" x] by blast
  next
    case False
    from drain_one [OF less.prems(1) assms(2) less.prems(2) False] obtain y where
      y: "cluster_run D x [] y" "fst (contents (cu_client y)) \<subset># fst (contents (cu_client x))"
        "cl_source (cu_client y) = cl_source (cu_client x)" "cl_main (cu_client y) = cl_main (cu_client x)"
      by blast
    have "cluster_ok os y" using cluster_ok_run [OF y(1) less.prems(1)] by simp
    from less.hyps [OF mset_subset_size [OF y(2)] this] less.prems(2) y(3,4) obtain z where
      "cluster_run D y [] z" "fst (contents (cu_client z)) = {#}" "cl_source (cu_client z) = cl_source (cu_client x)"
      "cl_main (cu_client z) = cl_main (cu_client x)" by auto
    with trace_quiet_runs [OF y(1)] show ?thesis by blast
  qed
qed

lemma cluster_settles:
  assumes "cluster_ok os x" slots_able "\<not> at_end (cl_main (cu_client x))"
  shows "\<exists>y. cluster_run D x [] y \<and> settled os (cu_client y) \<and> cl_main (cu_client y) = cl_main (cu_client x)"
proof -
  from source_to_end obtain c1 where c1: "trace_run solo (cu_client x) [] c1" "cl_source c1 = []"
    "cl_main c1 = cl_main (cu_client x)" by blast
  note r1 = solo_cluster [OF c1(1)]
  have "cluster_ok os (x\<lparr>cu_client := c1\<rparr>)" using cluster_ok_run [OF r1 assms(1)] by simp
  from drain_all [OF this assms(2)] assms(3) c1(2,3) obtain y where
    y: "cluster_run D (x\<lparr>cu_client := c1\<rparr>) [] y" "fst (contents (cu_client y)) = {#}"
      "cl_source (cu_client y) = []" "cl_main (cu_client y) = cl_main (cu_client x)" by auto
  note r2 = trace_quiet_runs [OF r1 y(1)]
  have "client_ok os (cu_client y)" using cluster_ok_run [OF r2 assms(1)] by (simp add: cluster_ok_def)
  with r2 y(2-4) assms(3) show ?thesis by (intro exI [of _ y]) (simp add: settled_def)
qed

lemma settled_length: "settled os c \<Longrightarrow> length os \<le> length ls"
  using shown_bound [OF _ few_inputs] unfolding settled_def client_ok_def by blast

lemma cluster_shows_all:
  assumes "cluster_ok os x" slots_able
  shows "\<exists>os' y. cluster_run D x os' y \<and> length (os @ os') = length ls"
proof (cases "at_end (cl_main (cu_client x))")
  case True
  with assms(1) trace_run.trace_stay [of "cluster_step D" x] show ?thesis
    by (intro exI [of _ "[]"] exI [of _ x]) (simp add: cluster_ok_def client_ok_def)
next
  case False
  from cluster_settles [OF assms False] obtain y where
    y: "cluster_run D x [] y" "settled os (cu_client y)" by blast
  from show_rest [OF y(2) settled_length [OF y(2)]] obtain os' c' where
    "trace_run solo (cu_client y) os' c'" "length (os @ os') = length ls" by blast
  with trace_quiet_runs [OF y(1) solo_cluster] show ?thesis by blast
qed

subsection \<open>The end\<close>

text \<open>With the kill flag set and no input left, a slot of a node returns.\<close>

lemma slot_returns:
  assumes "cluster_ok os x" "i < remotes" "kill (cl_shared (cu_client x))"
    and "queue (inputs (cl_shared (cu_client x))) = []" "pc_pending (cl_remote (cu_client x) ! i) = {#}"
  shows "cluster_run D x [] (slot_at i x Returned)"
proof -
  let ?c = "cu_client x"
  have len: "i < length (cl_remote ?c)" and er: "errors (cl_shared ?c) = []"
    using assms(1,2) by (simp_all add: cluster_ok_def links_ok_def)
  have stay: "cluster_run D x [] (slot_at i x (cl_remote ?c ! i))"
    unfolding slot_at_same by (rule trace_run.trace_stay)
  have loop: "cluster_run D x [] (slot_at i x Returned)"
    if "cluster_run D x [] (slot_at i x (Looping st cache))" for st cache
    by (rule slot_at_move [OF that len killed [OF assms(3)]])
  have error: "cluster_run D x [] (slot_at i x Returned)"
    if "cluster_run D x [] (slot_at i x (NextError st cache))" for st cache
    by (rule loop [OF slot_at_move [OF that len no_error [OF er]]])
  have "Client_get_job (inputs (cl_shared ?c)) = (None, inputs (cl_shared ?c))"
    using assms(4) by (simp add: Client_get_job_def)
  note none = no_input [where s = "cl_shared ?c", OF this]
  have "link_ok D i (cl_remote ?c ! i) (cu_links x i) (handlers (cu_nodes x (d_home D i)) i)"
    using assms(1,2) by (simp add: cluster_ok_def links_ok_def)
  then have "cl_remote ?c ! i \<noteq> Ended" by (intro notI) simp
  with assms(5) consider "cl_remote ?c ! i = Connecting" | st cache where "cl_remote ?c ! i = Looping st cache"
    | st cache where "cl_remote ?c ! i = NextInput st cache" | st cache where "cl_remote ?c ! i = NextError st cache"
    | "cl_remote ?c ! i = Returned"
    by (cases "cl_remote ?c ! i") auto
  then show ?thesis
  proof cases
    case 1
    let ?st = "\<lparr>incoming = [], write_answers = [], sent = []\<rparr>"
    have "reliable_dial i (Done (Inr ?st))" by (simp add: reliable_dial_def idle_stream_def)
    note connects = connected [where dial = "reliable_dial i", OF this]
    show ?thesis by (rule loop [OF slot_at_move [OF stay [unfolded 1] len connects]])
  next
    case (3 st cache)
    from none have "slot_spawn (d_outputs D) (d_failed D) (reliable_dial i) (d_id D i)
      (NextInput st cache, cl_shared ?c) Quiet (NextError st cache, cl_shared ?c)" by simp
    from error [OF slot_at_move [OF stay [unfolded 3] len this]] show ?thesis .
  qed (use stay loop error in metis)+
qed

lemma slots_return:
  assumes "cluster_ok os x" "kill (cl_shared (cu_client x))" "fst (contents (cu_client x)) = {#}" "n \<le> remotes"
  shows "\<exists>rs. cluster_run D x [] (x\<lparr>cu_client := (cu_client x)\<lparr>cl_remote := rs\<rparr>\<rparr>) \<and> length rs = remotes
    \<and> (\<forall>i < n. rs ! i = Returned) \<and> (\<forall>i. n \<le> i \<longrightarrow> rs ! i = cl_remote (cu_client x) ! i)"
  using assms(4)
proof (induction n)
  case 0
  have "length (cl_remote (cu_client x)) = remotes" using assms(1) by (simp add: cluster_ok_def links_ok_def)
  then show ?case using trace_run.trace_stay [of "cluster_step D" x]
    by (intro exI [of _ "cl_remote (cu_client x)"]) simp
next
  case (Suc n)
  let ?c = "cu_client x"
  from Suc obtain rs where rs: "cluster_run D x [] (x\<lparr>cu_client := ?c\<lparr>cl_remote := rs\<rparr>\<rparr>)" "length rs = remotes"
    "\<forall>i < n. rs ! i = Returned" "\<forall>i. n \<le> i \<longrightarrow> rs ! i = cl_remote ?c ! i" by auto
  let ?x = "x\<lparr>cu_client := ?c\<lparr>cl_remote := rs\<rparr>\<rparr>"
  have ok: "cluster_ok os ?x" using cluster_ok_run [OF rs(1) assms(1)] by simp
  have "length (cl_remote ?c) = remotes" using assms(1) by (simp add: cluster_ok_def links_ok_def)
  then have "at_slots (cl_remote ?c) = pc_pending (cl_remote ?c ! n) + at_slots ((cl_remote ?c)[n := Returned])"
    using at_slots_update [of n "cl_remote ?c" Returned] Suc.prems by (simp add: ac_simps)
  with assms(3) rs(4) have "pc_pending (rs ! n) = {#}" "queue (inputs (cl_shared ?c)) = []"
    by (simp_all add: contents_def held_remote_def)
  with slot_returns [OF ok, of n] Suc.prems assms(2)
  have "cluster_run D ?x [] (slot_at n ?x Returned)" by simp
  moreover have "slot_at n ?x Returned = x\<lparr>cu_client := ?c\<lparr>cl_remote := rs[n := Returned]\<rparr>\<rparr>"
    by (simp add: slot_at_def)
  ultimately have "cluster_run D x [] (x\<lparr>cu_client := ?c\<lparr>cl_remote := rs[n := Returned]\<rparr>\<rparr>)"
    using trace_quiet_runs [OF rs(1)] by metis
  with rs(2-4) Suc.prems show ?case
    by (intro exI [of _ "rs[n := Returned]"]) (auto simp: nth_list_update less_Suc_eq)
qed

lemma client_joins:
  assumes "cluster_ok os x" "cl_main (cu_client x) = Joining" "\<forall>line. \<exists>r. d_shell D line r"
  shows "\<exists>y. cluster_run D x [] y \<and> cl_main (cu_client y) = Exited"
proof -
  have ok: "client_ok os (cu_client x)" using assms(1) by (simp add: cluster_ok_def)
  with assms(2) have k: "kill (cl_shared (cu_client x))" by (simp add: client_ok_def)
  from slots_return [OF assms(1) k none_left(1) [OF ok] order_refl] assms(2) obtain rs where
    rs: "cluster_run D x [] (x\<lparr>cu_client := (cu_client x)\<lparr>cl_remote := rs\<rparr>\<rparr>)" "length rs = remotes"
      "\<forall>i < remotes. rs ! i = Returned" by auto
  let ?c = "(cu_client x)\<lparr>cl_remote := rs\<rparr>"
  from locals_leave [of ?c, OF _ assms(3)] k obtain ts s where
    ts: "trace_run solo ?c [] (?c\<lparr>cl_local := ts, cl_shared := s\<rparr>)" "\<forall>pc \<in> set ts. pc = Parked" by auto
  let ?d = "?c\<lparr>cl_local := ts, cl_shared := s\<rparr>"
  have "cl_main ?d = Joining" using assms(2) by simp
  note j = join_slots [OF this]
  have "\<forall>pc \<in> set rs. pc = Returned" using rs(2,3) by (auto simp: in_set_conv_nth)
  with j ts(2) have "solo ?d None (?d\<lparr>cl_main := Exited\<rparr>)" by (simp add: solo_def)
  from trace_run.trace_move [OF ts(1) this] have "trace_run solo ?c [] (?d\<lparr>cl_main := Exited\<rparr>)" by simp
  with trace_quiet_runs [OF rs(1)] solo_cluster [of "x\<lparr>cu_client := ?c\<rparr>"]
  show ?thesis by (intro exI [of _ "x\<lparr>cu_client := ?d\<lparr>cl_main := Exited\<rparr>\<rparr>"]) simp
qed

text \<open>
  The client can always go on to its end, except when its main loop already waits for an
  output behind the last one.
\<close>

lemma client_ends:
  assumes "cluster_ok os x" slots_able "\<not> (cl_main (cu_client x) = Getting \<and> length os = length ls)"
  shows "\<exists>os' y. cluster_run D x os' y \<and> cl_main (cu_client y) = Exited"
proof -
  have sh: "\<forall>line. \<exists>r. d_shell D line r" using assms(2) by (simp add: slots_able_def)
  have killing: "\<exists>z. cluster_run D y [] z \<and> cl_main (cu_client z) = Exited"
    if "cluster_ok os' y" "cl_main (cu_client y) = Killing" for os' y
  proof -
    let ?y = "y\<lparr>cu_client := (cu_client y)\<lparr>cl_shared := (cl_shared (cu_client y))\<lparr>kill := True\<rparr>, cl_main := Joining\<rparr>\<rparr>"
    have "solo (cu_client y) None (cu_client ?y)" using stop_slots [OF that(2)] by (simp add: solo_def)
    from solo_cluster [OF solo_one [OF this]] have r: "cluster_run D y [] ?y" by simp
    have "cluster_ok os' ?y" using cluster_ok_run [OF r that(1)] by simp
    from client_joins [OF this _ sh] trace_quiet_runs [OF r] show ?thesis by fastforce
  qed
  show ?thesis
  proof (cases "at_end (cl_main (cu_client x))")
    case True
    then show ?thesis
      using killing [OF assms(1)] client_joins [OF assms(1) _ sh] trace_run.trace_stay [of "cluster_step D" x]
      by (auto simp: at_end_def)
  next
    case False
    from cluster_settles [OF assms(1,2) False] obtain y where
      y: "cluster_run D x [] y" "settled os (cu_client y)" "cl_main (cu_client y) = cl_main (cu_client x)" by blast
    from show_to_end [OF y(2) settled_length [OF y(2)]] y(3) assms(3) obtain os' c where
      c: "trace_run solo (cu_client y) os' c" "cl_main c = Killing" by auto
    note r = trace_quiet_runs [OF y(1) solo_cluster [OF c(1)]]
    from killing [OF cluster_ok_run [OF r assms(1)]] c(2) obtain z where
      "cluster_run D (y\<lparr>cu_client := c\<rparr>) [] z" "cl_main (cu_client z) = Exited" by auto
    with trace_append [OF this(1) r] show ?thesis by auto
  qed
qed

end

end
