(* ===== verification/Cluster_Runs.thy ===== *)
theory Cluster_Runs
  imports Cluster_Live
begin

text \<open>
  The properties of a client with its nodes: when the client has ended, it has shown an
  output of every input, in order, as if it had run the commands itself; until then it can
  always go on to that point, unless a node cannot spawn a command.
\<close>

section \<open>The contracts of a deployment\<close>

lemma distributedI:
  assumes "chashmap (d_outputs D) lookup" "server_queues (d_stack D) items (d_results D) nlookup"
    and "split_to_law (d_split D)" "length ls < 2 ^ 64" "\<forall>l \<in> set ls. valid_str l \<and> c_nl \<notin> set l"
  shows "distributed D lookup items nlookup ls"
  using assms by (simp add: distributed_def distributed_axioms_def output_table_def)

lemma cluster_run_ok:
  assumes "distributed D lookup items nlookup ls" "cluster_init D locals remotes ls x" "cluster_run D x os y"
  shows "distributed.cluster_ok D lookup locals remotes ls os y"
  using distributed.cluster_ok_run [OF assms(1,3) distributed.cluster_ok_init [OF assms(1,2)]] by simp

context distributed
begin

lemma cluster_right:
  assumes "cluster_ok os x"
  shows "length os \<le> length ls" "at_end (cl_main (cu_client x)) \<Longrightarrow> length os = length ls"
    and "k < length os \<Longrightarrow> cluster_output D locals remotes (of_nat k) (ls ! k) (os ! k)"
proof -
  have ok: "client_ok os (cu_client x)" using assms by (simp add: cluster_ok_def)
  then show len: "length os \<le> length ls"
    using shown_bound [OF _ few_inputs] unfolding client_ok_def by blast
  from ok show "at_end (cl_main (cu_client x)) \<Longrightarrow> length os = length ls" by (simp add: client_ok_def)
  assume k: "k < length os"
  with len few_inputs have "unat (of_nat k :: usize) = k" by (simp add: unat_of_nat_less)
  with ok k show "cluster_output D locals remotes (of_nat k) (ls ! k) (os ! k)"
    by (force simp: client_ok_def jobs_ok_def right_output_def)
qed

text \<open>Behind the last output there is none.\<close>

lemma waits_on:
  assumes "cluster_run D x os' y" "cluster_ok os x" "cl_main (cu_client x) = Getting" "length os = length ls"
  shows "os' = [] \<and> cl_main (cu_client y) = Getting"
  using assms
proof (induction rule: trace_run.induct)
  case (trace_move x os1 y l z)
  then have y: "os1 = []" "cl_main (cu_client y) = Getting" by simp_all
  have "cluster_ok os y" using cluster_ok_run [OF trace_move(1) trace_move(4)] y(1) by simp
  from cluster_right(1) [OF cluster_ok_step [OF trace_move(2) this]] trace_move(6) have "l = None"
    by (cases l) simp_all
  with trace_move(2) y(2) have "cl_main (cu_client z) = Getting"
    by cases (auto elim: client_step.cases)
  with y(1) \<open>l = None\<close> show ?case by simp
qed simp

text \<open>The response to an input that no slot of a node can spawn keeps the client's slot waiting.\<close>

lemma waits_on_error:
  assumes "cluster_ok os x" "cl_remote (cu_client x) ! i = Exchanging st cache (of_nat k) input tries"
    and "cu_links x i = Response b" "arrives b chunks" "k < length ls"
    and "\<forall>i < remotes. \<forall>slot w pout perr.
      \<not> d_node_shell D (d_home D i) (render (d_command D) slot (of_nat k) (ls ! k)) (Child w pout perr)"
  shows "input = ls ! k \<and> errors (cl_shared (cu_client x)) = [] \<and> read_blocks cache (st\<lparr>incoming := map Inr chunks\<rparr>)"
proof -
  have ns: "cu_links x i \<noteq> Silent" using assms(3) by simp
  note home = at_home [OF assms(1) ns]
  from home assms(1) have ok: "client_ok os (cu_client x)" "i < length (cl_remote (cu_client x))"
    by (simp_all add: cluster_ok_def)
  from exchanging_contents [OF ok(2) assms(2) refl] obtain b' where
    "fst (contents (cu_client x)) = add_mset (of_nat k, input) b'" by blast
  with ok(1) have "jobs_ok (cluster_output D locals remotes) ls (cl_source (cu_client x)) os
      (add_mset (of_nat k, input) b', snd (contents (cu_client x)))" by (metis client_ok_def prod.collapse)
  from jobs_ok_member [OF this few_inputs] assms(5) few_inputs have input: "input = ls ! k"
    by (simp add: unat_of_nat_less)
  from home(2) assms(2,3) obtain slot q where l: "cache = cache_new"
    "d_node_shell D (d_home D i) (render (d_command D) slot (of_nat k) input) q"
    "encode (input_reply (of_nat k) input (collect q)) [] = Some b" by auto
  with assms(6) home(1) input have "q = SpawnErr" by (cases q) blast+
  with l(3) have en: "encode (Error (of_nat k) input) [] = Some b" by simp
  have "valid_str input" using exchanging_sendable [OF ok assms(2)] by simp
  from error_blocks [OF en assms(4) this] l(1) input assms(1) show ?thesis by (simp add: cluster_ok_def)
qed

end

lemma cluster_run_right:
  assumes "distributed D lookup items nlookup ls" "cluster_init D locals remotes ls x" "cluster_run D x os y"
  shows "length os \<le> length ls" "cl_main (cu_client y) \<in> {Killing, Joining, Exited} \<Longrightarrow> length os = length ls"
    and "k < length os \<Longrightarrow> cluster_output D locals remotes (of_nat k) (ls ! k) (os ! k)"
  using distributed.cluster_right [OF assms(1) cluster_run_ok [OF assms]] by (auto simp: at_end_def)

lemma cluster_shows: "cluster_step D x l y \<Longrightarrow> shows_next (d_verbose D) (cu_client x) l (cu_client y)"
  by (erule cluster_step.cases) (auto dest: client_shows)

lemma cluster_shown:
  assumes "cluster_init D locals remotes ls x" "cluster_run D x os y"
  shows "cl_fds (cu_client y) = foldl (\<lambda>fds (k, out). show_output (d_verbose D) k out fds) ([], [])
    (zip (map of_nat [0..<length os]) os)"
  using runs_show [where view = cu_client, OF assms(2) cluster_shows] assms(1)
  by (simp add: cluster_init_def client_init_def)

section \<open>As if the client had run the commands\<close>

text \<open>A slot of the client or of a node ran the command on an input.\<close>

definition ran :: "('m, 'f, 's, 'n) deployment \<Rightarrow> nat \<Rightarrow> nat \<Rightarrow> usize \<Rightarrow> rstr \<Rightarrow> spawned \<Rightarrow> bool" where
  "ran D locals remotes k input r \<longleftrightarrow>
     (\<exists>i < locals. d_shell D (render (d_command D) (d_number D i) k input) r)
     \<or> (\<exists>i < remotes. \<exists>slot < d_cores D (d_home D i).
          d_node_shell D (d_home D i) (render (d_command D) slot k input) r)"

definition plain_bytes :: "byte list \<Rightarrow> bool" where
  "plain_bytes bs \<longleftrightarrow> (\<exists>t. bs = as_bytes t \<and> valid_str t \<and> \<not> ambiguous t)"

lemma shown_plain: "plain_bytes bs \<Longrightarrow> as_bytes (shown_text bs) = bs"
  using unescaped_escaped [THEN iffD2] by (auto simp: plain_bytes_def shown_text_def file_text_def)

lemma foldl_zip_cong:
  assumes "length xs = length ys" "length ys = length ks"
    and "\<And>k z. k < length xs \<Longrightarrow> f z (ks ! k, xs ! k) = g z (ks ! k, ys ! k)"
  shows "foldl f z (zip ks xs) = foldl g z (zip ks ys)"
  using assms
proof (induction ks arbitrary: xs ys z)
  case (Cons k ks)
  then obtain x xs' y ys' where c: "xs = x # xs'" "ys = y # ys'" by (metis length_Suc_conv)
  with Cons.prems(3) [of 0] have "f z (k, x) = g z (k, y)" by simp
  moreover have "foldl f z' (zip ks xs') = foldl g z' (zip ks ys')" for z'
    using Cons.prems(1,2) Cons.prems(3) [of "Suc _"] c by (intro Cons.IH) simp_all
  ultimately show ?case using c by simp
qed simp

lemma cluster_output_ran:
  assumes "cluster_output D locals remotes k input out"
    and "\<forall>i < remotes. \<forall>slot w pout perr. d_node_shell D (d_home D i) (render (d_command D) slot k input)
      (Child w pout perr) \<longrightarrow> plain_bytes pout \<and> plain_bytes perr"
  shows "\<exists>r. ran D locals remotes k input r
    \<and> (\<forall>verb fds. show_output verb k out fds = show_output verb k (internal_output (collect r)) fds)"
  using assms(1) unfolding cluster_output_def
proof
  assume "local_output (d_shell D) (d_number D) (d_command D) locals k input out"
  then show ?thesis unfolding local_output_def ran_def by blast
next
  assume "\<exists>i < remotes. node_output D i k input out"
  then obtain i slot w pout perr where n: "i < remotes" "slot < d_cores D (d_home D i)"
    "d_node_shell D (d_home D i) (render (d_command D) slot k input) (Child w pout perr)"
    "out = Outcome (exit_status w) (External (shown_text pout) (shown_text perr))"
    unfolding node_output_def by blast
  with assms(2) have "plain_bytes pout" "plain_bytes perr" by blast+
  then have "show_output verb k out fds = show_output verb k (internal_output (collect (Child w pout perr))) fds"
    for verb fds using n(4) by (simp add: show_output_def write_source_def shown_plain)
  with n(1-3) show ?thesis unfolding ran_def by blast
qed

section \<open>A small cluster\<close>

text \<open>
  A client with one slot of its own and one slot on a node with one core, where the command
  is registered under ID 0; \<open>nsh\<close> is the shell of the node.
\<close>

type_synonym small_cluster =
  "(usize \<rightharpoonup> job_output, usize \<rightharpoonup> rstr, (usize \<times> rstr) list, usize \<rightharpoonup> outcome) cluster"

definition small_net ::
  "(rstr \<Rightarrow> spawned \<Rightarrow> bool) \<Rightarrow> (usize \<rightharpoonup> job_output, usize \<rightharpoonup> rstr, (usize \<times> rstr) list, usize \<rightharpoonup> outcome) deployment"
where
  "small_net nsh = \<lparr>d_outputs = fun_map, d_failed = fun_map, d_stack = list_stack, d_results = fun_map,
     d_split = list_split_to, d_shell = demo_sh, d_number = (\<lambda>_. 0),
     d_command = \<lparr>tokens = [Text (lit ''x ''), Placeholder]\<rparr>, d_verbose = False, d_home = (\<lambda>_. 0),
     d_node_shell = (\<lambda>_. nsh), d_cores = (\<lambda>_. 1), d_node_id = (\<lambda>_. 0)\<rparr>"

lemma small_net_simps [simp]:
  "d_outputs (small_net nsh) = fun_map" "d_stack (small_net nsh) = list_stack" "d_results (small_net nsh) = fun_map"
  "d_split (small_net nsh) = list_split_to" "d_shell (small_net nsh) = demo_sh" "d_home (small_net nsh) i = 0"
  "d_node_shell (small_net nsh) k = nsh" "d_cores (small_net nsh) k = 1" "d_node_id (small_net nsh) k = 0"
  "d_verbose (small_net nsh) = False" "d_command (small_net nsh) = \<lparr>tokens = [Text (lit ''x ''), Placeholder]\<rparr>"
  "d_number (small_net nsh) i = 0"
  by (simp_all add: small_net_def)

abbreviation small_inputs :: "rstr list" where
  "small_inputs \<equiv> [lit ''a'']"

lemma small_inputs_ok: "\<forall>l \<in> set small_inputs. valid_str l \<and> c_nl \<notin> set l"
  by (simp add: lit_def scalar_def)

definition small_start :: "(rstr \<Rightarrow> spawned \<Rightarrow> bool) \<Rightarrow> nat \<Rightarrow> small_cluster" where
  "small_start nsh locals = \<lparr>cu_client = client_init (d_outputs (small_net nsh)) (d_failed (small_net nsh)) locals 1
     (program_of small_inputs), cu_nodes = (\<lambda>_. demo_idle), cu_links = (\<lambda>_. Silent)\<rparr>"

lemma small_start_init: "cluster_init (small_net nsh) locals 1 small_inputs (small_start nsh locals)"
  by (simp add: cluster_init_def small_start_def node_ready_def demo_idle_reach)
    (simp add: demo_idle_def server_init_def live_def table_def demo_unit_def new_unit_def)

interpretation small: distributed "small_net nsh" "\<lambda>m. m" "\<lambda>q. q" "\<lambda>m. m" locals 1 small_inputs
  for nsh :: "rstr \<Rightarrow> spawned \<Rightarrow> bool" and locals :: nat
proof -
  show "distributed (small_net nsh) (\<lambda>m. m) (\<lambda>q. q) (\<lambda>m. m) small_inputs"
    using fun_map.chashmap_axioms list_queue.server_queues_axioms list_split_to_law small_inputs_ok
    by (intro distributedI) simp_all
qed

lemma small_able: "small.slots_able demo_sh 1"
proof -
  have "\<not> demo_sh line SpawnErr" for line by (simp add: demo_sh_def)
  then show ?thesis
    unfolding small.slots_able_def small.nodes_able_def using demo_sh_total by simp
qed

lemma small_run_ends: "\<exists>os y. cluster_run (small_net demo_sh) (small_start demo_sh 1) os y \<and> cl_main (cu_client y) = Exited"
  by (rule small.client_ends [OF small.cluster_ok_init [OF small_start_init] small_able])
    (simp add: small_start_def client_init_def)

lemma small_line: "render (d_command (small_net nsh)) slot 0 (lit ''a'') = lit ''x a''"
  by (simp add: render_def lit_def)

lemma small_plain:
  "\<forall>i < 1. \<forall>k < length small_inputs. \<forall>slot w pout perr.
     d_node_shell (small_net demo_sh) (d_home (small_net demo_sh) i)
       (render (d_command (small_net demo_sh)) slot (of_nat k) (small_inputs ! k)) (Child w pout perr)
     \<longrightarrow> plain_bytes pout \<and> plain_bytes perr"
proof -
  have "plain_bytes (as_bytes (lit ''x a''))" "plain_bytes []"
    unfolding plain_bytes_def by (rule exI [of _ "lit ''x a''"], simp add: lit_def scalar_def)
      (rule exI [of _ "[]"], simp)
  then show ?thesis by (simp add: small_line [unfolded small_net_simps] demo_sh_def)
qed

section \<open>The properties\<close>

text \<open>
  C1. Distribution is transparent: when the main loop of a client with any slots and nodes
  has ended, then for each input one slot, the client's own or a node's, has run its command
  line, with the job ID and a number of this slot, and what the client has written is, byte
  for byte and in the order of the inputs, what it writes for these runs when its own slots
  make them, provided that what the runs on the nodes print is UTF-8 text without ambiguous
  backslashes. As everywhere in this theory, the connections are reliable and the inputs are
  valid texts without a newline.
\<close>

theorem distribution_transparent:
  assumes "chashmap (d_outputs D) lookup" "server_queues (d_stack D) items (d_results D) nlookup"
    and "split_to_law (d_split D)" "length ls < 2 ^ 64" "\<forall>l \<in> set ls. valid_str l \<and> c_nl \<notin> set l"
    and "\<forall>i < remotes. \<forall>k < length ls. \<forall>slot w pout perr.
      d_node_shell D (d_home D i) (render (d_command D) slot (of_nat k) (ls ! k)) (Child w pout perr)
      \<longrightarrow> plain_bytes pout \<and> plain_bytes perr"
    and "cluster_init D locals remotes ls x" "cluster_run D x os y"
    and "cl_main (cu_client y) \<in> {Killing, Joining, Exited}"
  shows "\<exists>rs. length rs = length ls \<and> (\<forall>k < length ls. ran D locals remotes (of_nat k) (ls ! k) (rs ! k))
    \<and> cl_fds (cu_client y) = foldl (\<lambda>fds (k, r). show_output (d_verbose D) k (internal_output (collect r)) fds)
        ([], []) (zip (map of_nat [0..<length ls]) rs)"
proof -
  note right = cluster_run_right [OF distributedI [OF assms(1-5)] assms(7,8)]
  have len: "length os = length ls" by (rule right(2) [OF assms(9)])
  have "\<exists>r. ran D locals remotes (of_nat k) (ls ! k) r \<and> (\<forall>verb fds. show_output verb (of_nat k) (os ! k) fds
        = show_output verb (of_nat k) (internal_output (collect r)) fds)" if "k < length ls" for k
    using that right(3) [of k] assms(6) len by (intro cluster_output_ran) auto
  then obtain run where run: "\<forall>k < length ls. ran D locals remotes (of_nat k) (ls ! k) (run k)
      \<and> (\<forall>verb fds. show_output verb (of_nat k) (os ! k) fds
        = show_output verb (of_nat k) (internal_output (collect (run k))) fds)" by metis
  show ?thesis
  proof (intro exI [of _ "map run [0..<length ls]"] conjI)
    show "cl_fds (cu_client y) = foldl (\<lambda>fds (k, r). show_output (d_verbose D) k (internal_output (collect r)) fds)
        ([], []) (zip (map of_nat [0..<length ls]) (map run [0..<length ls]))"
      unfolding cluster_shown [OF assms(7,8)] len
      using run by (intro foldl_zip_cong) (simp_all add: len del: split_paired_All)
  qed (use run in simp_all)
qed

theorem distribution_transparent_witness:
  "\<exists>os y r. cluster_run (small_net demo_sh) (small_start demo_sh 1) os y \<and> ran (small_net demo_sh) 1 1 0 (lit ''a'') r
    \<and> cl_fds (cu_client y) = show_output False 0 (internal_output (collect r)) ([], [])"
proof -
  from small_run_ends obtain os y where
    y: "cluster_run (small_net demo_sh) (small_start demo_sh 1) os y" "cl_main (cu_client y) = Exited" by blast
  from distribution_transparent [OF _ _ _ _ small_inputs_ok small_plain small_start_init y(1),
      of "\<lambda>m. m" "\<lambda>q. q" "\<lambda>m. m"] y(2)
    fun_map.chashmap_axioms list_queue.server_queues_axioms list_split_to_law
  obtain rs where "length rs = 1" "ran (small_net demo_sh) 1 1 0 (lit ''a'') (rs ! 0)"
    "cl_fds (cu_client y) = foldl (\<lambda>fds (k, r). show_output False k (internal_output (collect r)) fds)
        ([], []) (zip [0] rs)" by auto
  with y(1) show ?thesis by (cases rs) auto
qed

text \<open>
  C6. No output is out of reach: from every state that a client with nodes reaches, as long
  as there is a slot, every shell ends every command and the nodes can spawn it, some
  continuation shows the outputs of all inputs.
\<close>

theorem distribution_completes:
  assumes "chashmap (d_outputs D) lookup" "server_queues (d_stack D) items (d_results D) nlookup"
    and "split_to_law (d_split D)" "length ls < 2 ^ 64" "\<forall>l \<in> set ls. valid_str l \<and> c_nl \<notin> set l"
    and "\<forall>line. \<exists>r. d_shell D line r" "0 < locals + remotes"
    and "\<forall>i < remotes. d_cores D (d_home D i) \<noteq> 0
       \<and> (\<forall>line. (\<exists>r. d_node_shell D (d_home D i) line r) \<and> \<not> d_node_shell D (d_home D i) line SpawnErr)"
    and "cluster_init D locals remotes ls x" "cluster_run D x os y"
  shows "\<exists>os' z. cluster_run D y os' z \<and> length (os @ os') = length ls"
proof -
  note L = distributedI [OF assms(1-5)]
  have "distributed.slots_able D locals remotes"
    using assms(6-8) by (simp add: distributed.slots_able_def [OF L] distributed.nodes_able_def [OF L])
  from distributed.cluster_shows_all [OF L cluster_run_ok [OF L assms(9,10)] this] show ?thesis .
qed

theorem distribution_completes_witness:
  "\<exists>os y. cluster_run (small_net demo_sh) (small_start demo_sh 1) os y \<and> length os = 1"
proof -
  have able: "\<forall>i < 1. d_cores (small_net demo_sh) (d_home (small_net demo_sh) i) \<noteq> 0
      \<and> (\<forall>line. (\<exists>r. d_node_shell (small_net demo_sh) (d_home (small_net demo_sh) i) line r)
        \<and> \<not> d_node_shell (small_net demo_sh) (d_home (small_net demo_sh) i) line SpawnErr)"
    by (simp add: demo_sh_def)
  from distribution_completes [OF _ _ _ _ small_inputs_ok _ _ able small_start_init trace_run.trace_stay,
      of "\<lambda>m. m" "\<lambda>q. q" "\<lambda>m. m" 1]
    fun_map.chashmap_axioms list_queue.server_queues_axioms list_split_to_law demo_sh_total
  show ?thesis by auto
qed

text \<open>
  C2. When the client can end: from a state that a client with nodes reaches, as long as there
  is a slot, every shell ends every command, and the nodes have cores and can spawn every
  command, some continuation ends with the main loop done and every slot gone, exactly
  if the main loop does not already wait for an output behind the last one.
\<close>

theorem exit_reachable:
  assumes "chashmap (d_outputs D) lookup" "server_queues (d_stack D) items (d_results D) nlookup"
    and "split_to_law (d_split D)" "length ls < 2 ^ 64" "\<forall>l \<in> set ls. valid_str l \<and> c_nl \<notin> set l"
    and "\<forall>line. \<exists>r. d_shell D line r" "0 < locals + remotes"
    and "\<forall>i < remotes. d_cores D (d_home D i) \<noteq> 0
       \<and> (\<forall>line. (\<exists>r. d_node_shell D (d_home D i) line r) \<and> \<not> d_node_shell D (d_home D i) line SpawnErr)"
    and "cluster_init D locals remotes ls x" "cluster_run D x os y"
  shows "(\<exists>os' z. cluster_run D y os' z \<and> cl_main (cu_client z) = Exited)
    \<longleftrightarrow> \<not> (cl_main (cu_client y) = Getting \<and> length os = length ls)"
proof -
  note L = distributedI [OF assms(1-5)]
  note ok = cluster_run_ok [OF L assms(9,10)]
  have "distributed.slots_able D locals remotes"
    using assms(6-8) by (simp add: distributed.slots_able_def [OF L] distributed.nodes_able_def [OF L])
  with distributed.client_ends [OF L ok] distributed.waits_on [OF L _ ok] show ?thesis by fastforce
qed

theorem exit_reachable_witness:
  "\<exists>os y. cluster_run (small_net demo_sh) (small_start demo_sh 1) os y \<and> cl_main (cu_client y) = Exited"
proof -
  have able: "\<forall>i < 1. d_cores (small_net demo_sh) (d_home (small_net demo_sh) i) \<noteq> 0
      \<and> (\<forall>line. (\<exists>r. d_node_shell (small_net demo_sh) (d_home (small_net demo_sh) i) line r)
        \<and> \<not> d_node_shell (small_net demo_sh) (d_home (small_net demo_sh) i) line SpawnErr)"
    by (simp add: demo_sh_def)
  from exit_reachable [OF _ _ _ _ small_inputs_ok _ _ able small_start_init trace_run.trace_stay,
      of "\<lambda>m. m" "\<lambda>q. q" "\<lambda>m. m" 1]
    fun_map.chashmap_axioms list_queue.server_queues_axioms list_split_to_law demo_sh_total
  show ?thesis by (simp add: small_start_def client_init_def)
qed

text \<open>
  C33. An error of a node is never shown: when no slot of a node can spawn the command of an
  input, a client without slots of its own shows neither this input's output nor any later
  one, and never ends. The node answers with an error response, which is one line, and the
  client's slot, which reads three, waits on the open connection for the others, however
  the line arrives; the input is not tried again.
\<close>

theorem unspawned_input_hangs:
  assumes "chashmap (d_outputs D) lookup" "server_queues (d_stack D) items (d_results D) nlookup"
    and "split_to_law (d_split D)" "length ls < 2 ^ 64" "\<forall>l \<in> set ls. valid_str l \<and> c_nl \<notin> set l"
    and "cluster_init D 0 remotes ls x" "cluster_run D x os y" "k < length ls"
    and "\<forall>i < remotes. \<forall>slot w pout perr.
      \<not> d_node_shell D (d_home D i) (render (d_command D) slot (of_nat k) (ls ! k)) (Child w pout perr)"
  shows "length os \<le> k \<and> cl_main (cu_client y) \<notin> {Killing, Joining, Exited}
    \<and> (\<forall>i st cache input tries b chunks. cl_remote (cu_client y) ! i = Exchanging st cache (of_nat k) input tries
        \<and> cu_links y i = Response b \<and> arrives b chunks \<longrightarrow>
        read_blocks cache (st\<lparr>incoming := map Inr chunks\<rparr>) \<and> errors (cl_shared (cu_client y)) = [])"
proof (intro conjI allI impI)
  note L = distributedI [OF assms(1-5)]
  note right = cluster_run_right [OF L assms(6,7)]
  have "\<not> cluster_output D 0 remotes (of_nat k) (ls ! k) out" for out
    using assms(9) by (auto simp: cluster_output_def local_output_def node_output_def)
  with right(3) show "length os \<le> k" by (meson not_less)
  with right(2) assms(8) show "cl_main (cu_client y) \<notin> {Killing, Joining, Exited}" by fastforce
  fix i st cache input tries b chunks
  assume a: "cl_remote (cu_client y) ! i = Exchanging st cache (of_nat k) input tries
    \<and> cu_links y i = Response b \<and> arrives b chunks"
  from distributed.waits_on_error [OF L cluster_run_ok [OF L assms(6,7)] _ _ _ assms(8,9)] a show
    "read_blocks cache (st\<lparr>incoming := map Inr chunks\<rparr>)" "errors (cl_shared (cu_client y)) = []" by blast+
qed

theorem unspawned_input_hangs_witness:
  "\<nexists>os y. cluster_run (small_net (\<lambda>_ r. r = SpawnErr)) (small_start (\<lambda>_ r. r = SpawnErr) 0) os y
    \<and> (os \<noteq> [] \<or> cl_main (cu_client y) = Exited)"
proof (intro notI, elim exE conjE)
  fix os y
  assume r: "cluster_run (small_net (\<lambda>_ r. r = SpawnErr)) (small_start (\<lambda>_ r. r = SpawnErr) 0) os y"
    and e: "os \<noteq> [] \<or> cl_main (cu_client y) = Exited"
  have "chashmap (d_outputs (small_net (\<lambda>_ r. r = SpawnErr))) (\<lambda>m. m)" by (simp add: fun_map.chashmap_axioms)
  from unspawned_input_hangs [OF this _ _ _ small_inputs_ok small_start_init r, of "\<lambda>q. q" "\<lambda>m. m" 0] e
    list_queue.server_queues_axioms list_split_to_law
  show False by simp
qed

end
