(* ===== verification/Node_Start.thy ===== *)
theory Node_Start
  imports Cluster
begin

text \<open>
  How a node gets into the state in which a cluster starts: the client connects, asks for
  the cores and registers its command, while the node serves other clients as well.
\<close>

section \<open>The ID of a command\<close>

lemma store_bound: "store u i cs = (cs', k) \<Longrightarrow> k \<le> i + length cs"
  by (induction u i cs arbitrary: cs' k rule: store.induct) (auto split: prod.splits)

text \<open>The ID fits into the type in which the client reads it.\<close>

lemma command_id:
  assumes "call_command S M n cmd cs = Some (cs', reply)" "length cs < 2 ^ 64"
  shows "\<exists>i toks. reply = Info (to_string (i :: usize)) \<and> Tokens_new cmd = Some toks
    \<and> get_unit cs i = None \<and> get_unit cs' i = Some (new_unit S M n toks)"
proof -
  from call_command_stored [of cmd S M n cs] obtain cs2 toks k where k: "Tokens_new cmd = Some toks"
    "call_command S M n cmd cs = Some (cs2, Info (digits k))" "table cs k = None"
    "{..<k} \<subseteq> dom (table cs)" "table cs2 = (table cs)(k \<mapsto> new_unit S M n toks)" by blast
  have "k \<le> length cs"
  proof (rule ccontr)
    assume "\<not> k \<le> length cs"
    then have "length cs \<in> dom (table cs)" by (intro subsetD [OF k(4)]) simp
    then show False by (simp add: dom_def table_def)
  qed
  with assms(2) have "unat (of_nat k :: usize) = k" by (simp add: unat_of_nat_less)
  with assms(1) k show ?thesis
    by (intro exI [of _ "of_nat k"] exI [of _ toks]) (simp add: to_string_def get_unit_table)
qed

text \<open>The client takes the number from the answer, and its request reads as the command.\<close>

lemma send_command_answered:
  assumes "write_answers (conn_stream c) = []" "incoming (conn_stream c) = map Inr chunks"
    and "encode (Info (to_string i)) [] = Some b" "arrives b chunks"
  shows "send_command c cmd = (Some (Inr i), c\<lparr>conn_stream := (conn_stream c)
    \<lparr>sent := sent (conn_stream c) @ line_bytes (Command cmd), incoming := []\<rparr>, conn_command := i\<rparr>)"
proof -
  have "arrives (as_bytes (to_string i) @ [byte_of c_nl]) chunks" using assms(3,4) by (simp add: encode_info)
  with ask_number_answered [OF assms(1), of chunks "[]" i] assms(2) show ?thesis
    unfolding send_command_def session_lines(2) by simp
qed

section \<open>The node is ready\<close>

lemma registered_ready:
  assumes "reach (d_stack D) (d_results D) (d_node_shell D k) (d_cores D k) fresh_job s"
    and "serve (d_stack D) (d_results D) (d_node_shell D k) (d_cores D k) s (Reply c (Command cmd) r) s'"
    and "length (commands s) < 2 ^ 64" "r = Info (to_string (d_node_id D k))"
    and "Tokens_new cmd = Some (d_command D)" "\<forall>i < remotes. handlers s i = None"
  shows "node_ready D remotes k s'"
  using assms(2)
proof cases
  case (serve_command cs)
  from command_id [OF serve_command(5) assms(3)] obtain i toks where i: "r = Info (to_string (i :: usize))"
    "Tokens_new cmd = Some toks" "get_unit (commands s) i = None"
    "get_unit cs i = Some (new_unit (d_stack D) (d_results D) (d_cores D k) toks)" by blast
  with assms(4,5) have id: "i = d_node_id D k" "toks = d_command D" by simp_all
  have un: "units_inv (d_cores D k) s" using reach_inv [OF assms(1)] by simp
  have "handlers s c' \<noteq> Some (Waiting i jid input) \<and> handlers s c' \<noteq> Some (Stopping i)" for c' jid input
    using waiting_unit [OF un, of c' i jid input] stopping_unit [OF un, of c' i] i(3) by auto
  moreover have "reach (d_stack D) (d_results D) (d_node_shell D k) (d_cores D k) fresh_job s'"
    by (rule reach.reach_step [OF assms(1,2)]) (simp add: fresh_job_def)
  moreover have "live s' (unat i) = Some (d_command D)"
    using i(4) id serve_command(1) by (simp add: live_def get_unit_table new_unit_def)
  ultimately show ?thesis using assms(6) serve_command(1) id unfolding node_ready_def by simp
qed

text \<open>
  C14. Connecting makes a node ready: when a client connects to a node, which answers the
  request for its cores and the command, in whatever chunks and whatever else it serves in
  between, the connection has the node's number of cores and has sent exactly these two
  requests, and the node is in the state from which a cluster with this connection's ID
  starts: its pool has the tokens of the command under the ID, and nobody waits on it.
\<close>

theorem connecting_readies_node:
  fixes S :: "'s stack_ops" and M :: "('r, outcome) map_ops"
  assumes "split_to_law split_to" "sendable (Command cmd)"
    and "certificate_get (net_certificate (net (addr, domain))) domain = Done cert"
    and "attempt_connection (net_api (net (addr, domain))) (net_tcp (net (addr, domain))) (net_tls (net (addr, domain))) cert
      = Some (Done (Inr st, tries))"
    and "write_answers st = []" "sent st = []" "incoming st = map Inr ds @ map Inr cs"
    and "serve S M sh n s0 (Reply c GetCores r0) s1" "encode r0 [] = Some b0" "arrives b0 ds"
    and "reach S M sh n fresh_job s" "length (commands s) < 2 ^ 64" "\<forall>i < remotes. handlers s i = None"
    and "serve S M sh n s (Reply c (Command cmd) r) s'" "encode r [] = Some b" "arrives b cs"
  shows "\<exists>conn. nodes_get net [(addr, domain)] cmd [] = (Done (Inr [conn]), [])
    \<and> conn_cores conn = n \<and> frames split_to 3 (sent (conn_stream conn)) = Some ([GetCores, Command cmd], [])
    \<and> (\<forall>(D :: ('m, 'f, 's, 'r) deployment) k. d_stack D = S \<and> d_results D = M \<and> d_node_shell D k = sh \<and> d_cores D k = n
        \<and> Tokens_new cmd = Some (d_command D) \<and> d_node_id D k = conn_command conn \<longrightarrow> node_ready D remotes k s')"
proof -
  from assms(8) have r0: "r0 = Info (to_string n)" by cases
  have ar: "arrives (as_bytes (to_string n) @ [byte_of c_nl]) ds" using assms(9,10) r0 by (simp add: encode_info)
  have g: "get_cores st = (Some (Inr n), st\<lparr>sent := line_bytes GetCores, incoming := map Inr cs\<rparr>)"
    using ask_number_answered [OF assms(5,7) ar] assms(6) by (simp only: get_cores_def session_lines) simp
  from assms(14) obtain cs' where "call_command S M n cmd (commands s) = Some (cs', r)" by cases
  from command_id [OF this assms(12)] obtain i where i: "r = Info (to_string (i :: usize))" by blast
  let ?c = "\<lparr>conn_stream = st\<lparr>sent := line_bytes GetCores, incoming := map Inr cs\<rparr>, conn_domain = domain,
    conn_address = addr, conn_command = 0, conn_cores = n\<rparr>"
  let ?conn = "?c\<lparr>conn_stream := (conn_stream ?c)\<lparr>sent := line_bytes GetCores @ line_bytes (Command cmd),
    incoming := []\<rparr>, conn_command := i\<rparr>"
  have "Connection_new (net (addr, domain)) addr domain = Done (Inr ?c)"
    using g by (simp add: Connection_new_def assms(3,4))
  moreover have "send_command ?c cmd = (Some (Inr i), ?conn)"
    using send_command_answered [of ?c cs i b cmd] assms(5,15,16) i by simp
  ultimately have "nodes_get net [(addr, domain)] cmd [] = (Done (Inr [?conn]), [])" by simp
  moreover have "frames split_to 3 (sent (conn_stream ?conn)) = Some ([GetCores, Command cmd], [])"
    using frames_lines [OF assms(1), of "[GetCores, Command cmd]" "[]" 3] assms(2) by simp
  moreover have "node_ready D remotes k s'"
    if "d_stack D = S" "d_results D = M" "d_node_shell D k = sh" "d_cores D k = n"
      "Tokens_new cmd = Some (d_command D)" "d_node_id D k = conn_command ?conn" for D :: "('m, 'f, 's, 'r) deployment" and k
    using that assms(11,14,12,13) i by (intro registered_ready [of D k s c cmd r]) simp_all
  ultimately show ?thesis by (intro exI [of _ ?conn]) simp
qed

text \<open>A node with one core, which registers the command \<^verbatim>\<open>x\<close> first.\<close>

theorem connecting_readies_node_witness:
  "\<exists>net conn D. nodes_get (net :: unit \<times> rstr \<Rightarrow> (unit, unit, unit) node_net) [((), lit ''n'')] (lit ''x'') [] = (Done (Inr [conn]), []) \<and> conn_cores conn = 1
    \<and> d_node_id D 0 = conn_command conn
    \<and> node_ready (D :: (usize \<rightharpoonup> job_output, usize \<rightharpoonup> rstr, (usize \<times> rstr) list, usize \<rightharpoonup> outcome) deployment) 5 0 demo_idle"
proof -
  let ?b = "\<lambda>s. as_bytes (lit s) @ [byte_of c_nl]"
  let ?st = "\<lparr>incoming = [Inr (?b ''1''), Inr (?b ''0'')], write_answers = [], sent = []\<rparr>"
  let ?net = "\<lambda>_ :: unit \<times> rstr. \<lparr>net_certificate = (\<lambda>_. Inr (Inr (Inr ()))), net_api = demo_api, net_tcp = (\<lambda>_. Inr ()), net_tls = (\<lambda>_ _. Inr ?st)\<rparr>"
  let ?D = "\<lambda>i. \<lparr>d_outputs = fun_map, d_failed = fun_map, d_stack = list_stack, d_results = fun_map,
     d_split = list_split_to, d_shell = demo_sh, d_number = (\<lambda>_. 0),
     d_command = \<lparr>tokens = [Text (lit ''x ''), Placeholder]\<rparr>, d_verbose = False, d_home = (\<lambda>_. 0),
     d_node_shell = (\<lambda>_. demo_sh), d_cores = (\<lambda>_. 1), d_node_id = (\<lambda>_. i)\<rparr>"
  have 1: "serve list_stack fun_map demo_sh 1 server_init (Reply 0 GetCores (Info (to_string (1 :: usize)))) server_init"
    by (rule serve_cores) (simp add: server_init_def)
  have 2: "serve list_stack fun_map demo_sh 1 server_init (Reply 0 (Command (lit ''x'')) (Info (lit ''0''))) demo_idle"
    unfolding demo_idle_def by (rule serve_command) (simp_all add: server_init_def demo_command)
  have sd: "sendable (Command (lit ''x''))" by (simp add: lit_def scalar_def)
  have t: "to_string (1 :: usize) = lit ''1''" by (simp add: to_string_def digits.simps lit_def)
  have ds: "arrives (as_bytes (to_string (1 :: usize)) @ [byte_of c_nl]) [?b ''1'']"
    and cs: "arrives (as_bytes (lit ''0'') @ [byte_of c_nl]) [?b ''0'']"
    unfolding t by (simp_all add: arrives_def)
  have tk: "Tokens_new (lit ''x'') = Some \<lparr>tokens = [Text (lit ''x ''), Placeholder]\<rparr>"
    using demo_command by (auto simp: call_command_def demo_unit_def new_unit_def)
  from connecting_readies_node [OF list_split_to_law sd _ _ _ _ _ 1 encode_info [of _ "[]"] _ reach.reach_init _ _ 2
      encode_info [of _ "[]"], where net = ?net and st = ?st and ds = "[?b ''1'']" and cs = "[?b ''0'']" and remotes = 5
      and cert = "()" and domain = "lit ''n''" and tries = "(1, 1)"] ds cs
  obtain conn where c: "nodes_get ?net [((), lit ''n'')] (lit ''x'') [] = (Done (Inr [conn]), [])" "conn_cores conn = 1"
    "\<And>(D :: (usize \<rightharpoonup> job_output, usize \<rightharpoonup> rstr, (usize \<times> rstr) list, usize \<rightharpoonup> outcome) deployment) k.
      d_stack D = list_stack \<Longrightarrow> d_results D = fun_map \<Longrightarrow> d_node_shell D k = demo_sh \<Longrightarrow> d_cores D k = 1
      \<Longrightarrow> Tokens_new (lit ''x'') = Some (d_command D) \<Longrightarrow> d_node_id D k = conn_command conn \<Longrightarrow> node_ready D 5 k demo_idle"
    by (simp add: certificate_get_def demo_connects server_init_def del: nodes_get.simps) blast
  from c(3) [of "?D (conn_command conn)" 0] tk have "node_ready (?D (conn_command conn)) 5 0 demo_idle" by simp
  with c(1,2) show ?thesis by (intro exI [of _ ?net] exI [of _ conn] exI [of _ "?D (conn_command conn)"]) simp
qed

end
