(* ===== verification/Server_Texts.thy ===== *)
theory Server_Texts
  imports Server_Accounting Codec
begin

text \<open>
  The server as a typed program: the texts that the model writes as lists of characters are
  the \<^verbatim>\<open>String\<close>s of the code, so they must be sequences of scalar values. They come from
  the network through \<^verbatim>\<open>from_utf8\<close>, from the crates' text formatting and from files; in
  every reachable state all of them are strings, those handed to the shell and those sent
  back included.
\<close>

section \<open>Texts that come in\<close>

fun event_text :: "job_event \<Rightarrow> bool" where
  "event_text (Command cmd) = valid_str cmd"
| "event_text (Input cid jid input) = valid_str input"
| "event_text ev = True"

lemma obtain_text: "obtain_str bs = Inr s \<Longrightarrow> valid_str s"
  by (auto simp: obtain_str_def ok_or_def dest: from_utf8_valid split: option.splits)

lemma get_input_text: "get_input bs = Some (Inr (Some ev)) \<Longrightarrow> event_text ev"
  by (auto simp: get_input_def try_then_Some bind_eq_Some_conv dest!: obtain_text
      split: option.splits)

lemma dispatch_text: "dispatch bs = Some (Inr (Some ev)) \<Longrightarrow> event_text ev"
  by (auto simp: dispatch_def get_command_def get_option_def del_command_def
      dest: obtain_text get_input_text split: if_splits bind_splits)

lemma decode_text: "decode split_to buf = Some (Inr (Some ev), rest) \<Longrightarrow> event_text ev"
  by (auto simp: decode_def dest: dispatch_text split: if_splits option.splits prod.splits bind_splits)

text \<open>The requests that come from the decoder.\<close>

fun decoded :: "split_to \<Rightarrow> ('s, 'm) server \<Rightarrow> action \<Rightarrow> bool" where
  "decoded split_to s (Begin c ev) = (\<exists>buf rest. decode split_to buf = Some (Inr (Some ev), rest))"
| "decoded split_to s (Reply c ev r) = (\<exists>buf rest. decode split_to buf = Some (Inr (Some ev), rest))"
| "decoded split_to s Work = True"

fun action_text :: "action \<Rightarrow> bool" where
  "action_text (Begin c ev) = event_text ev"
| "action_text (Reply c ev r) = event_text ev"
| "action_text Work = True"

lemma decoded_text: "decoded split_to s a \<Longrightarrow> action_text a"
  by (cases a) (auto dest: decode_text)

section \<open>Texts that are made\<close>

definition tokens_text :: "Tokens \<Rightarrow> bool" where
  "tokens_text t \<longleftrightarrow> (\<forall>s. Text s \<in> set (tokens t) \<longrightarrow> valid_str s)"

lemma tokens_text_show: "tokens_text t \<longleftrightarrow> valid_str (Tokens_fmt t)"
proof -
  have "valid_str (shown ts) \<longleftrightarrow> (\<forall>s. Text s \<in> set ts \<longrightarrow> valid_str s)" for ts
  proof (induction ts)
    case (Cons t ts)
    then show ?case by (cases t) (auto simp: scalar_def)
  qed simp
  then show ?thesis by (simp add: tokens_text_def)
qed

lemma Tokens_new_text:
  assumes "Tokens_new cmd = Some t" "valid_str cmd"
  shows "tokens_text t"
proof -
  have "shown (auto_tokens (auto_run auto_init cmd)) = cmd" by (simp add: shown_auto_tokens)
  with assms show ?thesis
    by (auto simp: tokens_text_show Tokens_new_auto close_tokens_def shown_append_placeholder)
qed

text \<open>A command line that a slot hands to the shell.\<close>

lemma render_text:
  assumes "tokens_text cmd" "valid_str input"
  shows "valid_str (render cmd slot jid input)"
proof -
  have "\<forall>t \<in> set (tokens cmd). valid_str (token_value slot jid input t)"
    using assms by (auto simp: tokens_text_def token_value_def split: token.split)
  then have "valid_str (concat (map (token_value slot jid input) (tokens cmd)))"
    by (induction "tokens cmd" rule: rev_induct) (auto simp: valid_str_def list_all_iff)
  then show ?thesis by (simp add: render_concat)
qed

lemma file_text_valid: "valid_str (file_text f)"
  by (auto simp: file_text_def from_utf8_valid split: option.split)

lemma digits_valid [simp]: "valid_str (digits n)"
  by (auto simp: valid_str_def list_all_iff scalar_def dest!: digits_range)

fun response_text :: "response_event \<Rightarrow> bool" where
  "response_text (Error i out) = valid_str out"
| "response_text (Output jid st out err) = (valid_str out \<and> valid_str err)"
| "response_text (Info info) = valid_str info"

lemma input_reply_text: "valid_str input \<Longrightarrow> response_text (input_reply jid input r)"
  by (cases "(jid, input, r)" rule: input_reply.cases) (auto simp: file_text_valid)

text \<open>What the codec writes for it is the UTF-8 encoding of a string.\<close>

lemma escaped_form_valid: "valid_str s \<Longrightarrow> valid_str (escaped_form s)"
  by (induction s) (auto simp: escape_char_def scalar_def)

lemma encode_text:
  assumes "response_text r"
  shows "\<exists>t. valid_str t \<and> encode r [] = Some (as_bytes t)"
proof -
  obtain t where "fmt_response r = Some t" "valid_str t"
    using assms escaped_form_valid
    by (cases r) (auto simp: fmt_response_def escape_form scalar_def)
  then show ?thesis
    by (intro exI [of _ "t @ [c_nl]"]) (simp add: encode_def bytes_def lit_def scalar_def)
qed

section \<open>Texts that are kept\<close>

context server_queues
begin

definition unit_text :: "('s, 'm) sunit \<Rightarrow> bool" where
  "unit_text u \<longleftrightarrow> tokens_text (command u) \<and> (\<forall>(jid, input) \<in># fst (pool_abs (threads u, u)). valid_str input)"

definition text_inv :: "('s, 'm) server \<Rightarrow> bool" where
  "text_inv s \<longleftrightarrow> (\<forall>k u. table (commands s) k = Some u \<longrightarrow> unit_text u)
     \<and> (\<forall>c cid jid input. handlers s c = Some (Waiting cid jid input) \<longrightarrow> valid_str input)"

lemma unit_text_work:
  assumes "pool_step (Inputs_get_job S) (Outputs_insert M) sh of_nat (command u) (threads u, u) (ts, u')" "unit_text u"
  shows "unit_text (u'\<lparr>threads := ts\<rparr>)"
proof -
  have "set_mset (fst (pool_abs (ts, u'))) \<subseteq> set_mset (fst (pool_abs (threads u, u)))"
    using pool_refines [OF assms(1)]
  proof
    assume "bag_step (\<lambda>r. r) sh (of_nat ` {..<length (fst (threads u, u))}) (command u)
      (pool_abs (threads u, u)) (pool_abs (ts, u'))"
    then show ?thesis by cases auto
  qed simp
  with assms(2) pool_step_frame [OF assms(1)] show ?thesis by (auto simp: unit_text_def pool_abs_def)
qed

lemma text_inv_replace:
  assumes "text_inv s" "get_unit (commands s) cid = Some u" "unit_text u \<Longrightarrow> unit_text v"
  shows "text_inv (s\<lparr>commands := set_unit (commands s) cid (Some v)\<rparr>)"
  using assms by (auto simp: text_inv_def table_set_Some get_unit_table)

lemma serve_text_inv:
  assumes "serve S M sh n s a s'" "action_text a" "text_inv s"
  shows "text_inv s'"
  using assms(1)
proof cases
  case (serve_command c cmd cs r)
  from call_command_table [OF serve_command(6)] obtain toks k where
    k: "Tokens_new cmd = Some toks" "table cs = (table (commands s))(k \<mapsto> new_unit S M n toks)"
    by blast
  have "tokens_text toks" using Tokens_new_text [OF k(1)] assms(2) serve_command(1) by simp
  then have "unit_text (new_unit S M n toks)"
    using pool_abs_new [of n toks] by (simp add: unit_text_def) (simp add: new_unit_def)
  with serve_command k assms(3) show ?thesis by (auto simp: text_inv_def)
next
  case (serve_input c cid u jid input)
  then have "valid_str input" using assms(2) by simp
  then have "unit_text (call_input S jid input u)" if "unit_text u"
    using that pool_abs_input [of u jid input] by (simp add: unit_text_def call_input_def)
  from text_inv_replace [OF assms(3) serve_input(5) this] serve_input \<open>valid_str input\<close> show ?thesis
    by (auto simp: text_inv_def)
next
  case (serve_result c cid jid input u r u')
  have "fst (pool_abs (threads u', u')) = fst (pool_abs (threads u, u))" "command u' = command u"
    using pool_abs_result [OF serve_result(5)] by (metis fst_conv)+
  then have "unit_text u'" if "unit_text u" using that by (metis unit_text_def)
  from text_inv_replace [OF assms(3) serve_result(4) this] serve_result show ?thesis
    by (auto simp: text_inv_def split: if_splits)
next
  case (serve_stop c cid u)
  have "unit_text (signal_kill u)" if "unit_text u"
    using that by (simp add: unit_text_def signal_kill_def pool_abs_def)
  from text_inv_replace [OF assms(3) serve_stop(6) this] serve_stop show ?thesis
    by (auto simp: text_inv_def split: if_splits)
next
  case (serve_stop_unknown c cid)
  with assms(3) show ?thesis by (simp add: text_inv_def table_set_None)
next
  case (serve_stopped c cid u)
  with assms(3) show ?thesis by (auto simp: text_inv_def table_set_Some split: if_splits)
next
  case (serve_slot cid u ts u')
  from text_inv_replace [OF assms(3) serve_slot(3) unit_text_work [OF serve_slot(4)]] serve_slot
  show ?thesis by simp
qed (use assms(3) in simp_all)

lemma text_inv_init: "text_inv server_init"
  by (simp add: text_inv_def server_init_def)

lemma reach_text_inv:
  assumes "reach S M sh n allowed s" "\<And>s a. allowed s a \<Longrightarrow> action_text a"
  shows "text_inv s"
  using assms(1) by (induction rule: reach.induct) (auto intro: text_inv_init serve_text_inv assms(2))

lemma list_commands_text:
  assumes "\<forall>k u. table cs k = Some u \<longrightarrow> tokens_text (command u)"
  shows "valid_str (list_commands i (cs :: ('s, 'm) sunit option list))"
proof -
  have "\<exists>k. table cs k = Some u" if "Some u \<in> set cs" for u
    using that by (auto simp: in_set_conv_nth table_def)
  with assms tokens_text_show have set: "\<forall>u. Some u \<in> set cs \<longrightarrow> valid_str (Tokens_fmt (command u))"
    by metis
  have rest: "valid_str out \<Longrightarrow> \<forall>u. Some u \<in> set cs \<longrightarrow> valid_str (Tokens_fmt (command u)) \<Longrightarrow>
      valid_str (list_rest i cs out)" for i out and cs :: "('s, 'm) sunit option list"
    by (induction i cs out rule: list_rest.induct) (simp_all add: scalar_def)
  from set show ?thesis
    by (induction i cs rule: list_commands.induct) (auto intro!: rest)
qed

lemma serve_response_text:
  assumes "serve S M sh n s (Reply c ev r) s'" "event_text ev" "text_inv s"
  shows "response_text r"
  using assms(1)
proof cases
  case (serve_command cmd cs)
  then show ?thesis by (auto dest!: call_command_table)
next
  case serve_commands
  then show ?thesis using assms(3) by (auto simp: text_inv_def unit_text_def intro!: list_commands_text)
next
  case (serve_result cid jid input u r' u')
  with assms(2) input_reply_text show ?thesis by simp
qed (use assms(2) in simp_all)

lemma running_text:
  assumes "text_inv s" "table (commands s) k = Some u" "Running jid input \<in> set (threads u)"
  shows "valid_str (render (command u) slot jid input)"
proof -
  have "Running jid input \<in> set ts \<Longrightarrow> (jid, input) \<in># running ts" for ts
    by (induction ts) (auto simp: running_def)
  with assms(3) have "(jid, input) \<in># fst (pool_abs (threads u, u))" by (simp add: pool_abs_def)
  moreover have "unit_text u" using assms(1,2) by (auto simp: text_inv_def)
  ultimately show ?thesis by (intro render_text) (auto simp: unit_text_def)
qed

end

text \<open>
  C16. Type soundness of the texts: in every state that the server reaches with requests from
  its decoder, the command line of every job that a slot runs is a string, and every
  response is encoded as the UTF-8 bytes of a string; no conversion on the way panics.
\<close>

theorem server_texts_typed:
  assumes "server_queues S items M lookup" "reach S M sh n (decoded split_to) s"
  shows "(\<forall>k u slot jid input. table (commands s) k = Some u \<longrightarrow> Running jid input \<in> set (threads u)
      \<longrightarrow> valid_str (render (command u) slot jid input))
    \<and> (\<forall>c ev r s'. serve S M sh n s (Reply c ev r) s' \<longrightarrow> decoded split_to s (Reply c ev r)
      \<longrightarrow> (\<exists>t. valid_str t \<and> encode r [] = Some (as_bytes t)))"
proof -
  have "server_queues.text_inv items lookup s"
    by (rule server_queues.reach_text_inv [OF assms decoded_text])
  with server_queues.running_text [OF assms(1)] server_queues.serve_response_text [OF assms(1)] encode_text
    decoded_text show ?thesis by (metis action_text.simps(2))
qed

theorem server_texts_typed_witness:
  "\<exists>t. valid_str t \<and> encode (Info (list_commands 0 (commands demo_idle))) [] = Some (as_bytes t)"
proof -
  have "sendable (Command (lit ''x''))" by (simp add: lit_def scalar_def)
  from decode_line [OF list_split_to_law this] decode_line [OF list_split_to_law, of GetCommands]
  have d: "decoded list_split_to s (Reply c (Command (lit ''x'')) r)" "decoded list_split_to s (Reply c GetCommands r)"
    for s :: demo_server and c r by auto
  have "serve list_stack fun_map demo_sh 1 demo_idle (Reply 0 GetCommands (Info (list_commands 0 (commands demo_idle)))) demo_idle"
    by (rule serve_commands) (simp_all add: demo_idle_def server_init_def)
  with server_texts_typed [OF list_queue.server_queues_axioms demo_registered [where allowed = "decoded list_split_to", OF d(1)]] d(2)
  show ?thesis by blast
qed

end
