(* ===== verification/Server_Main.thy ===== *)
theory Server_Main
  imports Connection
begin

text \<open>
  The start of the server, \<^verbatim>\<open>src/server/main.rs\<close>: the command line, the certificate, the
  address to listen on and the number of threads, up to the call that hands the service to
  the framework, with what is written to standard error. The certificate parser and the
  builder of the TLS acceptor are not part of the repository; their results are inputs of
  the model, as is the printing of their errors.
\<close>

section \<open>The command line\<close>

text \<open>
  The \<^verbatim>\<open>while\<close> loop: a panic for the help option, an exit with its message for a port that
  is missing or no \<^verbatim>\<open>u32\<close>.
\<close>

fun server_args :: "rstr list \<Rightarrow> 32 word \<Rightarrow> 32 word run" where
  "server_args [] port = Done port"
| "server_args (arg # args) port =
     (if arg = lit ''-h'' \<or> arg = lit ''--help'' then Panic
      else if arg = lit ''-p'' \<or> arg = lit ''--port'' then
        (case args of
           x # args \<Rightarrow>
             (case parse_uint x of
                Some p \<Rightarrow> server_args args p
              | None \<Rightarrow> Exit 1 (critical (lit ''invalid port value'')))
         | [] \<Rightarrow> Exit 1 (critical (lit ''no port value supplied'')))
      else server_args args port)"

text \<open>
  The \<^verbatim>\<open>match result\<close> on the certificate file: the errors are those of the directory, of
  the file and of the parser.
\<close>

definition server_certificate ::
  "(io_error \<Rightarrow> rstr) \<Rightarrow> (rstr + (io_error + (rstr + 'c))) \<Rightarrow> 'c run" where [eval_defs]:
  "server_certificate show_io result = (case result of
     Inr (Inr (Inr cert)) \<Rightarrow> Done cert
   | Inr (Inr (Inl why)) \<Rightarrow> Exit 1 (critical (lit ''error parsing cert: '' @ why))
   | Inr (Inl why) \<Rightarrow> Exit 1 (critical (lit ''error reading cert file: '' @ show_io why))
   | Inl why \<Rightarrow> Exit 1 (critical (lit ''invalid app dir path: '' @ why)))"

section \<open>Socket addresses\<close>

text \<open>
  \<^verbatim>\<open>str::parse::<SocketAddr>\<close> of the standard library, for the IPv4 form: four numbers of
  at most three digits below 256, and a port of at most five digits below 65536.
  \<open>read_number\<close> reads greedily and fails as soon as a bound is passed.
\<close>

fun read_number :: "nat \<Rightarrow> nat \<Rightarrow> nat \<Rightarrow> nat \<Rightarrow> rstr \<Rightarrow> (nat \<times> rstr) option" where
  "read_number max_digits bound r seen [] = (if seen = 0 then None else Some (r, []))"
| "read_number max_digits bound r seen (c # s) =
     (if 48 \<le> c \<and> c \<le> 57 then
        (if max_digits < seen + 1 \<or> bound \<le> r * 10 + (c - 48) then None
         else read_number max_digits bound (r * 10 + (c - 48)) (seen + 1) s)
      else if seen = 0 then None else Some (r, c # s))"

definition read_given :: "rchar \<Rightarrow> rstr \<Rightarrow> rstr option" where [eval_defs]:
  "read_given c s = (case s of [] \<Rightarrow> None | d # t \<Rightarrow> if d = c then Some t else None)"

definition parse_socket_v4 :: "rstr \<Rightarrow> (nat list \<times> nat) option" where [eval_defs]:
  "parse_socket_v4 s =
     Option.bind (read_number 3 256 0 0 s) (\<lambda>(a, s). Option.bind (read_given 46 s) (\<lambda>s.
     Option.bind (read_number 3 256 0 0 s) (\<lambda>(b, s). Option.bind (read_given 46 s) (\<lambda>s.
     Option.bind (read_number 3 256 0 0 s) (\<lambda>(c, s). Option.bind (read_given 46 s) (\<lambda>s.
     Option.bind (read_number 3 256 0 0 s) (\<lambda>(d, s). Option.bind (read_given 58 s) (\<lambda>s.
     Option.bind (read_number 5 65536 0 0 s) (\<lambda>(port, s).
       if s = [] then Some ([a, b, c, d], port) else None)))))))))"

section \<open>The start\<close>

text \<open>
  \<^verbatim>\<open>main\<close> up to the call of \<^verbatim>\<open>serve\<close>: the address, the number of threads and the acceptor.
  \<open>builder\<close> and \<open>build\<close> make the acceptor from the certificate, each with an error that
  \<^verbatim>\<open>unwrap\<close> turns into a panic. The address begins with a digit, so the parser of the
  standard library takes the IPv4 form or fails.
\<close>

definition server_main ::
  "(io_error \<Rightarrow> rstr) \<Rightarrow> ('c \<Rightarrow> 'x + 'b) \<Rightarrow> ('b \<Rightarrow> 'y + 'a) \<Rightarrow> rstr list
   \<Rightarrow> (rstr + (io_error + (rstr + 'c))) \<Rightarrow> nat \<Rightarrow> ((nat list \<times> nat) \<times> nat \<times> 'a \<times> rstr) run" where
  [eval_defs]: "server_main show_io builder build args cert ncores = (case server_args args 31514 of
     Panic \<Rightarrow> Panic
   | Exit n why \<Rightarrow> Exit n why
   | Done port \<Rightarrow>
       (case server_certificate show_io cert of
          Panic \<Rightarrow> Panic
        | Exit n why \<Rightarrow> Exit n why
        | Done cert \<Rightarrow>
            (let address = lit ''0.0.0.0:'' @ to_string port
             in case builder cert of
                  Inl e \<Rightarrow> Panic
                | Inr b \<Rightarrow>
                    (case build b of
                       Inl e \<Rightarrow> Panic
                     | Inr tls_cx \<Rightarrow>
                         (case parse_socket_v4 address of
                            None \<Rightarrow> Panic
                          | Some addr \<Rightarrow>
                              Done (addr, ncores + ncores div 2, tls_cx,
                                lit ''Launching service on '' @ [39] @ address @ [39, 46, c_nl]))))))"

section \<open>The port\<close>

text \<open>The value of a string of digits.\<close>

fun value_from :: "nat \<Rightarrow> rstr \<Rightarrow> nat" where
  "value_from r [] = r"
| "value_from r (c # s) = value_from (r * 10 + (c - 48)) s"

lemma value_from_ge: "r \<le> value_from r s"
proof (induction s arbitrary: r)
  case (Cons c s)
  show ?case using Cons [of "r * 10 + (c - 48)"] by simp
qed simp

lemma read_number_digits:
  assumes "\<forall>c \<in> set s. 48 \<le> c \<and> c \<le> 57" "r < bound" "seen \<le> max_digits"
  shows "read_number max_digits bound r seen s =
    (if seen + length s = 0 then None
     else if seen + length s \<le> max_digits \<and> value_from r s < bound then Some (value_from r s, []) else None)"
  using assms
proof (induction s arbitrary: r seen)
  case (Cons c s)
  let ?r = "r * 10 + (c - 48)"
  show ?case
  proof (cases "max_digits < seen + 1 \<or> bound \<le> ?r")
    case True
    with Cons.prems value_from_ge [of ?r s] show ?thesis by auto
  next
    case False
    with Cons.prems Cons.IH [of ?r "seen + 1"] show ?thesis by simp
  qed
qed simp

lemma value_from_append: "value_from r (s @ t) = value_from (value_from r s) t"
  by (induction s arbitrary: r) auto

lemma value_digits: "value_from 0 (digits n) = n"
proof (induction n rule: digits.induct)
  case (1 n)
  then show ?case
    by (cases "n < 10") (simp_all add: digits.simps [of n] value_from_append)
qed

lemma length_digits: "n < 10 ^ Suc k \<Longrightarrow> length (digits n) \<le> Suc k"
proof (induction k arbitrary: n)
  case 0
  then show ?case by (simp add: digits.simps [of n])
next
  case (Suc k)
  show ?case
  proof (cases "n < 10")
    case True
    then show ?thesis by (simp add: digits.simps [of n])
  next
    case False
    have "n div 10 < 10 ^ Suc k" using Suc.prems by (simp add: less_mult_imp_div_less)
    with Suc.IH [of "n div 10"] False show ?thesis by (simp add: digits.simps [of n])
  qed
qed

lemma read_port: "read_number 5 65536 0 0 (to_string (p :: 32 word)) =
    (if unat p < 65536 then Some (unat p, []) else None)"
proof -
  have "read_number 5 65536 0 0 (digits (unat p)) =
    (if length (digits (unat p)) \<le> 5 \<and> unat p < 65536 then Some (unat p, []) else None)"
    using read_number_digits [of "digits (unat p)" 0 65536 0 5] digits_range [of _ "unat p"]
    by (simp add: value_digits)
  moreover have "length (digits (unat p)) \<le> 5" if "unat p < 65536"
    using that length_digits [of "unat p" 4] by simp
  ultimately show ?thesis by (auto simp: to_string_def)
qed

lemma listen_address: "parse_socket_v4 (lit ''0.0.0.0:'' @ to_string p) =
    (if unat (p :: 32 word) < 65536 then Some ([0, 0, 0, 0], unat p) else None)"
  by (simp add: parse_socket_v4_def lit_def read_given_def read_port)

text \<open>
  A command line as its author means it: words that the server skips, and ports, each given
  by the short or the long option and the decimal number. The last port counts.
\<close>

datatype server_option = Skipped rstr | Port bool "32 word"

fun written :: "server_option \<Rightarrow> rstr list" where
  "written (Skipped w) = [w]"
| "written (Port long p) = [if long then lit ''--port'' else lit ''-p'', to_string p]"

fun skippable :: "server_option \<Rightarrow> bool" where
  "skippable (Skipped w) \<longleftrightarrow> w \<notin> {lit ''-h'', lit ''--help'', lit ''-p'', lit ''--port''}"
| "skippable (Port long p) \<longleftrightarrow> True"

definition ports :: "server_option list \<Rightarrow> 32 word list" where
  "ports opts = concat (map (\<lambda>opt. case opt of Port long p \<Rightarrow> [p] | Skipped w \<Rightarrow> []) opts)"

lemma option_names:
  "lit ''-p'' \<noteq> lit ''-h''" "lit ''-p'' \<noteq> lit ''--help''" "lit ''--port'' \<noteq> lit ''-h''"
  "lit ''--port'' \<noteq> lit ''--help''"
  by (simp_all add: lit_def)

lemma server_args_written:
  "list_all skippable opts \<Longrightarrow>
     server_args (concat (map written opts) @ rest) port = server_args rest (last (port # ports opts))"
proof (induction opts arbitrary: port)
  case (Cons opt opts)
  then show ?case by (cases opt) (simp_all add: ports_def option_names)
qed (simp add: ports_def)

text \<open>
  C40. The server listens on the port that it is given last, or on 31514: for a command line of
  skipped words and decimal ports below \<open>2 ^ 32\<close>, with a valid certificate and an acceptor made
  from it, it starts on that port, if it is below 65536, with one and a half threads per
  core, and says so; a larger one is accepted by the command line and then panics. With a
  port option at the end or before a word that is no such number it exits with code 1 and
  the message that says which, and with the help option it panics.
\<close>

theorem server_port:
  assumes "list_all skippable opts" "builder cert = Inr b" "build b = Inr tls_cx"
    and "flag \<in> {lit ''-p'', lit ''--port''}" "helps \<in> {lit ''-h'', lit ''--help''}"
    and "parse_uint x = (None :: 32 word option)"
  shows "server_main show_io builder build (concat (map written opts)) (Inr (Inr (Inr cert))) ncores =
      (let port = last (31514 # ports opts)
       in if unat port < 65536
          then Done (([0, 0, 0, 0], unat port), ncores + ncores div 2, tls_cx,
                 lit ''Launching service on '' @ [39] @ lit ''0.0.0.0:'' @ to_string port @ [39, 46, c_nl])
          else Panic)
    \<and> server_main show_io builder build (concat (map written opts) @ [flag]) result ncores =
      Exit 1 (lit ''concurr [CRITICAL]: no port value supplied'' @ [c_nl])
    \<and> server_main show_io builder build (concat (map written opts) @ flag # x # rest) result ncores =
      Exit 1 (lit ''concurr [CRITICAL]: invalid port value'' @ [c_nl])
    \<and> server_main show_io builder build (concat (map written opts) @ helps # rest) result ncores = Panic"
proof (intro conjI)
  note line = server_args_written [OF assms(1)]
  show "server_main show_io builder build (concat (map written opts)) (Inr (Inr (Inr cert))) ncores =
      (let port = last (31514 # ports opts)
       in if unat port < 65536
          then Done (([0, 0, 0, 0], unat port), ncores + ncores div 2, tls_cx,
                 lit ''Launching service on '' @ [39] @ lit ''0.0.0.0:'' @ to_string port @ [39, 46, c_nl])
          else Panic)"
    using line [where rest = "[]" and port = 31514] assms(2,3)
    by (simp add: server_main_def server_certificate_def listen_address Let_def del: last.simps)
  have flag: "flag \<noteq> lit ''-h''" "flag \<noteq> lit ''--help''" using assms(4) option_names by auto
  show "server_main show_io builder build (concat (map written opts) @ [flag]) result ncores =
      Exit 1 (lit ''concurr [CRITICAL]: no port value supplied'' @ [c_nl])"
    "server_main show_io builder build (concat (map written opts) @ flag # x # rest) result ncores =
      Exit 1 (lit ''concurr [CRITICAL]: invalid port value'' @ [c_nl])"
    using assms(4,6) flag by (auto simp: server_main_def line critical_def lit_def)
  show "server_main show_io builder build (concat (map written opts) @ helps # rest) result ncores = Panic"
    using assms(5) by (auto simp: server_main_def line)
qed

theorem server_port_witness:
  "server_main (\<lambda>_. []) (Inr :: nat \<Rightarrow> unit + nat) (Inr :: nat \<Rightarrow> unit + nat)
     [lit ''-p'', lit ''70000'', lit ''x'', lit ''--port'', lit ''80''] (Inr (Inr (Inr 0))) 4
   = Done (([0, 0, 0, 0], 80), 6, 0,
       lit ''Launching service on '' @ [39] @ lit ''0.0.0.0:'' @ lit ''80'' @ [39, 46, c_nl])"
proof -
  have t: "to_string (70000 :: 32 word) = lit ''70000''" "to_string (80 :: 32 word) = lit ''80''"
    by (simp_all add: to_string_def digits.simps lit_def)
  have "list_all skippable [Port False 70000, Skipped (lit ''x''), Port True 80]" by (simp add: lit_def)
  moreover have "parse_uint (lit ''a'') = (None :: 32 word option)" by (simp add: parse_uint_def push_digit_def lit_def)
  ultimately show ?thesis
    using server_port [where opts = "[Port False 70000, Skipped (lit ''x''), Port True 80]"
        and builder = "Inr :: nat \<Rightarrow> unit + nat" and build = "Inr :: nat \<Rightarrow> unit + nat" and cert = 0 and ncores = 4
        and flag = "lit ''-p''" and helps = "lit ''-h''" and x = "lit ''a''" and show_io = "\<lambda>_. []"]
    by (simp add: ports_def t)
qed

end
