(* ===== verification/Spec2Isabelle.thy ===== *)
theory Spec2Isabelle
  imports Client_Start Client_Runs Cluster_Runs Node_Start Server_Texts Server_Main
begin

text \<open>
  A model of \<^verbatim>\<open>concurr\<close>, a command line tool that runs a command on many inputs in
  parallel, on the local machine and on nodes that run its server, with the properties that
  make it correct. Everything below \<^verbatim>\<open>src/\<close> is Rust; the theories follow its files.

  The parts and how they interact. The client (\<^verbatim>\<open>src/client\<close>) reads its configuration and its
  arguments, connects to the nodes and registers the command there, and starts slots: local
  ones, which run the command in a shell, and remote ones, which exchange inputs with a
  node. A thread queues the inputs, the slots enter the outputs in a table, and the main
  loop shows them in order. The server (\<^verbatim>\<open>src/server\<close>) decodes lines into requests, keeps a
  pool of commands with slots of their own behind a lock, and encodes responses. The shared
  library (\<^verbatim>\<open>src/shared\<close>) has the tokenizer of commands and the event loop of a slot.

  Theories.
  \<^item> \<open>Prelude\<close>: machine integers, results with the question mark operator, lists.
  \<^item> \<open>Rust_Std\<close>: characters and strings with byte offsets and slices that can panic, UTF-8,
    printing and parsing of integers. \<open>Streams\<close>: \<^verbatim>\<open>write_all\<close>, \<^verbatim>\<open>BufReader\<close>,
    \<^verbatim>\<open>read_line\<close> over a connection whose peer is a list of answers.
  \<^item> \<open>Tokenizer\<close> (\<^verbatim>\<open>shared/tokenizer.rs\<close>): \<open>Tokens_new\<close> with the loop's local variables as
    the record \<open>scan\<close>, \<open>Tokens_fmt\<close>; an automaton without offsets as reference.
  \<^item> \<open>Jobs\<close> (\<^verbatim>\<open>shared/jobs.rs\<close>, \<^verbatim>\<open>shared/lib.rs\<close>): \<open>render\<close>, \<open>collect\<close> and the step relation
    \<open>slot_event\<close>, with the traits as the locales \<open>insert_job\<close> and \<open>insert_output\<close>; a pool
    of slots refines the bag of jobs \<open>bag_step\<close> (locale \<open>slot_pool\<close>).
  \<^item> \<open>Crates\<close>: the contracts of the stack and of the hash map that the queues wrap.
  \<^item> \<open>Events\<close>, \<open>Codec\<close>, \<open>Server_Queues\<close>, \<open>Service\<close> (\<^verbatim>\<open>server/service/*.rs\<close>): requests and
    responses, \<open>decode\<close> and \<open>encode\<close>, the queues, and the step relation \<open>serve\<close> of the
    whole server, in which handlers and slot threads interleave.
  \<^item> \<open>Server_System\<close>, \<open>Server_Accounting\<close>, \<open>Server_Texts\<close>: what holds in every reachable
    state of the server, of its lock and its pool, of the way of an input, and of the
    strings it keeps; \<open>Server_Main\<close> (\<^verbatim>\<open>server/main.rs\<close>): its start.
  \<^item> \<open>Args\<close>, \<open>Configure\<close>, \<open>Client_Queues\<close>, \<open>Connection\<close>, \<open>Slot\<close>, \<open>Remote_Slots\<close>, \<open>Source\<close>,
    \<open>Client_Start\<close>, \<open>Client_Main\<close> (\<^verbatim>\<open>client/*.rs\<close>): the client by its files; \<open>slot_spawn\<close> is the event
    loop of a remote slot and \<open>client_step\<close> the step relation of the whole client.
  \<^item> \<open>Client_Program\<close>, \<open>Client_System\<close>: the thread that supplies the inputs, and what holds
    in every run of the client whatever executes its jobs (locale \<open>client_core\<close>).
    \<open>Lone_Client\<close>, \<open>Client_Runs\<close>: the client without nodes, and concrete runs.
  \<^item> \<open>Protocol\<close> and this theory: one session and one exchange, seen from both sides.
  \<^item> \<open>Cluster\<close>: a client together with the servers of its nodes as one step relation,
    \<open>cluster_step\<close>; each remote slot has a connection, whose request a server decodes and
    handles among those of other clients. \<open>Cluster_System\<close> has its invariant (locale
    \<open>distributed\<close>, an instance of \<open>client_core\<close>), \<open>Cluster_Live\<close> what it can always still
    do, \<open>Cluster_Runs\<close> the properties and a small cluster. \<open>Node_Start\<close> shows that
    connecting to a node brings it into the state in which a cluster starts.

  What the lemmas show. Tokenizing never panics and printing inverts it. The codec frames
  lines however the bytes arrive, and its one panic is characterised. The server refines a
  pool of commands, its lock excludes, every response is the outcome of its own input, a
  waiting input and a stop can always be answered. The client shows outputs in the order of
  the inputs. With any slots and nodes, it ends only when each input has been shown once,
  with an outcome of its own command line, as if it had run the command itself; no output
  gets out of reach, and the client can always go on to its end unless its main loop
  already waits for an output behind the last one. Remote slots try each input at most four
  times. The strings of the server are strings. What a session and an exchange write is what the server decodes, and what the
  server encodes is what the client shows, up to a gap in the escaping that is stated
  exactly. Other theorems exhibit behaviour that the code does not intend: a wait without
  end in the main loop, an error of a node that stops the client, instructions injected
  by an input, an instruction sent twice, a deletion of another client's command, a port
  that panics.

  Conventions. \<^verbatim>\<open>usize\<close> is a 64-bit word and \<^verbatim>\<open>u8\<close> an 8-bit word. An \<^verbatim>\<open>Err\<close> is \<open>Inl\<close>; a
  panic is \<open>None\<close> around a value, or \<open>Panic\<close> of the type \<open>run\<close>, where \<open>Exit\<close> is the end of
  the process with its message. Slices, unwraps and subtractions that can panic are partial. Threads interleave at their operations on shared state, which are atomic and
  sequentially consistent; sleeping has no effect. Loops are recursive functions with a
  termination proof, except the loop of \<^verbatim>\<open>attempt_connection\<close>, a partial function that is
  proved to return, and the loops that wait for other threads, which are steps that change
  nothing. The number given to \<open>frames\<close> bounds the instructions it decodes; more than there
  are lines is enough.

  Parameters and what is not modelled. The crates \<^verbatim>\<open>bytes\<close>, \<^verbatim>\<open>coco\<close>, \<^verbatim>\<open>chashmap\<close>, \<^verbatim>\<open>toml\<close>,
  \<^verbatim>\<open>app_dirs\<close>, \<^verbatim>\<open>native_tls\<close> and the tokio framework are arguments of the definitions or
  answers in a stream; the shell is a relation between a command line and its outcomes. The
  protocol binding \<^verbatim>\<open>server/service/proto.rs\<close> only names the codec for the framework, and
  the framework's serving is the interleaving of \<open>serve\<close>. Messages on standard error are
  modelled for the start of the client and of the server and for the jobs of the main loop;
  the others, which report an error that the model returns as a value or an attempt that
  failed, are left out. Three simplifications give the model more runs, or other ones, than
  the program: an exit in a remote slot, whose certificate is gone, ends only this slot in
  the model, so a run of the program is the beginning of one of the model; the threads of a
  new command start when it is stored, not just before the lock is taken; and the end of
  \<^verbatim>\<open>main\<close>, which drops the connections to the nodes (\<open>main_return\<close>), is not a step of
  \<open>client_step\<close>.

  In a cluster the connections are reliable: connecting may be refused, but what is written
  arrives, and the connection stays open, so that a slot goes on when \<open>read_from\<close> does not
  wait any more; whether it waits is computed from the code of \<open>read_from\<close> (\<open>read_blocks\<close>).
  Broken connections are the subject of \<open>Remote_Slots\<close>.

  Next steps: clusters whose connections break; the weaker order of the relaxed atomics; the
  size of a pipe, which a slot reads only after its command has ended.
\<close>

section \<open>A command on a node\<close>

text \<open>
  A node runs the command that the client was given: the instruction that the client
  sends reads as that command, the server stores it as a new unit whose tokens are those
  that the client's own slots use, and the ID that the client takes from the answer, in
  whatever chunks it comes, designates this unit.
\<close>

theorem command_registered:
  assumes "split_to_law split_to" "sendable (Command cmd)" "length cs < 2 ^ 64"
    and "write_answers (conn_stream c) = []" "sent (conn_stream c) = []"
    and "call_command S M n cmd cs = Some (cs', reply)" "encode reply [] = Some b"
    and "incoming (conn_stream c) = map Inr chunks" "arrives b chunks"
  shows "\<exists>c' i toks. send_command c cmd = (Some (Inr i), c') \<and> conn_command c' = i
    \<and> decode split_to (sent (conn_stream c')) = Some (Inr (Some (Command cmd)), [])
    \<and> Tokens_new cmd = Some toks \<and> get_unit cs i = None \<and> get_unit cs' i = Some (new_unit S M n toks)"
proof -
  from command_id [OF assms(6,3)] obtain i toks where k: "reply = Info (to_string i)" "Tokens_new cmd = Some toks"
    "get_unit cs i = None" "get_unit cs' i = Some (new_unit S M n toks)" by blast
  from assms(7) k(1) have "encode (Info (to_string i)) [] = Some b" by simp
  from send_command_answered [OF assms(4,8) this assms(9), of cmd] decode_line [OF assms(1,2), of "[]"]
  show ?thesis using k(2-4) assms(5) by simp
qed

theorem command_registered_witness:
  "\<exists>cs' b c' i toks. send_command \<lparr>conn_stream = \<lparr>incoming = [Inr b], write_answers = [], sent = []\<rparr>,
       conn_domain = lit ''n'', conn_address = (), conn_command = 0, conn_cores = 4\<rparr> (lit ''ls'')
      = (Some (Inr i), c')
    \<and> call_command list_stack fun_map 1 (lit ''ls'') [] = Some (cs', Info (lit ''0''))
    \<and> Tokens_new (lit ''ls'') = Some toks \<and> get_unit cs' i = Some (new_unit list_stack fun_map 1 toks)"
proof -
  obtain toks where t: "Tokens_new (lit ''ls'') = Some toks" using Tokens_new_auto by blast
  then have cc: "call_command list_stack fun_map 1 (lit ''ls'') []
      = Some ([Some (new_unit list_stack fun_map 1 toks)], Info (lit ''0''))"
    by (simp add: call_command_def lit_def digits.simps)
  have "sendable (Command (lit ''ls''))" by (simp add: lit_def scalar_def)
  from command_registered [OF list_split_to_law this _ _ _ cc encode_info,
      where c = "\<lparr>conn_stream = \<lparr>incoming = [Inr (as_bytes (lit ''0'') @ [byte_of c_nl])],
        write_answers = [], sent = []\<rparr>, conn_domain = lit ''n'', conn_address = (), conn_command = 0,
        conn_cores = 4\<rparr>" and chunks = "[as_bytes (lit ''0'') @ [byte_of c_nl]]"]
  show ?thesis using cc by (auto simp: arrives_def)
qed

section \<open>Remote and local execution\<close>

text \<open>
  C17. An input that a node runs is shown as if the client had run it: when the server answers
  with what its slot's run of the command gave, in whatever chunks, the exchange enters an
  output that the main loop shows with exactly the bytes that it would show for the same
  run of a local slot, provided that the run's outputs are text without ambiguous
  backslashes.
\<close>

theorem remote_as_local:
  assumes "write_answers s = []" "incoming s = map Inr chunks"
    and "q = Child w (as_bytes out) (as_bytes err)" "valid_str out" "valid_str err"
    and "\<not> ambiguous out" "\<not> ambiguous err"
    and "encode (input_reply jid input (collect q)) [] = Some b" "arrives b chunks"
  shows "\<exists>s' out'. exchange M cid jid input s outs cache_new
      = Some (Inr (), s', outs\<lparr>outputs_map := m_insert M (outputs_map outs) jid out'\<rparr>, cache_new)
    \<and> (\<forall>verb fds. show_output verb jid out' fds = show_output verb jid (internal_output (collect q)) fds)"
proof -
  let ?o = "Outcome (exit_status w) (External out err)"
  from assms(3-5,8) have e: "encode (Output jid (exit_status w) out err) [] = Some b"
    by (simp add: file_text_def)
  have "unescaped (escaped_form out) = out" "unescaped (escaped_form err) = err"
    using assms(6,7) by (simp_all add: unescaped_escaped)
  with exchange_response [OF assms(1) _ e assms(9,4,5), where later = "[]"] assms(2)
  have "exchange M cid jid input s outs cache_new = Some (Inr (),
      s\<lparr>sent := sent s @ line_bytes (Input cid jid input), incoming := []\<rparr>,
      outs\<lparr>outputs_map := m_insert M (outputs_map outs) jid ?o\<rparr>, cache_new)"
    by (simp add: push_external_def)
  moreover have "show_output verb jid ?o fds = show_output verb jid (internal_output (collect q)) fds"
    for verb fds using assms(3) by (simp add: show_output_def write_source_def)
  ultimately show ?thesis by blast
qed

theorem remote_as_local_witness:
  "\<exists>b s' out'. encode (input_reply 7 (lit ''a'') (collect (Child (Some (Some 0)) (as_bytes (lit ''x'')) []))) [] = Some b
    \<and> exchange fun_map 3 7 (lit ''a'') \<lparr>incoming = [Inr b], write_answers = [], sent = []\<rparr>
        \<lparr>outputs_map = (\<lambda>_. None)\<rparr> cache_new
      = Some (Inr (), s', \<lparr>outputs_map = [7 \<mapsto> out']\<rparr>, cache_new)
    \<and> show_output False 7 out' ([], []) = (as_bytes (lit ''x''), [])"
proof -
  let ?q = "Child (Some (Some 0)) (as_bytes (lit ''x'')) (as_bytes [])"
  obtain b where b: "encode (input_reply 7 (lit ''a'') (collect ?q)) [] = Some b" "b \<noteq> []"
    by (simp add: file_text_def encode_output)
  have mi: "m_insert fun_map m k v = m(k \<mapsto> v)" for m :: "usize \<rightharpoonup> job_output" and k v
    by (simp add: fun_map_def)
  have na: "\<not> ambiguous (lit ''x'')" by (simp add: lit_def)
  from remote_as_local [where q = ?q and M = fun_map and outs = "\<lparr>outputs_map = (\<lambda>_. None)\<rparr>"
      and cid = 3 and s = "\<lparr>incoming = [Inr b], write_answers = [], sent = []\<rparr>" and chunks = "[b]",
      OF _ _ refl _ _ _ _ b(1) arrives_one [OF b(2)]]
  obtain s' out' where "exchange fun_map 3 7 (lit ''a'') \<lparr>incoming = [Inr b], write_answers = [], sent = []\<rparr>
        \<lparr>outputs_map = (\<lambda>_. None)\<rparr> cache_new
      = Some (Inr (), s', \<lparr>outputs_map = [7 \<mapsto> out']\<rparr>, cache_new)"
    "show_output False 7 out' ([], []) = show_output False 7 (internal_output (collect ?q)) ([], [])"
    using na by (auto simp: mi)
  with b(1) show ?thesis
    by (intro exI [of _ b] exI [of _ s'] exI [of _ out']) (simp add: show_output_def write_source_def)
qed

end
